(* ===== verification/Prelude.thy ===== *)
theory Prelude
  imports Main "HOL-Library.Word"
begin

unbundle bit_operations_syntax

text \<open>
  Shared vocabulary of the development.  The source is C for x86-64 (LP64), compiled without
  optimisation, so the integer types of \<open>src/src/include/kernel/types.h\<close> are words of their
  width and \<open>+\<close>, \<open>-\<close>, \<open>*\<close> wrap around.  The theory also holds the rounding
  macros, the kernel's address offset and the generic facts on lists, powers of two and words
  that the component theories share.
\<close>

section \<open>Machine types\<close>

type_synonym u8 = "8 word"
type_synonym u16 = "16 word"
type_synonym u32 = "32 word"
type_synonym u64 = "64 word"

section \<open>Collections of rewrite rules\<close>

named_theorems page_simps \<open>rounding to pages and the kernel's address offset\<close>
named_theorems dyadic \<open>alignment and disjointness of blocks of a power-of-two size\<close>

section \<open>Rounding macros (types.h, page.h)\<close>

definition upper_div :: "'a::{semiring_modulo, linorder} \<Rightarrow> 'a \<Rightarrow> 'a" where
  "upper_div dividend divisor =
     dividend div divisor + (if dividend mod divisor > 0 then 1 else 0)"

definition lower_div :: "'a::{semiring_modulo, linorder} \<Rightarrow> 'a \<Rightarrow> 'a" where
  "lower_div dividend divisor = dividend div divisor"

definition PAGE_SIZE :: u64 where "PAGE_SIZE = 0x1000"

definition PAGE_UPPER_ALIGN :: "u64 \<Rightarrow> u64" where
  "PAGE_UPPER_ALIGN address = upper_div address PAGE_SIZE * PAGE_SIZE"

definition PAGE_LOWER_ALIGN :: "u64 \<Rightarrow> u64" where
  "PAGE_LOWER_ALIGN address = lower_div address PAGE_SIZE * PAGE_SIZE"

section \<open>Kernel addresses (boot.h, mm.h)\<close>

definition KERNEL_OFFSET :: u64 where "KERNEL_OFFSET = 0xffff800000000000"

definition to_phy :: "u64 \<Rightarrow> u64" where "to_phy address = address - KERNEL_OFFSET"

definition to_vir :: "u64 \<Rightarrow> u64" where "to_vir address = address + KERNEL_OFFSET"

lemma to_phy_to_vir [simp]: "to_phy (to_vir a) = a"
  by (simp add: to_phy_def to_vir_def)

lemma to_vir_to_phy [simp]: "to_vir (to_phy a) = a"
  by (simp add: to_phy_def to_vir_def)

lemma to_vir_inj [simp]: "to_vir a = to_vir b \<longleftrightarrow> a = b"
  by (simp add: to_vir_def)

section \<open>Lists\<close>

lemma in_set_tlD: "x \<in> set (tl xs) \<Longrightarrow> x \<in> set xs"
  by (cases xs) auto

lemma distinct_butlast_last: "xs \<noteq> [] \<Longrightarrow> distinct xs \<Longrightarrow> last xs \<notin> set (butlast xs)"
  by (metis append_butlast_last_id distinct_append disjoint_insert(1) list.set(2) inf_commute)

section \<open>Division rounding up, on natural numbers\<close>

lemma upper_div_nat_cases:
  "upper_div n d * d = (if n mod d > 0 then n div d * d + d else n div d * (d::nat))"
  by (simp add: upper_div_def)

lemma upper_div_nat_ge:
  assumes "0 < d" shows "(n::nat) \<le> upper_div n d * d"
proof -
  have "n div d * d + n mod d = n" "n mod d < d" using assms by simp_all
  then show ?thesis unfolding upper_div_nat_cases by (split if_split) (intro conjI impI; linarith)
qed

lemma upper_div_nat_less:
  assumes "0 < d" shows "upper_div n d * d < (n::nat) + d"
proof -
  have "n div d * d + n mod d = n" by simp
  then show ?thesis using assms unfolding upper_div_nat_cases by (split if_split) (intro conjI impI; linarith)
qed

lemma upper_div_le: "0 < d \<Longrightarrow> n \<le> m * d \<Longrightarrow> upper_div (n::nat) d \<le> m"
proof -
  assume "0 < d" "n \<le> m * d"
  then have "upper_div n d * d < Suc m * d" using upper_div_nat_less [of d n] by simp
  then show ?thesis by (simp only: mult_less_cancel2 less_Suc_eq_le)
qed

lemma div_less_upper_div: "0 < d \<Longrightarrow> k < n \<Longrightarrow> k div d < upper_div (n::nat) d"
proof -
  assume "0 < d" "k < n"
  then have "k < upper_div n d * d" using upper_div_nat_ge [of d n] by simp
  then show ?thesis using \<open>0 < d\<close> by (simp add: div_less_iff_less_mult)
qed

lemma upper_div_nat_eq: "d dvd n \<Longrightarrow> upper_div (n::nat) d = n div d"
  by (simp add: upper_div_def mod_eq_0_iff_dvd)

section \<open>Widening\<close>

lemma unat_ucast_widen [simp]:
  fixes w :: "'a::len word"
  assumes "LENGTH('a) \<le> LENGTH('b::len)" shows "unat (ucast w :: 'b word) = unat w"
proof -
  have "unat w < 2 ^ LENGTH('a)" by (rule unsigned_less)
  also have "\<dots> \<le> (2::nat) ^ LENGTH('b)" using assms by (intro power_increasing) simp_all
  finally show ?thesis by (simp add: unsigned_ucast_eq take_bit_eq_mod)
qed

lemma ucast_of_nat_narrow:
  assumes "LENGTH('b::len) \<le> LENGTH('a::len)"
  shows "ucast (of_nat n :: 'a word) = (of_nat n :: 'b word)"
  using assms
  by (simp add: word_unat_eq_iff unsigned_ucast_eq unat_of_nat take_bit_eq_mod mod_mod_cancel le_imp_power_dvd)

section \<open>Rounding addresses to pages\<close>

lemma unat_PAGE_SIZE [page_simps]: "unat PAGE_SIZE = 4096"
  by (simp add: PAGE_SIZE_def)

lemma unat_PAGE_LOWER_ALIGN [page_simps]:
  "unat (PAGE_LOWER_ALIGN a) = unat a div 4096 * 4096"
proof -
  have "unat a div 4096 * 4096 \<le> unat a" by simp
  also have "unat a < 2 ^ 64" using unsigned_less [of a] by simp
  finally show ?thesis
    by (simp add: PAGE_LOWER_ALIGN_def lower_div_def unat_word_ariths unat_div unat_PAGE_SIZE)
qed

lemma unat_upper_div:
  fixes a d :: "'a::len word"
  assumes "1 < unat d" shows "unat (upper_div a d) = upper_div (unat a) (unat d)"
proof -
  have lt: "unat a < 2 ^ LENGTH('a)" by (rule unsigned_less)
  have m: "(a mod d > 0) = (unat a mod unat d > 0)" by (simp add: word_less_nat_alt unat_mod)
  have "unat a div unat d + 1 < 2 ^ LENGTH('a)" if "unat a mod unat d > 0"
  proof -
    have "unat a > 0" using that by (cases "unat a = 0") auto
    then have "unat a div unat d < unat a" using assms by simp
    then show ?thesis using lt by linarith
  qed
  moreover have "unat a div unat d < 2 ^ LENGTH('a)"
    using lt div_le_dividend le_less_trans by blast
  ultimately show ?thesis
    unfolding upper_div_def m by (simp add: unat_word_ariths unat_div)
qed

lemma unat_upper_div_page [page_simps]: "unat (upper_div a PAGE_SIZE) = upper_div (unat a) 4096"
  using unat_upper_div [of PAGE_SIZE a] by (simp add: unat_PAGE_SIZE)

lemma unat_PAGE_UPPER_ALIGN [page_simps]:
  "unat a \<le> 2 ^ 64 - 4096 \<Longrightarrow> unat (PAGE_UPPER_ALIGN a) = upper_div (unat a) 4096 * 4096"
proof -
  assume a: "unat a \<le> 2 ^ 64 - 4096"
  have "upper_div (unat a) 4096 * 4096 < unat a + 4096"
    by (rule upper_div_nat_less) simp
  with a have "upper_div (unat a) 4096 * 4096 < 2 ^ 64" by simp
  then show ?thesis
    by (simp add: PAGE_UPPER_ALIGN_def unat_word_ariths page_simps)
qed

lemma PAGE_LOWER_ALIGN_idem [simp]:
  "unat a mod 4096 = 0 \<Longrightarrow> PAGE_LOWER_ALIGN a = a"
  by (simp add: word_unat_eq_iff page_simps mod_0_imp_dvd)

end
