(* ===== verification/CList.thy ===== *)
theory CList
  imports Prelude
begin

text \<open>
  The intrusive circular doubly linked list of \<open>src/src/include/kernel/list.h\<close> (the user-space
  copy \<open>libc/sys/list.h\<close> is the same text).  The operations are modelled on a store of
  \<open>prev\<close>/\<open>next\<close> pointers, one write after the other as in the C code.  The predicate
  \<open>dlist\<close> says that a head and the nodes behind it form a well-linked ring, and the lemmas show
  that each operation does to the ring what the corresponding function on HOL lists does to the
  list of its nodes.  The other theories use HOL lists for these rings on the strength of the
  interpretation at the end.
\<close>

type_synonym ptr = u64

record list_heap =
  lprev :: "ptr \<Rightarrow> ptr"
  lnext :: "ptr \<Rightarrow> ptr"

abbreviation NULL :: ptr where "NULL \<equiv> 0"

definition set_next :: "ptr \<Rightarrow> ptr \<Rightarrow> list_heap \<Rightarrow> list_heap" where
  "set_next p v h = h\<lparr>lnext := (lnext h)(p := v)\<rparr>"

definition set_prev :: "ptr \<Rightarrow> ptr \<Rightarrow> list_heap \<Rightarrow> list_heap" where
  "set_prev p v h = h\<lparr>lprev := (lprev h)(p := v)\<rparr>"

definition list_head_init :: "ptr \<Rightarrow> list_heap \<Rightarrow> list_heap" where
  "list_head_init head h = set_prev head head (set_next head head h)"

definition list_is_null :: "ptr \<Rightarrow> list_heap \<Rightarrow> bool" where
  "list_is_null head h \<longleftrightarrow> lnext h head = head \<or> lprev h head = head"

definition list_add_between :: "ptr \<Rightarrow> ptr \<Rightarrow> ptr \<Rightarrow> list_heap \<Rightarrow> list_heap" where
  "list_add_between new prev next h =
     (let h = set_next new next h;
          h = set_prev new prev h;
          h = set_next prev new h
      in set_prev next new h)"

definition list_add :: "ptr \<Rightarrow> ptr \<Rightarrow> list_heap \<Rightarrow> list_heap" where
  "list_add new head h = list_add_between new head (lnext h head) h"

definition list_add_tail :: "ptr \<Rightarrow> ptr \<Rightarrow> list_heap \<Rightarrow> list_heap" where
  "list_add_tail new head h = list_add_between new (lprev h head) head h"

definition list_del_between :: "ptr \<Rightarrow> ptr \<Rightarrow> list_heap \<Rightarrow> list_heap" where
  "list_del_between prev next h = set_prev next prev (set_next prev next h)"

definition list_del_entry :: "ptr \<Rightarrow> list_heap \<Rightarrow> list_heap" where
  "list_del_entry entry h =
     (if \<not> (lprev h entry \<noteq> NULL \<and> lnext h entry \<noteq> NULL) then h
      else list_del_between (lprev h entry) (lnext h entry) h)"

definition list_del :: "ptr \<Rightarrow> list_heap \<Rightarrow> list_heap" where
  "list_del entry h = set_prev entry NULL (set_next entry NULL (list_del_entry entry h))"

text \<open>
  The traversal \<open>list_for_each\<close>: the nodes its cursor visits, from \<open>pos\<close> until the head is
  reached again.  On a broken ring the loop may not end; that is the value \<open>None\<close>.
\<close>

partial_function (option) list_for_each_from :: "list_heap \<Rightarrow> ptr \<Rightarrow> ptr \<Rightarrow> ptr list option" where
  "list_for_each_from h head pos =
     (if pos = head then Some []
      else Option.bind (list_for_each_from h head (lnext h pos)) (\<lambda>ps. Some (pos # ps)))"

definition list_for_each :: "list_heap \<Rightarrow> ptr \<Rightarrow> ptr list option" where
  "list_for_each h head = list_for_each_from h head (lnext h head)"

definition list_first_entry :: "list_heap \<Rightarrow> ptr \<Rightarrow> ptr" where
  "list_first_entry h head = lnext h head"

section \<open>Well-linked rings\<close>

lemmas field_simps_list =
  set_next_def set_prev_def list_head_init_def list_add_between_def list_del_between_def Let_def

lemma lnext_set [simp]:
  "lnext (set_next p v h) = (lnext h)(p := v)" "lnext (set_prev p v h) = lnext h"
  by (simp_all add: set_next_def set_prev_def)

lemma lprev_set [simp]:
  "lprev (set_next p v h) = lprev h" "lprev (set_prev p v h) = (lprev h)(p := v)"
  by (simp_all add: set_next_def set_prev_def)

text \<open>Every two neighbours of the sequence point to each other.\<close>

fun linked :: "list_heap \<Rightarrow> ptr list \<Rightarrow> bool" where
  "linked h (a # b # xs) \<longleftrightarrow> lnext h a = b \<and> lprev h b = a \<and> linked h (b # xs)"
| "linked h _ \<longleftrightarrow> True"

definition dlist :: "list_heap \<Rightarrow> ptr \<Rightarrow> ptr list \<Rightarrow> bool" where
  "dlist h head xs \<longleftrightarrow>
     linked h (head # xs @ [head]) \<and> distinct (head # xs) \<and> NULL \<notin> set (head # xs)"

lemma linked_split: "linked h (xs @ a # ys) \<longleftrightarrow> linked h (xs @ [a]) \<and> linked h (a # ys)"
proof (induction xs)
  case (Cons x xs)
  then show ?case by (cases xs) auto
qed simp

lemma linked_split2:
  "linked h (xs @ a # b # ys) \<longleftrightarrow>
     linked h (xs @ [a]) \<and> lnext h a = b \<and> lprev h b = a \<and> linked h (b # ys)"
  by (subst linked_split) simp

lemma linked_cong:
  assumes "\<And>a. a \<in> set (butlast xs) \<Longrightarrow> lnext h a = lnext h' a"
    and "\<And>b. b \<in> set (tl xs) \<Longrightarrow> lprev h b = lprev h' b"
  shows "linked h xs = linked h' xs"
  using assms by (induction h xs rule: linked.induct) auto

lemma linked_set_next: "p \<notin> set (butlast xs) \<Longrightarrow> linked (set_next p v h) xs = linked h xs"
  by (rule linked_cong) auto

lemma linked_set_prev: "p \<notin> set (tl xs) \<Longrightarrow> linked (set_prev p v h) xs = linked h xs"
  by (rule linked_cong) auto

lemma dlist_first: "dlist h head (x # xs) \<Longrightarrow> lnext h head = x"
  by (simp add: dlist_def)

lemma dlist_last: "dlist h head (xs @ [x]) \<Longrightarrow> lprev h head = x"
  using linked_split2 [of h "head # xs" x head "[]"] by (simp add: dlist_def)

lemma dlist_Nil_iff: "dlist h head [] \<longleftrightarrow> lnext h head = head \<and> lprev h head = head \<and> head \<noteq> NULL"
  by (auto simp: dlist_def)

text \<open>A ring is split at any node: what stands before it (the head included) and after it.\<close>

lemma dlist_split:
  "dlist h head (xs @ p # ys) \<longleftrightarrow>
     linked h (head # xs @ [p]) \<and> linked h (p # ys @ [head]) \<and>
     distinct (head # xs @ p # ys) \<and> NULL \<notin> set (head # xs @ p # ys)"
  using linked_split [of h "head # xs" p "ys @ [head]"] by (simp add: dlist_def)

section \<open>The operations on rings\<close>

lemma list_head_init_dlist [intro]: "head \<noteq> NULL \<Longrightarrow> dlist (list_head_init head h) head []"
  by (simp add: dlist_Nil_iff list_head_init_def)

lemma list_is_null_iff: "dlist h head xs \<Longrightarrow> list_is_null head h \<longleftrightarrow> xs = []"
proof (cases xs rule: rev_cases)
  case (snoc ys y)
  moreover assume d: "dlist h head xs"
  ultimately have "lprev h head = y" "y \<noteq> head"
    using dlist_last [of h head ys y] by (auto simp: dlist_def)
  moreover have "lnext h head \<noteq> head"
    using d snoc by (cases ys) (auto simp: dlist_def)
  ultimately show ?thesis using snoc by (simp add: list_is_null_def)
qed (auto simp: dlist_Nil_iff list_is_null_def)

text \<open>
  Insertion between two neighbours: \<open>xs\<close> stands before the new node, \<open>ys\<close> after it, and
  the neighbours are the last of the head and \<open>xs\<close> and the first of \<open>ys\<close> and the head.
\<close>

abbreviation before :: "ptr \<Rightarrow> ptr list \<Rightarrow> ptr" where
  "before head xs \<equiv> last (head # xs)"

abbreviation after :: "ptr \<Rightarrow> ptr list \<Rightarrow> ptr" where
  "after head ys \<equiv> hd (ys @ [head])"

lemma linked_append:
  "xs \<noteq> [] \<Longrightarrow> ys \<noteq> [] \<Longrightarrow>
   linked h (xs @ ys) \<longleftrightarrow>
     linked h xs \<and> lnext h (last xs) = hd ys \<and> lprev h (hd ys) = last xs \<and> linked h ys"
proof (induction xs)
  case (Cons x xs)
  then show ?case by (cases xs; cases ys) auto
qed simp

lemma dlist_append:
  "dlist h head (xs @ ys) \<longleftrightarrow>
     linked h (head # xs) \<and> linked h (ys @ [head]) \<and>
     lnext h (before head xs) = after head ys \<and> lprev h (after head ys) = before head xs \<and>
     distinct (head # xs @ ys) \<and> NULL \<notin> set (head # xs @ ys)"
  using linked_append [of "head # xs" "ys @ [head]" h] by (auto simp: dlist_def)

lemma dlist_neighbours:
  assumes "distinct (head # xs @ ys)"
  shows "before head xs \<notin> set ys" "after head ys \<notin> set xs"
    "before head xs \<notin> set (butlast (head # xs))" "after head ys \<notin> set (tl (ys @ [head]))"
proof -
  show "before head xs \<notin> set (butlast (head # xs))"
    by (rule distinct_butlast_last) (use assms in auto)
  have "before head xs \<in> set (head # xs)" by simp
  then show "before head xs \<notin> set ys" using assms by auto
  have "after head ys \<in> set (ys @ [head])" by (rule hd_in_set) simp
  then show "after head ys \<notin> set xs" using assms by auto
  show "after head ys \<notin> set (tl (ys @ [head]))" using assms by (cases ys) auto
qed

lemma dlist_add_between:
  assumes "dlist h head (xs @ ys)" "new \<notin> set (head # xs @ ys)" "new \<noteq> NULL"
  shows "dlist (list_add_between new (before head xs) (after head ys) h) head (xs @ new # ys)"
proof -
  let ?a = "before head xs" and ?b = "after head ys"
  let ?h = "list_add_between new ?a ?b h"
  note d = assms(1) [unfolded dlist_append]
  note nb = dlist_neighbours [of head xs ys]
  have ab: "?a \<noteq> new" "?b \<noteq> new" using assms(2) by (auto simp: hd_append last_ConsR split: if_splits)
  have nx: "lnext ?h = (lnext h)(new := ?b, ?a := new)"
    and pv: "lprev ?h = (lprev h)(new := ?a, ?b := new)"
    by (simp_all add: list_add_between_def Let_def)
  have "linked ?h (head # xs) = linked h (head # xs)"
    by (rule linked_cong) (use assms(2) d nb nx pv in \<open>auto dest: in_set_butlastD\<close>)
  moreover have "linked ?h (ys @ [head]) = linked h (ys @ [head])"
    by (rule linked_cong)
       (use assms(2) d nb nx pv in \<open>auto simp: butlast_append dest: list.set_sel(2) in_set_tlD\<close>)
  ultimately show ?thesis
    using assms d ab nx pv dlist_append [of ?h head xs "new # ys"]
      linked_append [of "[new]" "ys @ [head]" ?h] by auto
qed

lemma list_add_dlist [intro]:
  assumes "dlist h head xs" "new \<notin> set (head # xs)" "new \<noteq> NULL"
  shows "dlist (list_add new head h) head (new # xs)"
  using dlist_add_between [of h head "[]" xs new] assms dlist_append [of h head "[]" xs]
  by (simp add: list_add_def)

lemma list_add_tail_dlist [intro]:
  assumes "dlist h head xs" "new \<notin> set (head # xs)" "new \<noteq> NULL"
  shows "dlist (list_add_tail new head h) head (xs @ [new])"
  using dlist_add_between [of h head xs "[]" new] assms dlist_append [of h head xs "[]"]
  by (simp add: list_add_tail_def)

text \<open>\<open>block_insert\<close> and \<open>merge_free\<close> insert before the node their cursor stopped at.\<close>

lemma list_insert_before_dlist [intro]:
  assumes "dlist h head (xs @ p # ys)" "new \<notin> set (head # xs @ p # ys)" "new \<noteq> NULL"
  shows "dlist (list_add_between new (lprev h p) p h) head (xs @ new # p # ys)"
  using dlist_add_between [of h head xs "p # ys" new] assms dlist_append [of h head xs "p # ys"]
  by simp

lemma list_del_dlist [intro]:
  assumes "dlist h head (xs @ e # ys)"
  shows "dlist (list_del e h) head (xs @ ys)"
proof -
  let ?a = "before head xs" and ?b = "after head ys"
  let ?h = "list_del e h"
  note d = assms [unfolded dlist_append]
  have d': "linked h (ys @ [head])" "lnext h e = ?b" "lprev h e = ?a" "lprev h ?b = e"
    using d linked_append [of "[e]" "ys @ [head]" h] by auto
  have dist: "distinct (head # xs @ ys)" using d by auto
  note nb = dlist_neighbours [OF dist]
  have ab: "?a \<noteq> NULL" "?b \<noteq> NULL" "?a \<noteq> e" "?b \<noteq> e"
    using d by (auto simp: hd_append last_ConsR split: if_splits dest: last_in_set list.set_sel(1))
  have nx: "lnext ?h = (lnext h)(?a := ?b, e := NULL)"
    and pv: "lprev ?h = (lprev h)(?b := ?a, e := NULL)"
    using d' ab by (simp_all add: list_del_def list_del_entry_def list_del_between_def)
  have "linked ?h (head # xs) = linked h (head # xs)"
    by (rule linked_cong) (use d nb nx pv in \<open>auto dest: in_set_butlastD\<close>)
  moreover have "linked ?h (ys @ [head]) = linked h (ys @ [head])"
    by (rule linked_cong)
       (use d nb nx pv in \<open>auto simp: butlast_append dest: in_set_tlD\<close>)
  ultimately show ?thesis
    using d d' dist ab nx pv dlist_append [of ?h head xs ys] by auto
qed

lemma list_del_unlinked: "lnext (list_del e h) e = NULL \<and> lprev (list_del e h) e = NULL"
  by (simp add: list_del_def)

text \<open>Operations on one ring leave every ring with other nodes alone.\<close>

lemma dlist_cong:
  assumes "\<And>a. a \<in> set (head # xs) \<Longrightarrow> lnext h a = lnext h' a \<and> lprev h a = lprev h' a"
  shows "dlist h head xs = dlist h' head xs"
proof -
  have "linked h (head # xs @ [head]) = linked h' (head # xs @ [head])"
    by (rule linked_cong) (use assms in \<open>auto simp: butlast_append\<close>)
  then show ?thesis by (simp add: dlist_def)
qed

lemma list_del_frame:
  assumes "dlist h head (xs @ e # ys)" "dlist h head' zs"
    "set (head' # zs) \<inter> set (head # xs @ e # ys) = {}"
  shows "dlist (list_del e h) head' zs"
proof -
  have "lprev h e = before head xs" "lnext h e = after head ys"
    using assms(1) dlist_append [of h head xs "e # ys"] linked_append [of "[e]" "ys @ [head]" h]
    by auto
  moreover have "before head xs \<in> set (head # xs)" "after head ys \<in> set (ys @ [head])"
    by (simp, rule hd_in_set, simp)
  ultimately have "lprev h e \<in> set (head # xs @ e # ys)" "lnext h e \<in> set (head # xs @ e # ys)"
    by auto
  with assms(3) have "dlist h head' zs = dlist (list_del e h) head' zs"
    by (intro dlist_cong)
       (auto simp: list_del_def list_del_entry_def list_del_between_def)
  with assms(2) show ?thesis by simp
qed

section \<open>Traversal\<close>

lemma list_for_each_from_linked:
  "linked h (pos # xs @ [head]) \<Longrightarrow> head \<notin> set (pos # xs) \<Longrightarrow>
   list_for_each_from h head pos = Some (pos # xs)"
proof (induction xs arbitrary: pos)
  case Nil
  then show ?case by (simp add: list_for_each_from.simps)
next
  case (Cons x xs)
  then show ?case by (subst list_for_each_from.simps) auto
qed

lemma list_for_each_dlist: "dlist h head xs \<Longrightarrow> list_for_each h head = Some xs"
proof (cases xs)
  case Nil
  then show "dlist h head xs \<Longrightarrow> ?thesis"
    by (simp add: list_for_each_def dlist_Nil_iff list_for_each_from.simps)
next
  case (Cons x ys)
  then show "dlist h head xs \<Longrightarrow> ?thesis"
    by (auto simp: list_for_each_def dlist_def intro: list_for_each_from_linked)
qed

section \<open>The interface the clients rely on\<close>

locale intrusive_list =
  fixes rep :: "'h \<Rightarrow> 'p \<Rightarrow> 'p list \<Rightarrow> bool"
    and null :: 'p
    and init :: "'p \<Rightarrow> 'h \<Rightarrow> 'h"
    and add :: "'p \<Rightarrow> 'p \<Rightarrow> 'h \<Rightarrow> 'h"
    and add_tail :: "'p \<Rightarrow> 'p \<Rightarrow> 'h \<Rightarrow> 'h"
    and del :: "'p \<Rightarrow> 'h \<Rightarrow> 'h"
    and is_null :: "'p \<Rightarrow> 'h \<Rightarrow> bool"
    and first :: "'h \<Rightarrow> 'p \<Rightarrow> 'p"
    and for_each :: "'h \<Rightarrow> 'p \<Rightarrow> 'p list option"
  assumes rep_init: "head \<noteq> null \<Longrightarrow> rep (init head h) head []"
    and rep_add: "rep h head xs \<Longrightarrow> p \<notin> set (head # xs) \<Longrightarrow> p \<noteq> null \<Longrightarrow>
          rep (add p head h) head (p # xs)"
    and rep_add_tail: "rep h head xs \<Longrightarrow> p \<notin> set (head # xs) \<Longrightarrow> p \<noteq> null \<Longrightarrow>
          rep (add_tail p head h) head (xs @ [p])"
    and rep_del: "rep h head (xs @ p # ys) \<Longrightarrow> rep (del p h) head (xs @ ys)"
    and rep_is_null: "rep h head xs \<Longrightarrow> is_null head h \<longleftrightarrow> xs = []"
    and rep_first: "rep h head (p # xs) \<Longrightarrow> first h head = p"
    and rep_for_each: "rep h head xs \<Longrightarrow> for_each h head = Some xs"
    and rep_distinct: "rep h head xs \<Longrightarrow> distinct (head # xs) \<and> null \<notin> set (head # xs)"
begin

lemma rep_del_remove1: "rep h head xs \<Longrightarrow> p \<in> set xs \<Longrightarrow> rep (del p h) head (remove1 p xs)"
proof -
  assume r: "rep h head xs" and "p \<in> set xs"
  then obtain ys zs where xs: "xs = ys @ p # zs" by (meson split_list)
  then have "remove1 p xs = ys @ zs" using rep_distinct [OF r] by (auto simp: remove1_append)
  with r xs show ?thesis by (auto intro: rep_del)
qed

text \<open>Deleting a node and putting it at the tail (what \<open>schedule\<close> does) rotates the list.\<close>

lemma rep_move_to_tail:
  assumes "rep h head xs" "p \<in> set xs"
  shows "rep (add_tail p head (del p h)) head (remove1 p xs @ [p])"
proof (rule rep_add_tail)
  show "rep (del p h) head (remove1 p xs)" using assms by (rule rep_del_remove1)
  show "p \<notin> set (head # remove1 p xs)" "p \<noteq> null"
    using rep_distinct [OF assms(1)] assms(2) by (auto simp: set_remove1_eq)
qed

text \<open>Adding at the tail and taking the first entry is first in, first out.\<close>

lemma rep_dequeue:
  assumes "rep h head (p # xs)"
  shows "\<not> is_null head h \<and> first h head = p \<and> rep (del (first h head) h) head xs"
  using assms rep_del [of h head "[]" p xs] by (simp add: rep_is_null rep_first)

end

interpretation ring: intrusive_list dlist NULL list_head_init list_add list_add_tail list_del
  list_is_null list_first_entry list_for_each
proof unfold_locales
  show "dlist h head (p # xs) \<Longrightarrow> list_first_entry h head = p" for h head p xs
    by (simp add: list_first_entry_def dlist_first)
  show "dlist h head xs \<Longrightarrow> distinct (head # xs) \<and> NULL \<notin> set (head # xs)" for h head xs
    by (simp add: dlist_def)
qed (rule list_head_init_dlist list_add_dlist list_add_tail_dlist list_del_dlist list_is_null_iff
       list_for_each_dlist; assumption?; simp)+

section \<open>Sequences of operations refine operations on HOL lists\<close>

datatype list_op = OpAdd ptr | OpAddTail ptr | OpDel ptr

fun run_ring :: "list_op list \<Rightarrow> ptr \<Rightarrow> list_heap \<Rightarrow> list_heap" where
  "run_ring [] head h = h"
| "run_ring (OpAdd p # ops) head h = run_ring ops head (list_add p head h)"
| "run_ring (OpAddTail p # ops) head h = run_ring ops head (list_add_tail p head h)"
| "run_ring (OpDel p # ops) head h = run_ring ops head (list_del p h)"

fun run_list :: "list_op list \<Rightarrow> ptr list \<Rightarrow> ptr list" where
  "run_list [] xs = xs"
| "run_list (OpAdd p # ops) xs = run_list ops (p # xs)"
| "run_list (OpAddTail p # ops) xs = run_list ops (xs @ [p])"
| "run_list (OpDel p # ops) xs = run_list ops (remove1 p xs)"

text \<open>A node is added only while it is on no list, and deleted only while it is on this one.\<close>

fun ops_ok :: "list_op list \<Rightarrow> ptr \<Rightarrow> ptr list \<Rightarrow> bool" where
  "ops_ok [] head xs \<longleftrightarrow> True"
| "ops_ok (OpAdd p # ops) head xs \<longleftrightarrow>
     p \<noteq> NULL \<and> p \<notin> set (head # xs) \<and> ops_ok ops head (p # xs)"
| "ops_ok (OpAddTail p # ops) head xs \<longleftrightarrow>
     p \<noteq> NULL \<and> p \<notin> set (head # xs) \<and> ops_ok ops head (xs @ [p])"
| "ops_ok (OpDel p # ops) head xs \<longleftrightarrow> p \<in> set xs \<and> ops_ok ops head (remove1 p xs)"

lemma run_ring_dlist:
  "dlist h head xs \<Longrightarrow> ops_ok ops head xs \<Longrightarrow> dlist (run_ring ops head h) head (run_list ops xs)"
  by (induction ops head h arbitrary: xs rule: run_ring.induct)
     (simp_all add: ring.rep_add ring.rep_add_tail ring.rep_del_remove1)

text \<open>
  C9.  Any sequence of \<open>list_add\<close>, \<open>list_add_tail\<close> and \<open>list_del\<close> on a freshly
  initialised head, each adding a node that is on no list or deleting one that is on this list,
  leaves a well-linked ring whose traversal by \<open>list_for_each\<close> ends and visits exactly the nodes
  that the same operations on a HOL list leave, in the same order.
\<close>

theorem list_ops_refine:
  assumes "head \<noteq> NULL" and "ops_ok ops head []"
  shows "list_for_each (run_ring ops head (list_head_init head h)) head = Some (run_list ops [])
    \<and> (list_is_null head (run_ring ops head (list_head_init head h)) \<longleftrightarrow> run_list ops [] = [])"
proof -
  have "dlist (run_ring ops head (list_head_init head h)) head (run_list ops [])"
    using assms by (auto intro: run_ring_dlist)
  then show ?thesis by (simp add: ring.rep_for_each ring.rep_is_null)
qed

theorem list_ops_refine_witness:
  "list_for_each (run_ring [OpAddTail 16, OpAdd 24, OpAddTail 32, OpDel 16] 8
       (list_head_init 8 \<lparr>lprev = \<lambda>_. 0, lnext = \<lambda>_. 0\<rparr>)) 8 = Some [24, 32]"
proof -
  have ok: "ops_ok [OpAddTail 16, OpAdd 24, OpAddTail 32, OpDel 16] 8 []" by simp
  show ?thesis
    using list_ops_refine [OF _ ok, of "\<lparr>lprev = \<lambda>_. 0, lnext = \<lambda>_. 0\<rparr>"] by simp
qed

end
