(* ===== verification/Buddy.thy ===== *)
theory Buddy
  imports CList
begin

text \<open>
  The buddy page allocator of \<open>src/src/mm/buddy.c\<close>.  A page descriptor is named by its index in
  \<open>mem_map\<close>, so pointer arithmetic on \<open>struct page *\<close> is arithmetic on indices and a comparison
  of pointers is one of indices.  The rings \<open>buddy.block[i]\<close> and \<open>buddy.activate\<close> are the lists
  of the indices on them (see \<open>CList\<close>).  The allocator's lock is taken and released inside each
  operation, so an operation is one step.  The invariant \<open>buddy_inv\<close> says that every free list is
  ascending, that its blocks are aligned and disjoint, and that no two mergeable buddies are free;
  the lemmas show what each operation does to the set of free pages and that the free lists are
  determined by that set.
\<close>

section \<open>Data\<close>

definition MAX_ORDER :: nat where "MAX_ORDER = 8"

definition PF_RESERVE :: u64 where "PF_RESERVE = push_bit 0 1"

definition PF_BUSY :: u64 where "PF_BUSY = push_bit 1 1"

definition GFP_KERNEL :: u32 where "GFP_KERNEL = push_bit 0 1"

definition GFP_USER :: u32 where "GFP_USER = push_bit 1 1"

record page =
  flags :: u64
  page_count :: u32
  slab :: u64
  virtual :: u64

record buddy_struct =
  block :: "nat \<Rightarrow> nat list"
  activate :: "nat list"

record mm_state =
  mem_map :: "nat \<Rightarrow> page"
  buddy :: buddy_struct

section \<open>Operations\<close>

fun check_order_from :: "nat \<Rightarrow> u32 \<Rightarrow> nat" where
  "check_order_from i offset =
     (if offset AND (push_bit i 1 - 1) = 0 then i
      else case i of 0 \<Rightarrow> 0 | Suc j \<Rightarrow> check_order_from j offset)"

declare check_order_from.simps [simp del]

definition check_order :: "nat \<Rightarrow> nat" where
  "check_order page = check_order_from (MAX_ORDER - 1) (of_nat page)"

text \<open>
  The walk of \<open>block_insert\<close> over one free list.  Either it meets a buddy, which it unlinks (the
  result is the start of the merged block), or it stops in front of the first larger entry, or at
  the head of the ring, where \<open>__list_add\<close> puts the page.
\<close>

fun block_scan :: "nat \<Rightarrow> nat \<Rightarrow> nat list \<Rightarrow> nat list \<times> nat option" where
  "block_scan order page [] = ([page], None)"
| "block_scan order page (p # ps) =
     (if order < MAX_ORDER - 1 \<and> p + 2 ^ order = page \<and> check_order p \<ge> order + 1 then (ps, Some p)
      else if order < MAX_ORDER - 1 \<and> page + 2 ^ order = p \<and> check_order page \<ge> order + 1
      then (ps, Some page)
      else if p < page then (let (qs, merged) = block_scan order page ps in (p # qs, merged))
      else (page # p # ps, None))"

text \<open>
  With \<open>order \<ge> MAX_ORDER\<close> the loop body never runs and the C code dereferences an uninitialised
  cursor: the result is \<open>None\<close>.
\<close>

function block_insert :: "nat \<Rightarrow> nat \<Rightarrow> buddy_struct \<Rightarrow> buddy_struct option" where
  "block_insert page order b =
     (if order \<ge> MAX_ORDER then None
      else case block_scan order page (block b order) of
        (ps, None) \<Rightarrow> Some (b\<lparr>block := (block b)(order := ps)\<rparr>)
      | (ps, Some page') \<Rightarrow> block_insert page' (order + 1) (b\<lparr>block := (block b)(order := ps)\<rparr>))"
  by pat_completeness auto
termination by (relation "measure (\<lambda>(_, order, _). MAX_ORDER - order)") auto

declare block_insert.simps [simp del]

function find_block :: "nat \<Rightarrow> buddy_struct \<Rightarrow> nat option" where
  "find_block next b =
     (if next \<ge> MAX_ORDER then None
      else if block b next = [] then find_block (next + 1) b
      else Some next)"
  by pat_completeness auto
termination by (relation "measure (\<lambda>(next, _). MAX_ORDER - next)") auto

declare find_block.simps [simp del]

fun split_block :: "nat \<Rightarrow> nat \<Rightarrow> nat \<Rightarrow> buddy_struct \<Rightarrow> buddy_struct option" where
  "split_block page order 0 b = Some b"
| "split_block page order (Suc next) b =
     (if Suc next > order
      then Option.bind (block_insert (page + 2 ^ next) next b) (split_block page order next)
      else Some b)"

text \<open>\<open>alloc_pages_raw\<close> is \<open>__alloc_pages\<close>; the page it returns is \<open>None\<close> for \<open>NULL\<close>.\<close>

definition alloc_pages_raw :: "nat \<Rightarrow> buddy_struct \<Rightarrow> (nat option \<times> buddy_struct) option" where
  "alloc_pages_raw order b =
     (if order \<ge> MAX_ORDER then Some (None, b)
      else if block b order = [] then
        (case find_block (order + 1) b of
           None \<Rightarrow> Some (None, b)
         | Some next \<Rightarrow>
             (let page = hd (block b next);
                  b = b\<lparr>block := (block b)(next := tl (block b next))\<rparr>
              in Option.bind (split_block page order next b)
                   (\<lambda>b. Some (Some page, b\<lparr>activate := page # activate b\<rparr>))))
      else
        (let page = hd (block b order);
             b = b\<lparr>block := (block b)(order := tl (block b order))\<rparr>
         in Some (Some page, b\<lparr>activate := page # activate b\<rparr>)))"

definition mark_busy :: "nat option \<Rightarrow> mm_state \<Rightarrow> mm_state" where
  "mark_busy ret m =
     (case ret of
        None \<Rightarrow> m
      | Some p \<Rightarrow>
          m\<lparr>mem_map := (mem_map m)(p := (mem_map m p)\<lparr>flags := flags (mem_map m p) OR PF_BUSY\<rparr>)\<rparr>)"

definition alloc_pages :: "u32 \<Rightarrow> nat \<Rightarrow> mm_state \<Rightarrow> (nat option \<times> mm_state) option" where
  "alloc_pages gfp_mask order m =
     (if gfp_mask = GFP_USER \<or> gfp_mask = GFP_KERNEL then
        Option.bind (alloc_pages_raw order (buddy m))
          (\<lambda>(ret, b). Some (ret, mark_busy ret (m\<lparr>buddy := b\<rparr>)))
      else
        Option.bind (alloc_pages_raw order (buddy m))
          (\<lambda>(ret, b). Some (ret, mark_busy ret (m\<lparr>buddy := b\<rparr>))))"

definition alloc_page :: "u32 \<Rightarrow> mm_state \<Rightarrow> (nat option \<times> mm_state) option" where
  "alloc_page gfp_mask m = alloc_pages gfp_mask 0 m"

definition get_free_pages :: "u32 \<Rightarrow> nat \<Rightarrow> mm_state \<Rightarrow> (u64 \<times> mm_state) option" where
  "get_free_pages gfp_mask order m =
     Option.bind (alloc_pages gfp_mask order m)
       (\<lambda>(ret, m). Some (case ret of None \<Rightarrow> (0, m) | Some p \<Rightarrow> (virtual (mem_map m p), m)))"

definition get_free_page :: "u32 \<Rightarrow> mm_state \<Rightarrow> (u64 \<times> mm_state) option" where
  "get_free_page gfp_mask m =
     Option.bind (alloc_page gfp_mask m)
       (\<lambda>(ret, m). Some (case ret of None \<Rightarrow> (0, m) | Some p \<Rightarrow> (virtual (mem_map m p), m)))"

definition free_pages_raw :: "nat \<Rightarrow> nat \<Rightarrow> buddy_struct \<Rightarrow> buddy_struct option" where
  "free_pages_raw page order b = block_insert page order b"

fun find_active :: "(nat \<Rightarrow> page) \<Rightarrow> u64 \<Rightarrow> nat list \<Rightarrow> nat option" where
  "find_active mm addr [] = None"
| "find_active mm addr (pos # ps) =
     (if virtual (mm pos) = addr then Some pos else find_active mm addr ps)"

definition free_pages :: "u64 \<Rightarrow> nat \<Rightarrow> mm_state \<Rightarrow> mm_state option" where
  "free_pages addr order m =
     (if addr = 0 then Some m
      else let addr = PAGE_LOWER_ALIGN addr in
        case find_active (mem_map m) addr (activate (buddy m)) of
          None \<Rightarrow> Some m
        | Some page \<Rightarrow>
            Option.bind
              (free_pages_raw page order
                 ((buddy m)\<lparr>activate := remove1 page (activate (buddy m))\<rparr>))
              (\<lambda>b. Some (m\<lparr>buddy := b\<rparr>)))"

definition free_page :: "u64 \<Rightarrow> mm_state \<Rightarrow> mm_state option" where
  "free_page addr m = free_pages addr 0 m"

section \<open>Alignment\<close>

lemma MAX_ORDER_simps [simp]: "MAX_ORDER = 8" "MAX_ORDER - Suc 0 = 7"
  by (simp_all add: MAX_ORDER_def)

lemma offset_aligned_iff:
  assumes "i \<le> 7"
  shows "(of_nat page :: u32) AND (push_bit i 1 - 1) = 0 \<longleftrightarrow> 2 ^ i dvd page"
proof -
  have "(of_nat page :: u32) AND (push_bit i 1 - 1) = of_nat (take_bit i page)"
    by (simp add: push_bit_eq_mult flip: mask_eq_exp_minus_1 take_bit_eq_mask take_bit_of_nat)
  moreover have "take_bit i page < 2 ^ 32"
    by (rule less_le_trans [OF take_bit_nat_less_exp power_increasing]) (use assms in simp_all)
  ultimately show ?thesis
    by (simp add: word_unat_eq_iff unat_of_nat take_bit_eq_mod dvd_eq_mod_eq_0)
qed

lemma check_order_from_ge:
  "i \<le> 7 \<Longrightarrow> k \<le> i \<Longrightarrow> k \<le> check_order_from i (of_nat page) \<longleftrightarrow> 2 ^ k dvd page"
proof (induction i)
  case 0
  then show ?case by simp
next
  case (Suc i)
  show ?case
  proof (cases "2 ^ Suc i dvd page")
    case True
    then have "2 ^ k dvd page" using Suc.prems power_le_dvd by blast
    then show ?thesis
      using True Suc.prems offset_aligned_iff [of "Suc i" page]
      by (subst check_order_from.simps) simp
  next
    case False
    have "check_order_from i w \<le> i" for w
      by (induction i) (subst check_order_from.simps; simp add: le_SucI)+
    then have "\<not> Suc i \<le> check_order_from i (of_nat page)" by (simp add: not_less_eq_eq)
    then show ?thesis
      using False Suc offset_aligned_iff [of "Suc i" page]
      by (subst check_order_from.simps) (auto simp: le_Suc_eq)
  qed
qed

lemma check_order_ge_iff [simp]: "k \<le> 7 \<Longrightarrow> k \<le> check_order page \<longleftrightarrow> 2 ^ k dvd page"
  by (simp add: check_order_def check_order_from_ge)

lemma check_order_le: "check_order page \<le> 7"
proof -
  have "check_order_from i w \<le> i" for i w
    by (induction i) (subst check_order_from.simps; simp add: le_SucI)+
  then show ?thesis by (simp add: check_order_def)
qed

lemma check_order_dvd [simp, intro]: "2 ^ check_order page dvd page"
  by (metis check_order_ge_iff check_order_le order_refl)

section \<open>Dyadic blocks\<close>

definition span :: "nat \<Rightarrow> nat \<Rightarrow> nat set" where
  "span p k = {p ..< p + 2 ^ k}"

lemma span_0 [simp]: "span p 0 = {p}"
  by (auto simp: span_def)

lemma span_mem [simp, intro]: "p \<in> span p k"
  by (simp add: span_def)

lemma span_nonempty [simp]: "span p k \<noteq> {}"
  using span_mem by blast

lemma span_Suc [dyadic]: "span p (Suc k) = span p k \<union> span (p + 2 ^ k) k"
  by (auto simp: span_def)

lemma span_halves_disjoint [dyadic]: "span p k \<inter> span (p + 2 ^ k) k = {}"
  by (auto simp: span_def)

text \<open>An aligned block that meets an aligned block of at least its size lies inside it.\<close>

lemma span_nested:
  assumes "2 ^ k dvd p" "2 ^ l dvd q" "k \<le> l" "span p k \<inter> span q l \<noteq> {}"
  shows "span p k \<subseteq> span q l"
proof -
  obtain x where x: "x \<in> span p k" "x \<in> span q l" using assms(4) by blast
  have "(2::nat) ^ k dvd 2 ^ l" using assms(3) by (rule le_imp_power_dvd)
  then obtain c where l: "(2::nat) ^ l = 2 ^ k * c" by (rule dvdE)
  obtain a where a: "p = 2 ^ k * a" using assms(1) by (rule dvdE)
  obtain b where b: "q = 2 ^ k * b"
    using assms(2) \<open>2 ^ k dvd 2 ^ l\<close> dvd_trans by (metis dvdE)
  have "2 ^ k * a < 2 ^ k * (b + c)" "2 ^ k * b < 2 ^ k * (a + 1)"
    using x unfolding span_def a b l by (auto simp: algebra_simps)
  then have "a < b + c" "b < a + 1" by (simp_all only: mult_less_cancel1)
  then have "b \<le> a" "a + 1 \<le> b + c" by simp_all
  then have "2 ^ k * b \<le> 2 ^ k * a" "2 ^ k * (a + 1) \<le> 2 ^ k * (b + c)"
    by (simp_all only: mult_le_mono2)
  then show ?thesis unfolding span_def a b l by (auto simp: algebra_simps)
qed

lemma span_same_order:
  assumes "2 ^ k dvd p" "2 ^ k dvd q" "span p k \<inter> span q k \<noteq> {}"
  shows "p = q"
  using span_nested [OF assms(1,2) order_refl assms(3)]
    span_nested [OF assms(2,1) order_refl] assms(3)
  by (auto simp: span_def Int_commute)

lemma span_subset_eq: "span p k \<subseteq> span q k \<Longrightarrow> p = q"
  by (simp add: span_def)

lemma aligned_less_le: "2 ^ k dvd p \<Longrightarrow> 2 ^ k dvd q \<Longrightarrow> p < q \<Longrightarrow> p + 2 ^ k \<le> (q::nat)"
proof (elim dvdE)
  fix a b assume "p = 2 ^ k * a" "q = 2 ^ k * b" "p < q"
  then have "a + 1 \<le> b" by simp
  then have "2 ^ k * (a + 1) \<le> 2 ^ k * b" by (rule mult_le_mono2)
  then show ?thesis by (simp add: \<open>p = _\<close> \<open>q = _\<close>)
qed

section \<open>The invariant\<close>

definition buddies :: "nat \<Rightarrow> nat \<Rightarrow> nat \<Rightarrow> bool" where
  "buddies k p q \<longleftrightarrow> p + 2 ^ k = q \<and> 2 ^ Suc k dvd p"

definition blocks :: "buddy_struct \<Rightarrow> (nat \<times> nat) set" where
  "blocks b = {(k, p). k < MAX_ORDER \<and> p \<in> set (block b k)}"

definition cover :: "(nat \<times> nat) set \<Rightarrow> nat set" where
  "cover B = (\<Union>(k, p) \<in> B. span p k)"

definition wf_blocks :: "(nat \<times> nat) set \<Rightarrow> bool" where
  "wf_blocks B \<longleftrightarrow>
     (\<forall>(k, p) \<in> B. k < MAX_ORDER \<and> 2 ^ k dvd p) \<and>
     (\<forall>(k, p) \<in> B. \<forall>(l, q) \<in> B. (k, p) \<noteq> (l, q) \<longrightarrow> span p k \<inter> span q l = {}) \<and>
     (\<forall>(k, p) \<in> B. \<forall>(l, q) \<in> B. k = l \<and> k < MAX_ORDER - 1 \<longrightarrow> \<not> buddies k p q)"

definition buddy_inv :: "buddy_struct \<Rightarrow> bool" where
  "buddy_inv b \<longleftrightarrow> (\<forall>k < MAX_ORDER. sorted_wrt (<) (block b k)) \<and> wf_blocks (blocks b)"

definition free_set :: "buddy_struct \<Rightarrow> nat set" where
  "free_set b = cover (blocks b)"

lemma activate_update [simp]:
  "blocks (b\<lparr>activate := xs\<rparr>) = blocks b" "free_set (b\<lparr>activate := xs\<rparr>) = free_set b"
  "buddy_inv (b\<lparr>activate := xs\<rparr>) = buddy_inv b"
  by (simp_all add: blocks_def free_set_def buddy_inv_def)

lemma cover_simps [simp]:
  "cover {} = {}" "cover (insert (k, p) B) = span p k \<union> cover B"
  "cover (A \<union> B) = cover A \<union> cover B"
  by (auto simp: cover_def)

lemma wf_blocksI:
  assumes "\<And>k p. (k, p) \<in> B \<Longrightarrow> k < 8 \<and> 2 ^ k dvd p"
    and "\<And>k p l q. (k, p) \<in> B \<Longrightarrow> (l, q) \<in> B \<Longrightarrow> (k, p) \<noteq> (l, q) \<Longrightarrow> span p k \<inter> span q l = {}"
    and "\<And>k p q. (k, p) \<in> B \<Longrightarrow> (k, q) \<in> B \<Longrightarrow> k < 7 \<Longrightarrow> \<not> buddies k p q"
  shows "wf_blocks B"
  using assms by (simp add: wf_blocks_def Ball_def split_paired_All)

lemma wf_blocksD:
  assumes "wf_blocks B"
  shows "(k, p) \<in> B \<Longrightarrow> k < 8" "(k, p) \<in> B \<Longrightarrow> 2 ^ k dvd p"
    "(k, p) \<in> B \<Longrightarrow> (l, q) \<in> B \<Longrightarrow> (k, p) \<noteq> (l, q) \<Longrightarrow> span p k \<inter> span q l = {}"
    "(k, p) \<in> B \<Longrightarrow> (k, q) \<in> B \<Longrightarrow> k < 7 \<Longrightarrow> \<not> buddies k p q"
  using assms unfolding wf_blocks_def by (auto 4 3)

lemma wf_blocks_subset: "wf_blocks B \<Longrightarrow> A \<subseteq> B \<Longrightarrow> wf_blocks A"
  by (rule wf_blocksI) (blast dest: wf_blocksD)+

lemma cover_Diff:
  assumes "wf_blocks B" "(k, p) \<in> B"
  shows "cover (B - {(k, p)}) = cover B - span p k"
  using wf_blocksD(3) [OF assms(1) _ assms(2)] assms(2) by (fastforce simp: cover_def)

lemma wf_blocks_insert:
  assumes "wf_blocks B" "k < 8" "2 ^ k dvd p" "span p k \<inter> cover B = {}"
    and "\<And>q. (k, q) \<in> B \<Longrightarrow> k < 7 \<Longrightarrow> \<not> buddies k p q \<and> \<not> buddies k q p"
  shows "wf_blocks (insert (k, p) B)"
proof (rule wf_blocksI)
  have disj: "span p k \<inter> span q l = {}" if "(l, q) \<in> B" for l q
    using that assms(4) by (auto simp: cover_def)
  show "span p' k' \<inter> span q l = {}"
    if "(k', p') \<in> insert (k, p) B" "(l, q) \<in> insert (k, p) B" "(k', p') \<noteq> (l, q)" for k' p' l q
    using that disj wf_blocksD(3) [OF assms(1)] by blast
  have "\<not> buddies k p p" by (simp add: buddies_def)
  then show "\<not> buddies k' p' q"
    if "(k', p') \<in> insert (k, p) B" "(k', q) \<in> insert (k, p) B" "k' < 7" for k' p' q
    using that assms(5) wf_blocksD(4) [OF assms(1)] by blast
qed (use assms wf_blocksD(1,2) [OF assms(1)] in auto)

section \<open>Inserting a block\<close>

lemma block_scan_Cons:
  "block_scan k page (p # ps) =
     (if k < 7 \<and> buddies k p page then (ps, Some p)
      else if k < 7 \<and> buddies k page p then (ps, Some page)
      else if p < page then (p # fst (block_scan k page ps), snd (block_scan k page ps))
      else (page # p # ps, None))"
  by (cases "k < 7") (simp_all add: buddies_def split_beta del: power_Suc)

declare block_scan.simps(2) [simp del]

lemma block_scan_None:
  assumes "block_scan k page ps = (qs, None)" "k \<le> 7" "sorted_wrt (<) ps" "page \<notin> set ps"
    "2 ^ k dvd page" "\<forall>p \<in> set ps. 2 ^ k dvd p"
  shows "sorted_wrt (<) qs \<and> set qs = insert page (set ps) \<and>
    (\<forall>p \<in> set ps. k < 7 \<longrightarrow> \<not> buddies k page p \<and> \<not> buddies k p page)"
  using assms
proof (induction ps arbitrary: qs)
  case (Cons p ps)
  note nomerge = Cons.prems(1)
  show ?case
  proof (cases "p < page")
    case True
    then have qs: "qs = p # fst (block_scan k page ps)"
      and rec: "block_scan k page ps = (fst (block_scan k page ps), None)"
      and "k < 7 \<longrightarrow> \<not> buddies k p page"
      using nomerge by (auto simp: block_scan_Cons split: if_splits intro: prod_eqI)
    moreover have "k < 7 \<longrightarrow> \<not> buddies k page p" using True by (auto simp: buddies_def)
    ultimately show ?thesis using Cons.IH [OF rec] Cons.prems True unfolding qs by auto
  next
    case False
    then have "page < p" using Cons.prems(4) by auto
    then have le: "page + 2 ^ k \<le> p" using aligned_less_le Cons.prems by simp
    then have "qs = page # p # ps" "k < 7 \<longrightarrow> \<not> buddies k page p"
      using nomerge False by (auto simp: block_scan_Cons split: if_splits)
    moreover have "\<not> buddies k page r" if "r \<in> set ps" for r
      using that Cons.prems(3) le by (auto simp: buddies_def)
    moreover have "\<not> buddies k r page" if "r \<in> set (p # ps)" for r
      using that Cons.prems(3) \<open>page < p\<close> by (auto simp: buddies_def)
    ultimately show ?thesis using Cons.prems(3) \<open>page < p\<close> by auto
  qed
qed auto

lemma block_scan_Some:
  assumes "block_scan k page ps = (qs, Some page')" "sorted_wrt (<) ps"
  shows "k < 7 \<and> sorted_wrt (<) qs \<and>
    (\<exists>p \<in> set ps. set qs = set ps - {p} \<and>
       (buddies k p page \<and> page' = p \<or> buddies k page p \<and> page' = page))"
  using assms
proof (induction ps arbitrary: qs)
  case (Cons p ps)
  have notin: "p \<notin> set ps" using Cons.prems(2) by auto
  show ?case
  proof (cases "k < 7 \<and> (buddies k p page \<or> buddies k page p)")
    case True
    then show ?thesis
      using Cons.prems notin by (auto simp: block_scan_Cons split: if_splits)
  next
    case False
    then have "p < page" and qs: "qs = p # fst (block_scan k page ps)"
      and rec: "block_scan k page ps = (fst (block_scan k page ps), Some page')"
      using Cons.prems(1) by (auto simp: block_scan_Cons split: if_splits intro: prod_eqI)
    obtain r where r: "k < 7" "r \<in> set ps" "set (fst (block_scan k page ps)) = set ps - {r}"
      "sorted_wrt (<) (fst (block_scan k page ps))"
      "buddies k r page \<and> page' = r \<or> buddies k page r \<and> page' = page"
      using Cons.IH [OF rec] Cons.prems(2) by auto
    then have "set qs = set (p # ps) - {r}" "sorted_wrt (<) qs"
      using Cons.prems(2) notin unfolding qs by auto
    with r show ?thesis by (intro conjI bexI [of _ r]) simp_all
  qed
qed simp

lemma blocks_eqI: "(\<And>l q. l < 8 \<Longrightarrow> q \<in> set (block b l) \<longleftrightarrow> (l, q) \<in> B) \<Longrightarrow>
    (\<And>l q. (l, q) \<in> B \<Longrightarrow> l < 8) \<Longrightarrow> blocks b = B"
  by (auto simp: blocks_def)

lemma blocks_update_insert:
  assumes "k < 8" "set qs = insert p (set (block b k))"
  shows "blocks (b\<lparr>block := (block b)(k := qs)\<rparr>) = insert (k, p) (blocks b)"
proof (rule blocks_eqI)
  fix l q assume "l < (8::nat)"
  then show "q \<in> set (block (b\<lparr>block := (block b)(k := qs)\<rparr>) l) \<longleftrightarrow> (l, q) \<in> insert (k, p) (blocks b)"
    using assms by (cases "l = k") (simp_all add: blocks_def)
qed (use assms(1) in \<open>auto simp: blocks_def\<close>)

lemma blocks_update_remove:
  assumes "k < 8" "set qs = set (block b k) - {p}"
  shows "blocks (b\<lparr>block := (block b)(k := qs)\<rparr>) = blocks b - {(k, p)}"
proof (rule blocks_eqI)
  fix l q assume "l < (8::nat)"
  then show "q \<in> set (block (b\<lparr>block := (block b)(k := qs)\<rparr>) l) \<longleftrightarrow> (l, q) \<in> blocks b - {(k, p)}"
    using assms by (cases "l = k") (simp_all add: blocks_def)
qed (simp add: blocks_def)

lemma buddies_span: "buddies k p q \<Longrightarrow> span p (Suc k) = span p k \<union> span q k"
  by (simp add: buddies_def span_Suc)

lemma buddy_inv_remove:
  assumes "buddy_inv b" "k < 8" "p \<in> set (block b k)" "sorted_wrt (<) qs" "set qs = set (block b k) - {p}"
  shows "buddy_inv (b\<lparr>block := (block b)(k := qs)\<rparr>)"
    and "free_set (b\<lparr>block := (block b)(k := qs)\<rparr>) = free_set b - span p k"
proof -
  have wf: "wf_blocks (blocks b)" using assms(1) by (simp add: buddy_inv_def)
  have eq: "blocks (b\<lparr>block := (block b)(k := qs)\<rparr>) = blocks b - {(k, p)}"
    using assms(2,5) by (rule blocks_update_remove)
  have "wf_blocks (blocks b - {(k, p)})" using wf by (rule wf_blocks_subset) blast
  then show "buddy_inv (b\<lparr>block := (block b)(k := qs)\<rparr>)"
    unfolding buddy_inv_def eq using assms(1,4) by (simp add: buddy_inv_def)
  show "free_set (b\<lparr>block := (block b)(k := qs)\<rparr>) = free_set b - span p k"
    unfolding free_set_def eq using assms(2,3) by (intro cover_Diff [OF wf]) (simp add: blocks_def)
qed

lemma buddy_inv_insert:
  assumes "buddy_inv b" "k < 8" "2 ^ k dvd page" "span page k \<inter> free_set b = {}"
    and "sorted_wrt (<) qs" "set qs = insert page (set (block b k))"
    and "\<forall>p \<in> set (block b k). k < 7 \<longrightarrow> \<not> buddies k page p \<and> \<not> buddies k p page"
  shows "buddy_inv (b\<lparr>block := (block b)(k := qs)\<rparr>)"
    and "free_set (b\<lparr>block := (block b)(k := qs)\<rparr>) = free_set b \<union> span page k"
proof -
  have wf: "wf_blocks (blocks b)" using assms(1) by (simp add: buddy_inv_def)
  have eq: "blocks (b\<lparr>block := (block b)(k := qs)\<rparr>) = insert (k, page) (blocks b)"
    using assms(2,6) by (rule blocks_update_insert)
  have "wf_blocks (insert (k, page) (blocks b))"
    using wf assms(2,3) assms(4) [unfolded free_set_def]
    by (rule wf_blocks_insert) (use assms(7) in \<open>auto simp: blocks_def\<close>)
  then show "buddy_inv (b\<lparr>block := (block b)(k := qs)\<rparr>)"
    unfolding buddy_inv_def eq using assms(1,5) by (simp add: buddy_inv_def)
  show "free_set (b\<lparr>block := (block b)(k := qs)\<rparr>) = free_set b \<union> span page k"
    unfolding free_set_def eq by auto
qed

lemma free_list_facts:
  assumes "buddy_inv b" "k < 8"
  shows "sorted_wrt (<) (block b k)" "\<forall>p \<in> set (block b k). 2 ^ k dvd p \<and> span p k \<subseteq> free_set b"
  using assms wf_blocksD(2) [of "blocks b" k]
  by (auto simp: buddy_inv_def free_set_def cover_def blocks_def)

text \<open>
  Inserting a block that is aligned and not free ends with a well-formed allocator whose free
  pages are the old ones and the block, whatever merges happen on the way.
\<close>

lemma block_insert_spec:
  assumes "buddy_inv b" "k < 8" "2 ^ k dvd page" "span page k \<inter> free_set b = {}"
  shows "\<exists>b'. block_insert page k b = Some b' \<and> buddy_inv b' \<and>
    free_set b' = free_set b \<union> span page k \<and> activate b' = activate b"
  using assms
proof (induction page k b rule: block_insert.induct)
  case (1 page k b)
  note facts = free_list_facts [OF 1(2,3)]
  have notin: "page \<notin> set (block b k)" using facts(2) 1(5) by auto
  obtain qs m where scan: "block_scan k page (block b k) = (qs, m)" by fastforce
  show ?case
  proof (cases m)
    case None
    with scan notin facts 1(3,4) block_scan_None [of k page "block b k" qs]
    have "sorted_wrt (<) qs" "set qs = insert page (set (block b k))"
      "\<forall>p \<in> set (block b k). k < 7 \<longrightarrow> \<not> buddies k page p \<and> \<not> buddies k p page" by auto
    from buddy_inv_insert [OF 1(2-5) this] scan None 1(3) show ?thesis
      by (subst block_insert.simps) simp
  next
    case (Some page')
    with scan facts(1) block_scan_Some [of k page "block b k" qs page'] obtain p
      where k: "k < 7" and qs: "sorted_wrt (<) qs" "set qs = set (block b k) - {p}"
        and p: "p \<in> set (block b k)"
        and page': "buddies k p page \<and> page' = p \<or> buddies k page p \<and> page' = page" by auto
    define b1 where "b1 = b\<lparr>block := (block b)(k := qs)\<rparr>"
    have b1: "buddy_inv b1" "free_set b1 = free_set b - span p k"
      unfolding b1_def using buddy_inv_remove [OF 1(2,3) p qs] .
    have whole: "span page' (Suc k) = span p k \<union> span page k" "2 ^ Suc k dvd page'"
      using page' buddies_span by (auto simp: buddies_def)
    then have "span page' (k + 1) \<inter> free_set b1 = {}" using b1 1(5) by auto
    then obtain b' where b': "block_insert page' (k + 1) b1 = Some b'" "buddy_inv b'"
      "free_set b' = free_set b1 \<union> span page' (k + 1)" "activate b' = activate b1"
      using 1(1) [OF _ scan [symmetric] Some] 1(3) k b1(1) whole(2) unfolding b1_def by auto
    have "block_insert page k b = Some b'"
      using scan Some b'(1) 1(3) by (subst block_insert.simps) (simp add: b1_def)
    moreover have "free_set b' = free_set b \<union> span page k"
      using b'(3) b1(2) whole(1) facts(2) p by auto
    ultimately show ?thesis using b' by (simp add: b1_def)
  qed
qed

section \<open>Allocation\<close>

lemma find_block_Some: "find_block n b = Some k \<Longrightarrow> n \<le> k \<and> k < 8 \<and> block b k \<noteq> []"
proof (induction n b rule: find_block.induct)
  case (1 n b)
  from 1(2) show ?case
    by (subst (asm) find_block.simps) (use 1(1) in \<open>auto split: if_splits\<close>)
qed

lemma find_block_None: "find_block n b = None \<longleftrightarrow> (\<forall>k. n \<le> k \<and> k < 8 \<longrightarrow> block b k = [])"
proof (induction n b rule: find_block.induct)
  case (1 n b)
  show ?case
  proof (cases "n < 8 \<and> block b n = []")
    case True
    then have "find_block n b = find_block (n + 1) b" by (subst find_block.simps) simp
    moreover have "(\<forall>k. n + 1 \<le> k \<and> k < 8 \<longrightarrow> block b k = []) \<longleftrightarrow> (\<forall>k. n \<le> k \<and> k < 8 \<longrightarrow> block b k = [])"
      using True by (metis Suc_eq_plus1 le_antisym not_less_eq_eq Suc_leD)
    ultimately show ?thesis using 1 True by simp
  next
    case False
    then show ?thesis by (subst find_block.simps) auto
  qed
qed

lemma split_block_spec:
  assumes "buddy_inv b" "k \<le> n" "n \<le> 8" "2 ^ n dvd page" "span page n \<inter> free_set b = {}"
  shows "\<exists>b'. split_block page k n b = Some b' \<and> buddy_inv b' \<and>
    free_set b' = free_set b \<union> (span page n - span page k) \<and> activate b' = activate b"
  using assms
proof (induction n arbitrary: b)
  case (Suc n)
  show ?case
  proof (cases "k = Suc n")
    case False
    have al: "2 ^ n dvd page" using Suc.prems(4) power_le_dvd [of 2 "Suc n" page n] by simp
    have halves: "span page (Suc n) = span page n \<union> span (page + 2 ^ n) n"
      "span page n \<inter> span (page + 2 ^ n) n = {}" by (fact dyadic)+
    have le: "k \<le> n" "n < 8" using Suc.prems False by auto
    have sub: "span page k \<subseteq> span page n"
      using le(1) power_increasing [of k n "2::nat"] by (auto simp: span_def)
    have "span (page + 2 ^ n) n \<inter> free_set b = {}" using halves Suc.prems(5) by auto
    then obtain b1 where b1: "block_insert (page + 2 ^ n) n b = Some b1" "buddy_inv b1"
      "free_set b1 = free_set b \<union> span (page + 2 ^ n) n" "activate b1 = activate b"
      using block_insert_spec [OF Suc.prems(1) le(2), of "page + 2 ^ n"] al by auto
    have "span page n \<inter> free_set b1 = {}" using b1(3) halves Suc.prems(5) by auto
    then obtain b2 where "split_block page k n b1 = Some b2" "buddy_inv b2"
      "free_set b2 = free_set b1 \<union> (span page n - span page k)" "activate b2 = activate b1"
      using Suc.IH [OF b1(2) le(1) _ al] le(2) by auto
    moreover have "free_set b1 \<union> (span page n - span page k) = free_set b \<union> (span page (Suc n) - span page k)"
      using b1(3) halves sub by auto
    ultimately show ?thesis using b1 le by simp
  qed (use Suc.prems in simp)
qed simp

lemma buddy_inv_take_first:
  assumes "buddy_inv b" "k < 8" "block b k \<noteq> []"
  defines "p \<equiv> hd (block b k)" and "b' \<equiv> b\<lparr>block := (block b)(k := tl (block b k))\<rparr>"
  shows "buddy_inv b'" "free_set b' = free_set b - span p k" "2 ^ k dvd p" "span p k \<subseteq> free_set b"
proof -
  note f = free_list_facts [OF assms(1,2)]
  have ps: "block b k = p # tl (block b k)" using assms(3) by (simp add: p_def)
  have "sorted_wrt (<) (p # tl (block b k))" using f(1) ps by metis
  then have "sorted_wrt (<) (tl (block b k))" "set (tl (block b k)) = set (p # tl (block b k)) - {p}"
    by auto
  then show "buddy_inv b'" "free_set b' = free_set b - span p k"
    using buddy_inv_remove [OF assms(1,2), of p "tl (block b k)"] assms(3)
    by (simp_all add: b'_def p_def)
  show "2 ^ k dvd p" "span p k \<subseteq> free_set b" using f(2) assms(3) by (simp_all add: p_def)
qed

lemma alloc_pages_raw_None:
  "k \<ge> 8 \<or> (\<forall>l. k \<le> l \<and> l < 8 \<longrightarrow> block b l = []) \<Longrightarrow> alloc_pages_raw k b = Some (None, b)"
  using find_block_None [of "k + 1" b] by (auto simp: alloc_pages_raw_def)

lemma alloc_pages_raw_Some:
  assumes "buddy_inv b" "k \<le> l" "l < 8" "block b l \<noteq> []"
  shows "\<exists>p b'. alloc_pages_raw k b = Some (Some p, b') \<and> 2 ^ k dvd p \<and> span p k \<subseteq> free_set b \<and>
    buddy_inv b' \<and> free_set b' = free_set b - span p k \<and> activate b' = p # activate b"
proof (cases "block b k = []")
  case False
  have "k < 8" using assms by simp
  from buddy_inv_take_first [OF assms(1) this False] this False show ?thesis
    by (simp add: alloc_pages_raw_def Let_def)
next
  case True
  then have "k < l" using assms by (metis le_neq_implies_less)
  then obtain n where n: "find_block (k + 1) b = Some n"
    using find_block_None [of "k + 1" b] assms by fastforce
  then have kn: "k < n" "n < 8" "block b n \<noteq> []" using find_block_Some [OF n] by auto
  define p where "p = hd (block b n)"
  define b1 where "b1 = b\<lparr>block := (block b)(n := tl (block b n))\<rparr>"
  have b1: "buddy_inv b1" "free_set b1 = free_set b - span p n" "2 ^ n dvd p" "span p n \<subseteq> free_set b"
    unfolding p_def b1_def using buddy_inv_take_first [OF assms(1) kn(2,3)] by blast+
  then obtain b2 where b2: "split_block p k n b1 = Some b2" "buddy_inv b2"
    "free_set b2 = free_set b1 \<union> (span p n - span p k)" "activate b2 = activate b1"
    using split_block_spec [of b1 k n p] kn by auto
  have "span p k \<subseteq> span p n"
    using kn(1) power_increasing [of k n "2::nat"] by (auto simp: span_def)
  moreover have "2 ^ k dvd p" using b1(3) kn(1) power_le_dvd [of 2 n p k] by simp
  moreover have "alloc_pages_raw k b = Some (Some p, b2\<lparr>activate := p # activate b2\<rparr>)"
    using True n kn b2(1) assms by (simp add: alloc_pages_raw_def p_def b1_def Let_def)
  moreover have "free_set b2 = free_set b - span p k" using b2(3) b1(2,4) \<open>span p k \<subseteq> span p n\<close> by auto
  ultimately show ?thesis using b2 b1(4) by (auto simp: b1_def)
qed

lemma alloc_pages_raw_got:
  assumes "buddy_inv b" "alloc_pages_raw k b = Some (Some p, b')"
  shows "k < 8" "2 ^ k dvd p" "span p k \<subseteq> free_set b" "buddy_inv b'"
    "free_set b' = free_set b - span p k" "activate b' = p # activate b"
proof -
  obtain l where l: "k \<le> l" "l < 8" "block b l \<noteq> []"
    using alloc_pages_raw_None [of k b] assms(2) by auto
  then show "k < 8" by simp
  from alloc_pages_raw_Some [OF assms(1) l] assms(2)
  show "2 ^ k dvd p" "span p k \<subseteq> free_set b" "buddy_inv b'"
    "free_set b' = free_set b - span p k" "activate b' = p # activate b" by simp_all
qed

section \<open>The free lists are determined by the set of free pages\<close>

lemma coverE: "x \<in> cover B \<Longrightarrow> (\<And>k p. (k, p) \<in> B \<Longrightarrow> x \<in> span p k \<Longrightarrow> thesis) \<Longrightarrow> thesis"
  by (auto simp: cover_def)

lemma coverI: "(k, p) \<in> B \<Longrightarrow> span p k \<subseteq> cover B"
  by (auto simp: cover_def)

text \<open>Because no two mergeable buddies are free, every aligned run of free pages lies in one block.\<close>

lemma aligned_run_in_block:
  assumes "wf_blocks B" "n < 8" "2 ^ n dvd p" "span p n \<subseteq> cover B"
  shows "\<exists>k q. (k, q) \<in> B \<and> n \<le> k \<and> span p n \<subseteq> span q k"
  using assms(2-)
proof (induction n arbitrary: p)
  case 0
  then show ?case by (auto elim!: coverE)
next
  case (Suc n)
  have halves: "span p (Suc n) = span p n \<union> span (p + 2 ^ n) n" by (fact span_Suc)
  have al: "2 ^ n dvd p" "2 ^ n dvd p + 2 ^ n"
    using Suc.prems(2) power_le_dvd [of 2 "Suc n" p n] by auto
  obtain k q where kq: "(k, q) \<in> B" "n \<le> k" "span p n \<subseteq> span q k"
    using Suc.IH [OF _ al(1)] Suc.prems halves by auto
  obtain l r where lr: "(l, r) \<in> B" "n \<le> l" "span (p + 2 ^ n) n \<subseteq> span r l"
    using Suc.IH [OF _ al(2)] Suc.prems halves by auto
  have up: "\<exists>k q. (k, q) \<in> B \<and> Suc n \<le> k \<and> span p (Suc n) \<subseteq> span q k"
    if "(k', q') \<in> B" "n < k'" "span p (Suc n) \<inter> span q' k' \<noteq> {}" for k' q'
    using span_nested [OF Suc.prems(2) wf_blocksD(2) [OF assms(1) that(1)] _ that(3)] that
    by (meson Suc_leI)
  show ?case
  proof (cases "k = n \<and> l = n")
    case True
    then have "q = p" "r = p + 2 ^ n" using kq(3) lr(3) span_subset_eq by blast+
    then have "buddies n q r" using Suc.prems(2) by (simp add: buddies_def)
    then show ?thesis using wf_blocksD(4) [OF assms(1)] kq lr True Suc.prems(1) by auto
  next
    case False
    have "span p (Suc n) \<inter> span q k \<noteq> {}" "span p (Suc n) \<inter> span r l \<noteq> {}"
      using kq(3) lr(3) halves span_mem by blast+
    then show ?thesis using up kq(1,2) lr(1,2) False by (metis le_neq_implies_less)
  qed
qed

lemma wf_blocks_subset_if_cover_eq:
  assumes "wf_blocks A" "wf_blocks B" "cover A = cover B"
  shows "A \<subseteq> B"
proof (rule subrelI)
  fix k p assume kp: "(k, p) \<in> A"
  then have "k < 8" "2 ^ k dvd p" "span p k \<subseteq> cover B"
    using wf_blocksD(1,2) [OF assms(1)] coverI assms(3) by blast+
  then obtain l q where lq: "(l, q) \<in> B" "k \<le> l" "span p k \<subseteq> span q l"
    using aligned_run_in_block [OF assms(2)] by blast
  then have "l < 8" "2 ^ l dvd q" "span q l \<subseteq> cover A"
    using wf_blocksD(1,2) [OF assms(2)] coverI assms(3) by blast+
  then obtain m r where mr: "(m, r) \<in> A" "l \<le> m" "span q l \<subseteq> span r m"
    using aligned_run_in_block [OF assms(1)] by blast
  then have "(k, p) = (m, r)"
    using wf_blocksD(3) [OF assms(1) kp mr(1)] lq(3) span_mem by blast
  then have "k = l" using lq(2) mr(2) by simp
  moreover from this have "p = q" using span_subset_eq [of p k q] lq(3) by simp
  ultimately have "(k, p) = (l, q)" by simp
  with lq(1) show "(k, p) \<in> B" by simp
qed

lemma free_lists_unique:
  assumes "buddy_inv a" "buddy_inv b" "free_set a = free_set b" "k < 8"
  shows "block a k = block b k"
proof -
  have "blocks a = blocks b"
    using assms(1-3) wf_blocks_subset_if_cover_eq
    by (intro equalityI) (simp_all add: buddy_inv_def free_set_def)
  then have "set (block a k) = set (block b k)" using assms(4) by (auto simp: blocks_def set_eq_iff)
  with assms show ?thesis by (intro strict_sorted_equal) (simp_all add: buddy_inv_def)
qed

text \<open>
  C4.  \<open>__alloc_pages\<close> on a well-formed allocator always returns.  It returns \<open>NULL\<close>
  exactly when no aligned run of the requested \<open>2 ^ order\<close> pages is free (or the order is out of
  range), and then changes nothing; otherwise it returns the start of such a run, removes exactly
  these pages from the free pages, records the block in \<open>activate\<close> and keeps the invariant.
\<close>

theorem alloc_pages_raw_correct:
  assumes "buddy_inv b"
  shows "if order < MAX_ORDER \<and> (\<exists>p. 2 ^ order dvd p \<and> span p order \<subseteq> free_set b)
    then \<exists>p b'. alloc_pages_raw order b = Some (Some p, b') \<and> 2 ^ order dvd p \<and>
           span p order \<subseteq> free_set b \<and> free_set b' = free_set b - span p order \<and>
           activate b' = p # activate b \<and> buddy_inv b'
    else alloc_pages_raw order b = Some (None, b)"
proof (cases "order < MAX_ORDER \<and> (\<exists>p. 2 ^ order dvd p \<and> span p order \<subseteq> free_set b)")
  case True
  then obtain p where p: "order < 8" "2 ^ order dvd p" "span p order \<subseteq> cover (blocks b)"
    by (auto simp: free_set_def)
  then obtain k q where "(k, q) \<in> blocks b" "order \<le> k"
    using aligned_run_in_block [of "blocks b" order p] assms by (auto simp: buddy_inv_def)
  then have "order \<le> k" "k < 8" "block b k \<noteq> []" by (auto simp: blocks_def)
  from alloc_pages_raw_Some [OF assms this] True show ?thesis by simp blast
next
  case False
  have "block b l = []" if "order \<le> l" "l < 8" for l
  proof (rule ccontr)
    assume "block b l \<noteq> []"
    from alloc_pages_raw_Some [OF assms that this] False that show False by auto
  qed
  then have "alloc_pages_raw order b = Some (None, b)" by (intro alloc_pages_raw_None) auto
  with False show ?thesis by simp
qed

text \<open>A small allocator for the witnesses: pages 8 to 15 are free as one block.\<close>

definition example_buddy :: buddy_struct where
  "example_buddy = \<lparr>block = (\<lambda>_. [])(3 := [8]), activate = []\<rparr>"

lemma example_blocks: "blocks example_buddy = {(3, 8)}"
  by (rule blocks_eqI) (auto simp: example_buddy_def)

lemma example_free_set: "free_set example_buddy = span 8 3"
  by (simp add: free_set_def example_blocks)

lemma example_buddy_inv: "buddy_inv example_buddy"
proof -
  have "sorted_wrt (<) (block example_buddy k)" for k by (simp add: example_buddy_def)
  moreover have "wf_blocks {(3, 8)}" by (rule wf_blocksI) (auto simp: buddies_def)
  ultimately show ?thesis by (simp add: buddy_inv_def example_blocks)
qed

lemma example_alloc: "\<exists>b'. alloc_pages_raw 1 example_buddy = Some (Some 8, b')"
  by (simp add: alloc_pages_raw_def example_buddy_def find_block.simps block_insert.simps
      eval_nat_numeral)

theorem alloc_pages_raw_correct_witness:
  "\<exists>p b'. alloc_pages_raw 1 example_buddy = Some (Some p, b') \<and> 2 dvd p \<and>
     free_set b' = span 8 3 - span p 1 \<and> buddy_inv b'"
proof -
  have "2 ^ 1 dvd (8::nat) \<and> span 8 1 \<subseteq> free_set example_buddy"
    by (auto simp: example_free_set span_def)
  then have "1 < MAX_ORDER \<and> (\<exists>p. 2 ^ 1 dvd p \<and> span p 1 \<subseteq> free_set example_buddy)"
    by (metis MAX_ORDER_simps(1) one_less_numeral_iff semiring_norm(76))
  then show ?thesis
    using alloc_pages_raw_correct [OF example_buddy_inv, of 1] unfolding example_free_set
    by (simp only: if_True) auto
qed

text \<open>
  C5.  Allocating a block and freeing it again restores every free list exactly,
  entry by entry: the splits on the way in are undone by the merges on the way out.
\<close>

theorem alloc_free_restores:
  assumes "buddy_inv b" "alloc_pages_raw order b = Some (Some p, b')"
  shows "\<exists>b''. free_pages_raw p order b' = Some b'' \<and> (\<forall>k < MAX_ORDER. block b'' k = block b k)"
proof -
  note p = alloc_pages_raw_got [OF assms]
  have "span p order \<inter> free_set b' = {}" using p(5) by auto
  then obtain b'' where "block_insert p order b' = Some b''" "buddy_inv b''"
    "free_set b'' = free_set b' \<union> span p order"
    using block_insert_spec [OF p(4,1,2)] by auto
  moreover from this have "free_set b'' = free_set b" using p by auto
  ultimately show ?thesis
    using free_lists_unique [OF _ assms(1)] by (simp add: free_pages_raw_def)
qed

theorem alloc_free_restores_witness:
  "\<exists>b' b''. alloc_pages_raw 1 example_buddy = Some (Some 8, b') \<and>
     free_pages_raw 8 1 b' = Some b'' \<and> (\<forall>k < MAX_ORDER. block b'' k = block example_buddy k)"
  using example_alloc alloc_free_restores [OF example_buddy_inv] by blast

end
