(* ===== verification/BuddyInit.thy ===== *)
theory BuddyInit
  imports Buddy
begin

text \<open>
  \<open>buddy_system_init\<close> of \<open>src/src/mm/buddy.c\<close>: the scan of \<open>mem_map\<close> that puts every
  page without \<open>PF_RESERVE\<close> on a free list.  The outer loop is a \<open>partial_function\<close>, since
  its condition is an inequality of pointers; the main lemma shows that it always ends, and that
  it establishes the allocator's invariant with the unreserved pages as the free pages.
\<close>

section \<open>Operations\<close>

definition reserved :: "(nat \<Rightarrow> page) \<Rightarrow> nat \<Rightarrow> bool" where
  "reserved mm i \<longleftrightarrow> flags (mm i) AND PF_RESERVE \<noteq> 0"

definition block_add_tail :: "nat \<Rightarrow> nat \<Rightarrow> buddy_struct \<Rightarrow> buddy_struct" where
  "block_add_tail page order b = b\<lparr>block := (block b)(order := block b order @ [page])\<rparr>"

function count_run :: "(nat \<Rightarrow> page) \<Rightarrow> nat \<Rightarrow> nat \<Rightarrow> nat \<Rightarrow> nat \<Rightarrow> nat \<times> nat" where
  "count_run mm tail limit count right =
     (if \<not> reserved mm right \<and> right \<noteq> tail \<and> count < limit
      then count_run mm tail limit (count + 1) (right + 1)
      else (count, right))"
  by pat_completeness auto
termination by (relation "measure (\<lambda>(_, _, limit, count, _). limit - count)") auto

declare count_run.simps [simp del]

text \<open>The loop \<open>for (; order >= 0; order--)\<close>; the first argument is \<open>order + 1\<close>.\<close>

fun add_pieces :: "nat \<Rightarrow> nat \<Rightarrow> nat \<Rightarrow> buddy_struct \<Rightarrow> buddy_struct" where
  "add_pieces 0 count left b = b"
| "add_pieces (Suc order) count left b =
     (if count AND push_bit order 1 \<noteq> 0
      then add_pieces order count (left + 2 ^ order) (block_add_tail left order b)
      else add_pieces order count left b)"

partial_function (option) init_scan ::
  "(nat \<Rightarrow> page) \<Rightarrow> nat \<Rightarrow> nat \<Rightarrow> nat \<Rightarrow> buddy_struct \<Rightarrow> buddy_struct option" where
  "init_scan mm tail left right b =
     (if right = tail then Some b
      else if reserved mm right then init_scan mm tail (right + 1) (right + 1) b
      else let order = check_order left;
               (count, right') = count_run mm tail (2 ^ order) 0 right;
               b' = (if count = 2 ^ order then block_add_tail left order b
                     else add_pieces (order + 1) count left b)
           in init_scan mm tail right' right' b')"

definition buddy_empty :: buddy_struct where
  "buddy_empty = \<lparr>block = \<lambda>_. [], activate = []\<rparr>"

definition buddy_system_init :: "nat \<Rightarrow> (nat \<Rightarrow> page) \<Rightarrow> buddy_struct option" where
  "buddy_system_init nr_pages mm = init_scan mm nr_pages 0 0 buddy_empty"

section \<open>The scan\<close>

definition usable :: "(nat \<Rightarrow> page) \<Rightarrow> nat \<Rightarrow> nat \<Rightarrow> bool" where
  "usable mm tail i \<longleftrightarrow> i < tail \<and> \<not> reserved mm i"

text \<open>A block whose right buddy contains an unusable page can never be merged to the right.\<close>

definition right_blocked :: "(nat \<Rightarrow> page) \<Rightarrow> nat \<Rightarrow> nat \<Rightarrow> nat \<Rightarrow> bool" where
  "right_blocked mm tail k p \<longleftrightarrow>
     (k < 7 \<and> 2 ^ Suc k dvd p \<longrightarrow> (\<exists>x \<in> span (p + 2 ^ k) k. \<not> usable mm tail x))"

definition scanned :: "(nat \<Rightarrow> page) \<Rightarrow> nat \<Rightarrow> nat \<Rightarrow> buddy_struct \<Rightarrow> bool" where
  "scanned mm tail left b \<longleftrightarrow>
     buddy_inv b \<and> free_set b = {i. i < left \<and> usable mm tail i} \<and>
     (\<forall>(k, p) \<in> blocks b. right_blocked mm tail k p) \<and> activate b = []"

lemma count_run_spec:
  assumes "count_run mm tail limit c r = (c', r')" "r \<le> tail" "c \<le> limit"
  shows "c \<le> c' \<and> c' \<le> limit \<and> r' = r + (c' - c) \<and> r' \<le> tail \<and>
    (\<forall>i \<in> {r ..< r'}. usable mm tail i) \<and> (c' = limit \<or> \<not> usable mm tail r')"
  using assms
proof (induction mm tail limit c r rule: count_run.induct)
  case (1 mm tail limit c r)
  show ?case
  proof (cases "\<not> reserved mm r \<and> r \<noteq> tail \<and> c < limit")
    case True
    then have rec: "count_run mm tail limit (c + 1) (r + 1) = (c', r')"
      using 1(2) by (subst (asm) count_run.simps) simp
    from True 1(3) have "usable mm tail r" by (simp add: usable_def)
    moreover have "{r ..< r'} \<subseteq> insert r {r + 1 ..< r'}" by auto
    ultimately show ?thesis using 1(1) [OF True rec] True 1(3) by auto
  next
    case False
    then have "c' = c" "r' = r" using 1(2) by (subst (asm) count_run.simps; auto)+
    then show ?thesis using False 1(3,4) by (auto simp: usable_def)
  qed
qed

lemma scanned_add:
  assumes "scanned mm tail left b" "k < 8" "2 ^ k dvd left" "\<forall>i \<in> span left k. usable mm tail i"
    "right_blocked mm tail k left"
  shows "scanned mm tail (left + 2 ^ k) (block_add_tail left k b)"
proof -
  have b: "buddy_inv b" "free_set b = {i. i < left \<and> usable mm tail i}"
    using assms(1) by (simp_all add: scanned_def)
  note f = free_list_facts [OF b(1) assms(2)]
  have below: "p < left" if "p \<in> set (block b k)" for p using f(2) that b(2) by auto
  then have qs: "sorted_wrt (<) (block b k @ [left])" "set (block b k @ [left]) = insert left (set (block b k))"
    using f(1) by (auto simp: sorted_wrt_append)
  have nb: "\<forall>p \<in> set (block b k). k < 7 \<longrightarrow> \<not> buddies k left p \<and> \<not> buddies k p left"
  proof (intro ballI impI conjI)
    fix p assume p: "p \<in> set (block b k)" "k < 7"
    show "\<not> buddies k left p" using below [OF p(1)] by (auto simp: buddies_def)
    have "right_blocked mm tail k p" using assms(1,2) p by (auto simp: scanned_def blocks_def)
    then show "\<not> buddies k p left" using assms(4) p(2) by (auto simp: right_blocked_def buddies_def)
  qed
  have disj: "span left k \<inter> free_set b = {}" unfolding b(2) span_def by fastforce
  have "{i. i < left + 2 ^ k \<and> usable mm tail i} = free_set b \<union> span left k"
    using assms(4) unfolding b(2) span_def by fastforce
  moreover have "\<forall>(l, p) \<in> blocks (block_add_tail left k b). right_blocked mm tail l p"
    using assms(1,5) blocks_update_insert [OF assms(2) qs(2)]
    by (auto simp: block_add_tail_def scanned_def)
  ultimately show ?thesis
    using buddy_inv_insert [OF b(1) assms(2,3) disj qs nb] assms(1)
    by (simp add: scanned_def block_add_tail_def)
qed

lemma add_pieces_scanned:
  assumes "scanned mm tail left b" "n \<le> 8" "2 ^ n dvd left"
    "\<forall>i \<in> {left ..< left + take_bit n count}. usable mm tail i"
    "\<not> usable mm tail (left + take_bit n count)"
  shows "scanned mm tail (left + take_bit n count) (add_pieces n count left b)"
  using assms
proof (induction n arbitrary: left b)
  case (Suc k)
  have al: "2 ^ k dvd left" using Suc.prems(3) power_le_dvd [of 2 "Suc k" left k] by simp
  show ?case
  proof (cases "bit count k")
    case True
    then have tb: "take_bit (Suc k) count = 2 ^ k + take_bit k count"
      by (simp add: take_bit_Suc_from_most)
    have lt: "take_bit k count < 2 ^ k" by simp
    have "right_blocked mm tail k left"
      using Suc.prems(5) lt unfolding right_blocked_def tb
      by (auto intro!: bexI [of _ "left + (2 ^ k + take_bit k count)"] simp: span_def)
    moreover have "\<forall>i \<in> span left k. usable mm tail i"
      using Suc.prems(4) tb by (auto simp: span_def)
    ultimately have "scanned mm tail (left + 2 ^ k) (block_add_tail left k b)"
      using Suc.prems(1,2) al by (intro scanned_add) auto
    then show ?thesis
      using Suc.IH [of "left + 2 ^ k" "block_add_tail left k b"] Suc.prems al True tb
      by (simp add: and_exp_eq_0_iff_not_bit add.assoc)
  next
    case False
    then have "take_bit (Suc k) count = take_bit k count" by (simp add: take_bit_Suc_from_most)
    then show ?thesis
      using Suc.IH [of left b] Suc.prems al False by (simp add: and_exp_eq_0_iff_not_bit)
  qed
qed simp

lemma scan_block_scanned:
  assumes "scanned mm tail left b" "left \<le> tail"
    "count_run mm tail (2 ^ check_order left) 0 left = (count, right)"
  shows "scanned mm tail right
    (if count = 2 ^ check_order left then block_add_tail left (check_order left) b
     else add_pieces (check_order left + 1) count left b)"
proof -
  define k where "k = check_order left"
  have k: "k < 8" "2 ^ k dvd left" using check_order_le [of left] by (simp_all add: k_def)
  have run: "count \<le> 2 ^ k" "right = left + count" "\<forall>i \<in> {left ..< right}. usable mm tail i"
    "count = 2 ^ k \<or> \<not> usable mm tail right"
    using count_run_spec [OF assms(3,2)] by (auto simp: k_def)
  show ?thesis
  proof (cases "count = 2 ^ k")
    case True
    have "\<not> (k < 7 \<and> 2 ^ Suc k dvd left)"
      by (metis Suc_leI Suc_n_not_le_n check_order_ge_iff k_def)
    then have "right_blocked mm tail k left" unfolding right_blocked_def by blast
    then have "scanned mm tail (left + 2 ^ k) (block_add_tail left k b)"
      using scanned_add [OF assms(1) k] run True by (auto simp: span_def)
    then show ?thesis using True run(2) by (simp add: k_def)
  next
    case False
    then have small: "take_bit k count = count" "\<not> bit count k"
      using run(1) by (auto simp: take_bit_nat_eq_self_iff bit_iff_odd)
    then have "scanned mm tail (left + count) (add_pieces k count left b)"
      using add_pieces_scanned [OF assms(1) _ k(2), of count] run False k(1) by auto
    then show ?thesis
      using False small(2) run(2) by (simp add: k_def and_exp_eq_0_iff_not_bit)
  qed
qed

lemma scanned_skip: "reserved mm left \<Longrightarrow> scanned mm tail left b \<Longrightarrow> scanned mm tail (left + 1) b"
  by (auto simp: scanned_def usable_def less_Suc_eq)

lemma init_scan_spec:
  "scanned mm tail left b \<Longrightarrow> left \<le> tail \<Longrightarrow>
   \<exists>b'. init_scan mm tail left left b = Some b' \<and> scanned mm tail tail b'"
proof (induction "tail - left" arbitrary: left b rule: less_induct)
  case less
  show ?case
  proof (cases "left = tail \<or> reserved mm left")
    case True
    then show ?thesis
      using less scanned_skip [of mm left tail b] by (subst init_scan.simps) auto
  next
    case False
    obtain count right where run: "count_run mm tail (2 ^ check_order left) 0 left = (count, right)"
      by fastforce
    note spec = count_run_spec [OF run less.prems(2)]
    have "usable mm tail left" using False less.prems(2) by (simp add: usable_def)
    then have "right \<noteq> left" using spec by (cases "count = 0") auto
    with spec have "left < right" "right \<le> tail" by auto
    then have dec: "tail - right < tail - left" by simp
    show ?thesis
      using less.hyps [OF dec scan_block_scanned [OF less.prems run] \<open>right \<le> tail\<close>] False run
      by (subst init_scan.simps) (simp add: Let_def)
  qed
qed

lemma buddy_empty_scanned: "scanned mm tail 0 buddy_empty"
proof -
  have "blocks buddy_empty = {}" by (simp add: blocks_def buddy_empty_def)
  then show ?thesis
    by (simp add: scanned_def buddy_inv_def wf_blocks_def free_set_def) (simp add: buddy_empty_def)
qed

lemma buddy_system_init_spec:
  "\<exists>b. buddy_system_init nr_pages mm = Some b \<and> scanned mm nr_pages nr_pages b"
  using init_scan_spec [OF buddy_empty_scanned, of nr_pages mm] by (simp add: buddy_system_init_def)

text \<open>
  C6.  \<open>buddy_system_init\<close> ends for every \<open>mem_map\<close> and every number of pages, and
  leaves a well-formed allocator whose free pages are exactly the pages below \<open>nr_pages\<close> that are
  not reserved, with no block in use and no two mergeable buddies left apart.
\<close>

theorem buddy_system_init_correct:
  "\<exists>b. buddy_system_init nr_pages mm = Some b \<and> buddy_inv b \<and> activate b = [] \<and>
     free_set b = {i. i < nr_pages \<and> flags (mm i) AND PF_RESERVE = 0}"
  using buddy_system_init_spec [of nr_pages mm]
  by (auto simp: scanned_def usable_def reserved_def)

end
