(* ===== verification/Allocator.thy ===== *)
theory Allocator
  imports Prelude
begin

text \<open>
  What a client of a storage allocator relies on, as a locale.  An allocator keeps a set of free
  units (page frames, heap bytes); a block it hands out has an extent of units.  The client's
  facts are proved once: along every sequence of allocations and releases the live blocks are
  pairwise disjoint, never overlap the free units, and nothing is lost.  The page allocator and
  the heap of the C library interpret the exact contract, \<open>kmalloc\<close> the weaker one.
\<close>

text \<open>
  The sequences of operations a client can perform, with the blocks it still holds.  A failed
  allocation is a step too; a block is released only by the holder, once.
\<close>

inductive alloc_trace ::
  "('q \<Rightarrow> 's \<Rightarrow> ('x option \<times> 's) option) \<Rightarrow> ('x \<Rightarrow> 's \<Rightarrow> 's option) \<Rightarrow> 's \<Rightarrow> 's \<Rightarrow> 'x list \<Rightarrow> bool"
  for alloc :: "'q \<Rightarrow> 's \<Rightarrow> ('x option \<times> 's) option" and release :: "'x \<Rightarrow> 's \<Rightarrow> 's option"
  and s0 :: 's where
  start: "alloc_trace alloc release s0 s0 []"
| got: "alloc_trace alloc release s0 s live \<Longrightarrow> alloc q s = Some (Some x, s') \<Longrightarrow>
    alloc_trace alloc release s0 s' (x # live)"
| refused: "alloc_trace alloc release s0 s live \<Longrightarrow> alloc q s = Some (None, s') \<Longrightarrow>
    alloc_trace alloc release s0 s' live"
| released: "alloc_trace alloc release s0 s (xs @ x # ys) \<Longrightarrow> release x s = Some s' \<Longrightarrow>
    alloc_trace alloc release s0 s' (xs @ ys)"

fun disjoint_extents :: "('x \<Rightarrow> 'u set) \<Rightarrow> 'x list \<Rightarrow> bool" where
  "disjoint_extents ext [] \<longleftrightarrow> True"
| "disjoint_extents ext (x # xs) \<longleftrightarrow>
     (\<forall>y \<in> set xs. ext x \<inter> ext y = {}) \<and> disjoint_extents ext xs"

lemma disjoint_extents_remove:
  "disjoint_extents ext (xs @ x # ys) \<longleftrightarrow>
     disjoint_extents ext (xs @ ys) \<and> (\<forall>y \<in> set (xs @ ys). ext x \<inter> ext y = {})"
  by (induction xs) auto

text \<open>
  The weaker contract: an allocation takes its block from the free units, possibly losing some
  (a header, a rounding), and a release that succeeds gives back at most the block.
\<close>

locale arena =
  fixes inv :: "'s \<Rightarrow> bool"
    and units :: "'s \<Rightarrow> 'u set"
    and held :: "'s \<Rightarrow> 'x \<Rightarrow> bool"
    and extent :: "'x \<Rightarrow> 'u set"
    and fits :: "'q \<Rightarrow> 'x \<Rightarrow> bool"
    and alloc :: "'q \<Rightarrow> 's \<Rightarrow> ('x option \<times> 's) option"
    and release :: "'x \<Rightarrow> 's \<Rightarrow> 's option"
  assumes alloc_got: "inv s \<Longrightarrow> alloc q s = Some (Some x, s') \<Longrightarrow>
          inv s' \<and> fits q x \<and> extent x \<subseteq> units s \<and> units s' \<subseteq> units s - extent x \<and>
          held s' x \<and> (\<forall>y. held s y \<longrightarrow> held s' y)"
    and alloc_refused: "inv s \<Longrightarrow> alloc q s = Some (None, s') \<Longrightarrow>
          inv s' \<and> units s' \<subseteq> units s \<and> (\<forall>y. held s y \<longrightarrow> held s' y)"
    and release_held: "inv s \<Longrightarrow> held s x \<Longrightarrow> extent x \<inter> units s = {} \<Longrightarrow> release x s = Some s' \<Longrightarrow>
          inv s' \<and> units s' \<subseteq> units s \<union> extent x \<and>
          (\<forall>y. held s y \<and> extent x \<inter> extent y = {} \<longrightarrow> held s' y)"
begin

lemma trace_inv:
  assumes "alloc_trace alloc release s0 s live" "inv s0"
  shows "inv s \<and> disjoint_extents extent live \<and> (\<forall>x \<in> set live. held s x \<and> extent x \<inter> units s = {})
    \<and> units s \<union> (\<Union>x \<in> set live. extent x) \<subseteq> units s0"
  using assms
proof (induction rule: alloc_trace.induct)
  case (got s live q x s')
  then have IH: "inv s" "disjoint_extents extent live"
    "\<forall>y \<in> set live. held s y \<and> extent y \<inter> units s = {}"
    "units s \<union> (\<Union>y \<in> set live. extent y) \<subseteq> units s0" by blast+
  have x: "inv s'" "extent x \<subseteq> units s" "units s' \<subseteq> units s - extent x" "held s' x"
    "\<forall>y. held s y \<longrightarrow> held s' y"
    using alloc_got [OF IH(1) got(2)] by blast+
  have "\<forall>y \<in> set live. extent x \<inter> extent y = {}" using IH(3) x(2) by blast
  then have "disjoint_extents extent (x # live)" using IH(2) by simp
  moreover have "\<forall>y \<in> set (x # live). held s' y \<and> extent y \<inter> units s' = {}"
    using IH(3) x by auto
  moreover have "units s' \<union> (\<Union>y \<in> set (x # live). extent y) \<subseteq> units s0"
    using IH(4) x(2,3) by auto
  ultimately show ?case using x(1) by blast
next
  case (refused s live q s')
  then show ?case using alloc_refused [of s q s'] by blast
next
  case (released s xs x ys s')
  then have IH: "inv s" "disjoint_extents extent (xs @ x # ys)"
    "\<forall>y \<in> set (xs @ x # ys). held s y \<and> extent y \<inter> units s = {}"
    "units s \<union> (\<Union>y \<in> set (xs @ x # ys). extent y) \<subseteq> units s0" by blast+
  have disj: "disjoint_extents extent (xs @ ys)" "\<forall>y \<in> set (xs @ ys). extent x \<inter> extent y = {}"
    using IH(2) unfolding disjoint_extents_remove by blast+
  have x: "held s x" "extent x \<inter> units s = {}" using IH(3) by simp_all
  from release_held [OF IH(1) this released(2)]
  have s': "inv s'" "units s' \<subseteq> units s \<union> extent x"
    "\<forall>y. held s y \<and> extent x \<inter> extent y = {} \<longrightarrow> held s' y" by simp_all
  have "held s' y \<and> extent y \<inter> units s' = {}" if "y \<in> set (xs @ ys)" for y
  proof -
    have "extent x \<inter> extent y = {}" "held s y" "extent y \<inter> units s = {}"
      using that disj(2) IH(3) by simp_all
    then show ?thesis using s' by blast
  qed
  moreover have "units s' \<union> (\<Union>y \<in> set (xs @ ys). extent y) \<subseteq> units s0"
    using s'(2) IH(4) by auto
  ultimately show ?case using disj(1) s'(1) by simp
qed simp

end

text \<open>
  The exact contract: every call returns, every unit is accounted for, a refusal changes nothing,
  a held block can always be released, and the free units determine the allocator's own data.
\<close>

locale block_allocator = arena inv units held extent fits alloc release
  for inv :: "'s \<Rightarrow> bool" and units :: "'s \<Rightarrow> 'u set" and held :: "'s \<Rightarrow> 'x \<Rightarrow> bool"
    and extent :: "'x \<Rightarrow> 'u set" and fits :: "'q \<Rightarrow> 'x \<Rightarrow> bool"
    and alloc :: "'q \<Rightarrow> 's \<Rightarrow> ('x option \<times> 's) option"
    and release :: "'x \<Rightarrow> 's \<Rightarrow> 's option" +
  fixes view :: "'s \<Rightarrow> 'v"
  assumes alloc_total: "inv s \<Longrightarrow> \<exists>r s'. alloc q s = Some (r, s')"
    and alloc_exact: "inv s \<Longrightarrow> alloc q s = Some (Some x, s') \<Longrightarrow> units s - extent x \<subseteq> units s'"
    and alloc_refused_same: "inv s \<Longrightarrow> alloc q s = Some (None, s') \<Longrightarrow> s' = s"
    and release_total: "inv s \<Longrightarrow> held s x \<Longrightarrow> extent x \<inter> units s = {} \<Longrightarrow>
          \<exists>s'. release x s = Some s' \<and> units s \<union> extent x \<subseteq> units s'"
    and view_determined: "inv s \<Longrightarrow> inv t \<Longrightarrow> units s = units t \<Longrightarrow> view s = view t"
begin

lemma trace_exact:
  assumes "alloc_trace alloc release s0 s live" "inv s0"
  shows "units s \<union> (\<Union>x \<in> set live. extent x) = units s0"
  using assms
proof (induction rule: alloc_trace.induct)
  case (got s live q x s')
  have inv: "inv s" using trace_inv [OF got(1,4)] by simp
  have "units s' = units s - extent x" "extent x \<subseteq> units s"
    using alloc_exact [OF inv got(2)] alloc_got [OF inv got(2)] by (simp_all add: subset_antisym)
  then show ?case using got(3) [OF got(4)] by auto
next
  case (refused s live q s')
  have inv: "inv s" using trace_inv [OF refused(1,4)] by simp
  show ?case using alloc_refused_same [OF inv refused(2)] refused(3) [OF refused(4)] by simp
next
  case (released s xs x ys s')
  have inv: "inv s" "held s x" "extent x \<inter> units s = {}"
    using trace_inv [OF released(1,4)] by simp_all
  have "units s' = units s \<union> extent x"
    using release_total [OF inv] release_held [OF inv released(2)] released(2) by auto
  then show ?case using released(3) [OF released(4)] by auto
qed simp

text \<open>A live block can always be released, and releasing everything restores the start.\<close>

lemma trace_release:
  assumes "alloc_trace alloc release s0 s live" "inv s0" "x \<in> set live"
  shows "\<exists>s'. release x s = Some s'"
proof -
  have "inv s" "held s x" "extent x \<inter> units s = {}" using trace_inv [OF assms(1,2)] assms(3) by auto
  from release_total [OF this] show ?thesis by auto
qed

lemma trace_no_leak:
  assumes "alloc_trace alloc release s0 s []" "inv s0"
  shows "units s = units s0" "view s = view s0"
proof -
  show "units s = units s0" using trace_exact [OF assms] by simp
  then show "view s = view s0" using trace_inv [OF assms] assms(2) view_determined by blast
qed

end

end
