(* ===== verification/CString.thy ===== *)
theory CString
  imports Prelude
begin

text \<open>
  Memory and string routines (\<open>src/src/include/libc/string.h\<close>; \<open>src/src/include/boot/string.h\<close>
  and \<open>src/src/include/kernel/string.h\<close> hold the same text for the kernel).  Memory is a function
  from addresses to bytes, addresses wrap around, and a loop that runs until it meets a zero byte
  is a partial function.
\<close>

section \<open>Model\<close>

type_synonym cmem = "u64 \<Rightarrow> u8"

text \<open>\<open>rep movsb\<close>, byte by byte in ascending order.\<close>

primrec movsb :: "nat \<Rightarrow> u64 \<Rightarrow> u64 \<Rightarrow> cmem \<Rightarrow> cmem" where
  "movsb 0 rdi rsi mem = mem"
| "movsb (Suc rcx) rdi rsi mem = movsb rcx (rdi + 1) (rsi + 1) (mem(rdi := mem rsi))"

definition memcpy :: "u64 \<Rightarrow> u64 \<Rightarrow> u64 \<Rightarrow> cmem \<Rightarrow> cmem" where
  "memcpy to src n mem = movsb (unat n) to src mem"

text \<open>
  \<open>memset\<close> on a memory of cells, each named by its first byte; the cells that the pages hold
  are bytes or 8-byte words, and the kernel clears whole pages of them.  The assembly loop of
  \<open>src/src/include/boot/string.h\<close> writes before it counts, so a length of 0 stands for \<open>2 ^ 64\<close>
  bytes and sets all of memory.
\<close>

definition memset :: "u64 \<Rightarrow> 'c \<Rightarrow> u64 \<Rightarrow> (u64 \<Rightarrow> 'c) \<Rightarrow> u64 \<Rightarrow> 'c" where
  "memset dest c n mem = (\<lambda>a. if a - dest \<le> n - 1 then c else mem a)"

partial_function (option) strcpy :: "u64 \<Rightarrow> u64 \<Rightarrow> cmem \<Rightarrow> cmem option" where
  "strcpy rdi rsi mem =
     (let al = mem rsi; mem = mem(rdi := al)
      in if al = 0 then Some mem else strcpy (rdi + 1) (rsi + 1) mem)"

primrec strncpy_loop :: "nat \<Rightarrow> u64 \<Rightarrow> u64 \<Rightarrow> cmem \<Rightarrow> cmem" where
  "strncpy_loop 0 dest src mem = mem"
| "strncpy_loop (Suc n) dest src mem =
     (if mem src = 0 then mem else strncpy_loop n (dest + 1) (src + 1) (mem(dest := mem src)))"

definition strncpy :: "u64 \<Rightarrow> u64 \<Rightarrow> u64 \<Rightarrow> cmem \<Rightarrow> cmem" where
  "strncpy dest src n mem = strncpy_loop (unat n) dest src mem"

partial_function (option) strlen_loop :: "u64 \<Rightarrow> u64 \<Rightarrow> cmem \<Rightarrow> u64 option" where
  "strlen_loop rcx rsi mem = (if mem rsi = 0 then Some rcx else strlen_loop (rcx + 1) (rsi + 1) mem)"

text \<open>The count comes back through an \<open>int\<close>.\<close>

definition strlen :: "u64 \<Rightarrow> cmem \<Rightarrow> u64 option" where
  "strlen s mem = map_option (\<lambda>rcx. scast (ucast rcx :: u32)) (strlen_loop 0 s mem)"

partial_function (option) strcmp :: "u64 \<Rightarrow> u64 \<Rightarrow> cmem \<Rightarrow> int option" where
  "strcmp rsi rdi mem =
     (let al = mem rsi; b = mem rdi
      in if al \<noteq> b then Some (if al < b then -1 else 1)
         else if al = 0 then Some 0
         else strcmp (rsi + 1) (rdi + 1) mem)"

text \<open>\<open>retval\<close> is not initialised; \<open>None\<close> is the result of a comparison of no characters.\<close>

primrec strncmp_loop :: "nat \<Rightarrow> u64 \<Rightarrow> u64 \<Rightarrow> cmem \<Rightarrow> int option \<Rightarrow> int option" where
  "strncmp_loop 0 str1 str2 mem retval = retval"
| "strncmp_loop (Suc n) str1 str2 mem retval =
     (let r = sint (mem str1) - sint (mem str2)
      in if r \<noteq> 0 then Some r else strncmp_loop n (str1 + 1) (str2 + 1) mem (Some r))"

definition strncmp :: "u64 \<Rightarrow> u64 \<Rightarrow> u64 \<Rightarrow> cmem \<Rightarrow> int option" where
  "strncmp str1 str2 n mem = strncmp_loop (unat n) str1 str2 mem None"

partial_function (option) strstr_loop :: "u64 \<Rightarrow> u64 \<Rightarrow> u64 \<Rightarrow> cmem \<Rightarrow> u64 option" where
  "strstr_loop len2 str1 str2 mem =
     (if mem str1 = 0 then Some 0
      else if mem str1 = mem str2 \<and> strncmp str1 str2 len2 mem = Some 0 then Some str1
      else strstr_loop len2 (str1 + 1) str2 mem)"

definition strstr :: "u64 \<Rightarrow> u64 \<Rightarrow> cmem \<Rightarrow> u64 option" where
  "strstr str1 str2 mem =
     Option.bind (strlen str2 mem) (\<lambda>len2. if len2 = 0 then Some str1 else strstr_loop len2 str1 str2 mem)"

partial_function (option) strcat_end :: "u64 \<Rightarrow> cmem \<Rightarrow> u64 option" where
  "strcat_end dest mem = (if mem dest = 0 then Some dest else strcat_end (dest + 1) mem)"

partial_function (option) strcat_copy :: "u64 \<Rightarrow> u64 \<Rightarrow> cmem \<Rightarrow> (u64 \<times> cmem) option" where
  "strcat_copy dest str mem =
     (if mem str = 0 then Some (dest, mem)
      else strcat_copy (dest + 1) (str + 1) (mem(dest := mem str)))"

definition strcat :: "u64 \<Rightarrow> u64 \<Rightarrow> cmem \<Rightarrow> (u64 \<times> cmem) option" where
  "strcat dest str mem =
     Option.bind (strcat_end dest mem) (\<lambda>dest.
       Option.bind (strcat_copy dest str mem) (\<lambda>(dest, mem). Some (dest, mem(dest := 0))))"

section \<open>Strings in memory\<close>

lemma memset_eq: "n \<noteq> 0 \<Longrightarrow> memset dest c n mem = (\<lambda>a. if a - dest < n then c else mem a)"
proof -
  assume n: "n \<noteq> 0"
  then have "0 < unat n" by (simp add: unat_gt_0)
  then have "x \<le> n - 1 \<longleftrightarrow> x < n" for x
    using n by (simp add: word_le_nat_alt word_less_nat_alt unat_minus_one) arith
  then show ?thesis by (simp add: memset_def)
qed

lemma memset_page: "memset dest c PAGE_SIZE mem = (\<lambda>a. if a - dest < PAGE_SIZE then c else mem a)"
  by (rule memset_eq) (simp add: PAGE_SIZE_def)

fun cstr :: "cmem \<Rightarrow> u64 \<Rightarrow> u8 list \<Rightarrow> bool" where
  "cstr mem a [] \<longleftrightarrow> mem a = 0"
| "cstr mem a (c # s) \<longleftrightarrow> mem a = c \<and> c \<noteq> 0 \<and> cstr mem (a + 1) s"

text \<open>Copying \<open>n\<close> bytes, all of them read before any is written.\<close>

definition copied :: "nat \<Rightarrow> u64 \<Rightarrow> u64 \<Rightarrow> cmem \<Rightarrow> cmem" where
  "copied n dest src mem = (\<lambda>a. if unat (a - dest) < n then mem (src + (a - dest)) else mem a)"

text \<open>No byte of the source is overwritten before the copy reads it.\<close>

definition forward_ok :: "nat \<Rightarrow> u64 \<Rightarrow> u64 \<Rightarrow> bool" where
  "forward_ok n dest src \<longleftrightarrow> dest = src \<or> n \<le> unat (dest - src)"

lemma unat_minus_one_step:
  assumes "a \<noteq> (d :: u64)" shows "unat (a - (d + 1)) = unat (a - d) - 1"
proof -
  have "a - d \<noteq> 0" using assms by simp
  then have "unat (a - d - 1) = unat (a - d) - 1" by (simp add: unat_minus_one)
  then show ?thesis by (simp add: algebra_simps)
qed

lemma copied_step:
  assumes "Suc n \<le> 2 ^ 64" "forward_ok (Suc n) dest src"
  shows "copied n (dest + 1) (src + 1) (mem(dest := mem src)) = copied (Suc n) dest src mem"
proof
  fix a
  show "copied n (dest + 1) (src + 1) (mem(dest := mem src)) a = copied (Suc n) dest src mem a"
  proof (cases "a = dest")
    case True
    have "unat (dest - (dest + 1)) = 2 ^ 64 - 1" by (simp add: unsigned_minus_1_eq_mask mask_eq_exp_minus_1)
    then have "\<not> unat (dest - (dest + 1)) < n" using assms(1) by simp
    then show ?thesis using True by (simp add: copied_def)
  next
    case False
    have k: "0 < unat (a - dest)" using False by (simp add: unat_gt_0)
    have s: "src + 1 + (a - (dest + 1)) = src + (a - dest)" by simp
    have "src + (a - dest) \<noteq> dest" if "unat (a - dest) < Suc n"
    proof
      assume "src + (a - dest) = dest"
      then have "a - dest = dest - src" by (simp add: algebra_simps)
      then show False using assms(2) that False by (auto simp: forward_ok_def)
    qed
    then show ?thesis
      unfolding copied_def unat_minus_one_step [OF False] s using False k by auto
  qed
qed

lemma forward_ok_Suc: "forward_ok (Suc n) dest src \<Longrightarrow> forward_ok n (dest + 1) (src + 1)"
  by (auto simp: forward_ok_def)

lemma movsb_copied: "n \<le> 2 ^ 64 \<Longrightarrow> forward_ok n dest src \<Longrightarrow> movsb n dest src mem = copied n dest src mem"
proof (induction n arbitrary: dest src mem)
  case (Suc n)
  then show ?case using forward_ok_Suc copied_step by simp
qed (simp add: copied_def)

lemma memcpy_copied: "forward_ok (unat n) dest src \<Longrightarrow> memcpy dest src n mem = copied (unat n) dest src mem"
  unfolding memcpy_def by (rule movsb_copied) (use unsigned_less [of n, where 'a = nat] in simp_all)

text \<open>A copied range reads like the source did.\<close>

lemma copied_at: "i < n \<Longrightarrow> n \<le> 2 ^ 64 \<Longrightarrow> copied n dest src mem (dest + of_nat i) = mem (src + of_nat i)"
  by (simp add: copied_def unat_of_nat)

lemma cstr_at:
  "cstr mem a s \<longleftrightarrow> (\<forall>i < length s. mem (a + of_nat i) = s ! i \<and> s ! i \<noteq> 0) \<and> mem (a + of_nat (length s)) = 0"
proof (induction s arbitrary: a)
  case (Cons c s)
  have "(\<forall>i < length (c # s). P i) \<longleftrightarrow> P 0 \<and> (\<forall>i < length s. P (Suc i))" for P
    by (auto simp: less_Suc_eq_0_disj)
  then show ?case using Cons [of "a + 1"] by (simp add: algebra_simps)
qed simp

lemma cstr_copied:
  assumes "cstr mem src s" "length s < 2 ^ 64"
  shows "cstr (copied (Suc (length s)) dest src mem) dest s"
  using assms copied_at [of _ "Suc (length s)" dest src mem] unfolding cstr_at by simp

lemma cstr_unique: "cstr mem a s \<Longrightarrow> cstr mem a t \<Longrightarrow> s = t"
proof (induction s arbitrary: a t)
  case Nil
  then show ?case by (cases t) auto
next
  case (Cons c s)
  then show ?case by (cases t) auto
qed

section \<open>The loops\<close>

lemma strcpy_copied:
  "cstr mem src s \<Longrightarrow> Suc (length s) \<le> 2 ^ 64 \<Longrightarrow> forward_ok (Suc (length s)) dest src \<Longrightarrow>
     strcpy dest src mem = Some (copied (Suc (length s)) dest src mem)"
proof (induction s arbitrary: dest src mem)
  case Nil
  then show ?case by (auto simp: strcpy.simps [of dest] copied_def fun_eq_iff unat_eq_0)
next
  case (Cons c s)
  let ?mem = "mem(dest := mem src)"
  have src: "cstr ?mem (src + 1) s"
    unfolding cstr_at
  proof (intro conjI allI impI)
    have ne: "src + 1 + of_nat i \<noteq> dest" if "i \<le> length s" for i
    proof
      assume "src + 1 + of_nat i = dest"
      then have "dest - src = of_nat (Suc i)" by (simp add: algebra_simps)
      then have "unat (dest - src) = Suc i" using that Cons.prems(2) by (simp add: unat_of_nat del: of_nat_Suc)
      then show False using Cons.prems(3) that by (auto simp: forward_ok_def)
    qed
    have s: "cstr mem (src + 1) s" using Cons.prems(1) by simp
    show "?mem (src + 1 + of_nat i) = s ! i" "s ! i \<noteq> 0" if "i < length s" for i
      using s that ne [of i] unfolding cstr_at by auto
    show "?mem (src + 1 + of_nat (length s)) = 0" using s ne [of "length s"] unfolding cstr_at by simp
  qed
  have "forward_ok (Suc (length s)) (dest + 1) (src + 1)" by (rule forward_ok_Suc) (use Cons.prems(3) in simp)
  then have "strcpy (dest + 1) (src + 1) ?mem = Some (copied (Suc (length s)) (dest + 1) (src + 1) ?mem)"
    using Cons.prems(2) by (intro Cons.IH [OF src]) simp_all
  then show ?case
    using Cons.prems copied_step [of "Suc (length s)" dest src mem] by (simp add: strcpy.simps [of dest])
qed

lemma strlen_loop_cstr: "cstr mem a s \<Longrightarrow> strlen_loop n a mem = Some (n + of_nat (length s))"
  by (induction s arbitrary: a n) (simp_all add: strlen_loop.simps algebra_simps)

lemma strlen_cstr:
  assumes "cstr mem a s" "length s < 2 ^ 31" shows "strlen a mem = Some (of_nat (length s))"
proof -
  have "(scast (ucast (of_nat (length s) :: u64) :: u32) :: u64) = of_nat (length s)"
    using assms(2)
    by (simp add: ucast_of_nat_narrow scast_eq signed_of_nat signed_take_bit_int_eq_self)
  then show ?thesis using strlen_loop_cstr [OF assms(1)] by (simp add: strlen_def)
qed

fun bytes_less :: "u8 list \<Rightarrow> u8 list \<Rightarrow> bool" where
  "bytes_less [] t \<longleftrightarrow> t \<noteq> []"
| "bytes_less (a # s) [] \<longleftrightarrow> False"
| "bytes_less (a # s) (b # t) \<longleftrightarrow> a < b \<or> a = b \<and> bytes_less s t"

lemma strcmp_cstr:
  "cstr mem a s \<Longrightarrow> cstr mem b t \<Longrightarrow>
     strcmp a b mem = Some (if s = t then 0 else if bytes_less s t then -1 else 1)"
proof (induction s t arbitrary: a b rule: bytes_less.induct)
  case (1 t)
  then show ?case by (cases t) (auto simp: strcmp.simps [of a] word_gt_0)
next
  case (2 c s)
  then show ?case by (auto simp: strcmp.simps [of a])
next
  case (3 c s d t)
  then show ?case by (auto simp: strcmp.simps [of a])
qed

lemma strncmp_cstr:
  assumes "cstr mem b t" "cstr mem a s"
  shows "strncmp_loop (length t) a b mem (Some 0) = Some 0 \<longleftrightarrow> take (length t) s = t"
  using assms
proof (induction t arbitrary: a b s)
  case (Cons d t)
  have *: "sint x - sint y = 0 \<longleftrightarrow> x = y" for x y :: u8 using signed_word_eqI [of x y] by auto
  show ?case
  proof (cases s)
    case Nil
    then show ?thesis using Cons.prems * [of 0 d] by (simp add: Let_def)
  next
    case (Cons c s')
    then show ?thesis using Cons.IH [of "b + 1" "a + 1" s'] Cons.prems * [of c d] by (auto simp: Let_def)
  qed
qed simp

text \<open>The first position of \<open>s\<close> at which \<open>t\<close> starts.\<close>

fun first_match :: "u8 list \<Rightarrow> u8 list \<Rightarrow> nat option" where
  "first_match [] t = (if t = [] then Some 0 else None)"
| "first_match (c # s) t = (if take (length t) (c # s) = t then Some 0 else map_option Suc (first_match s t))"

lemma strstr_loop_cstr:
  assumes "cstr mem b t" "t \<noteq> []" "length t < 2 ^ 31"
  shows "cstr mem a s \<Longrightarrow>
    strstr_loop (of_nat (length t)) a b mem =
      Some (case first_match s t of None \<Rightarrow> 0 | Some k \<Rightarrow> a + of_nat k)"
proof (induction s arbitrary: a)
  case Nil
  then show ?case using assms(2) by (simp add: strstr_loop.simps)
next
  case (Cons c s)
  obtain d t' where t: "t = d # t'" using assms(2) by (cases t) auto
  have len: "unat (of_nat (length t) :: u64) = Suc (length t')" using assms(3) t by (simp add: unat_of_nat del: of_nat_Suc)
  have none: "strncmp_loop (Suc n) a b mem None = strncmp_loop (Suc n) a b mem (Some 0)" for n by (simp add: Let_def)
  have "strncmp a b (of_nat (length t)) mem = strncmp_loop (length t) a b mem (Some 0)"
    unfolding strncmp_def len none [symmetric] by (simp add: t)
  then have eq: "strncmp a b (of_nat (length t)) mem = Some 0 \<longleftrightarrow> take (length t) (c # s) = t"
    using strncmp_cstr [OF assms(1) Cons.prems] by simp
  have hd: "mem a = c" "mem b = d" "c \<noteq> 0" "cstr mem (a + 1) s" using Cons.prems assms(1) t by simp_all
  show ?case
  proof (cases "take (length t) (c # s) = t")
    case True
    then show ?thesis using eq hd t by (simp add: strstr_loop.simps [of _ a])
  next
    case False
    then have "\<not> (mem a = mem b \<and> strncmp a b (of_nat (length t)) mem = Some 0)" using eq by simp
    then have "strstr_loop (of_nat (length t)) a b mem = strstr_loop (of_nat (length t)) (a + 1) b mem"
      using hd by (subst strstr_loop.simps) auto
    then show ?thesis using Cons.IH [OF hd(4)] False by (auto split: option.splits)
  qed
qed

lemma strcat_end_cstr: "cstr mem a s \<Longrightarrow> strcat_end a mem = Some (a + of_nat (length s))"
  by (induction s arbitrary: a) (simp_all add: strcat_end.simps algebra_simps)

lemma unat_uminus_sum: "x \<noteq> 0 \<Longrightarrow> unat (x :: u64) + unat (- x) = 2 ^ 64"
proof -
  assume "x \<noteq> 0"
  then have "0 < unat x" by (simp add: unat_gt_0)
  moreover have lt: "unat x < 2 ^ 64" using unsigned_less [of x, where 'a = nat] by simp
  moreover have "- x = of_nat (2 ^ 64 - unat x)"
    using lt by (subst of_nat_diff) simp_all
  then have "unat (- x) = (2 ^ 64 - unat x) mod 2 ^ 64" by (simp only: unat_of_nat len_of_numeral_defs) simp
  ultimately show ?thesis by simp
qed

definition example_mem :: cmem where
  "example_mem = (\<lambda>_. 0)(16 := 104, 17 := 105, 32 := 97, 33 := 104, 34 := 105)"

lemma example_cstr: "cstr example_mem 16 [104, 105]" "cstr example_mem 32 [97, 104, 105]"
  by (simp_all add: example_mem_def)

section \<open>Properties\<close>

text \<open>
  C31.  \<open>strcpy\<close> ends and copies a string with its terminating zero and nothing else, unless the
  destination starts inside the source behind its first byte; comparing the copy with the
  original gives 0, and both have the length of the string.
\<close>

theorem strcpy_correct:
  assumes "cstr mem src s" "length s < 2 ^ 31" "dest = src \<or> length s < unat (dest - src)"
    "length s < unat (src - dest) \<or> dest = src"
  shows "\<exists>mem'. strcpy dest src mem = Some mem' \<and> cstr mem' dest s \<and> cstr mem' src s \<and>
    strcmp dest src mem' = Some 0 \<and> strlen dest mem' = strlen src mem \<and>
    (\<forall>a. length s < unat (a - dest) \<longrightarrow> mem' a = mem a)"
proof -
  let ?m = "copied (Suc (length s)) dest src mem"
  have len: "Suc (length s) \<le> 2 ^ 64" using assms(2) by simp
  have cp: "strcpy dest src mem = Some ?m"
    by (rule strcpy_copied [OF assms(1) len]) (use assms(3) in \<open>auto simp: forward_ok_def\<close>)
  have d: "cstr ?m dest s" by (rule cstr_copied [OF assms(1)]) (use assms(2) in simp)
  have keep: "?m (src + of_nat i) = mem (src + of_nat i)" if "i \<le> length s" for i
  proof (cases "dest = src")
    case True
    then show ?thesis using copied_at [of i "Suc (length s)" dest src mem] that len by simp
  next
    case False
    have "unat (src + of_nat i - dest) = unat (src - dest) + i"
    proof -
      have "unat (src - dest) + unat (dest - src) = 2 ^ 64"
        using False unat_uminus_sum [of "src - dest"] by simp
      then have "unat (src - dest) + i < 2 ^ 64" using assms(3) False that by simp
      then have "unat (src - dest + of_nat i) = unat (src - dest) + i" by (simp add: unat_word_ariths unat_of_nat)
      then show ?thesis by (simp add: algebra_simps)
    qed
    then show ?thesis using assms(4) False by (simp add: copied_def)
  qed
  have s: "cstr ?m src s" using assms(1) keep unfolding cstr_at by simp
  show ?thesis
    using cp d s strcmp_cstr [OF d s] strlen_cstr [OF d assms(2)] strlen_cstr [OF assms(1,2)]
    by (auto simp: copied_def)
qed

theorem strcpy_correct_witness:
  "\<exists>mem'. strcpy 64 16 example_mem = Some mem' \<and> cstr mem' 64 [104, 105] \<and> strcmp 64 16 mem' = Some 0"
  using strcpy_correct [OF example_cstr(1), of 64] by auto

text \<open>
  \<open>strcmp\<close> ends on two strings and tells how they compare as sequences of unsigned bytes:
  0 for equal strings, -1 when the first is smaller, 1 when it is larger.
\<close>

theorem strcmp_correct:
  assumes "cstr mem a s" "cstr mem b t"
  shows "strcmp a b mem = Some (if s = t then 0 else if bytes_less s t then -1 else 1)"
  using assms by (rule strcmp_cstr)

theorem strcmp_correct_witness: "strcmp 16 32 example_mem = Some 1"
  using strcmp_correct [OF example_cstr] by simp

text \<open>
  C32.  \<open>strstr\<close> ends and returns the address of the first occurrence of the second string in the
  first, or null when there is none.
\<close>

theorem strstr_correct:
  assumes "cstr mem a s" "cstr mem b t" "length t < 2 ^ 31"
  shows "strstr a b mem = Some (case first_match s t of None \<Rightarrow> 0 | Some k \<Rightarrow> a + of_nat k)"
proof (cases "t = []")
  case True
  then have "first_match s t = Some 0" by (cases s) auto
  then show ?thesis using strlen_cstr [OF assms(2,3)] True by (simp add: strstr_def)
next
  case False
  have "unat (of_nat (length t) :: u64) = length t" using assms(3) by (simp add: unat_of_nat)
  then have "(of_nat (length t) :: u64) \<noteq> 0" using False by (metis length_0_conv unat_0)
  then show ?thesis
    using strlen_cstr [OF assms(2,3)] strstr_loop_cstr [OF assms(2) False assms(3,1)] by (simp add: strstr_def)
qed

theorem strstr_correct_witness: "strstr 32 16 example_mem = Some 33"
  using strstr_correct [OF example_cstr(2,1)] by simp

end
