(* ===== verification/Pages.thy ===== *)
theory Pages
  imports BuddyInit Allocator CString
begin

text \<open>
  The page allocator as its clients see it: \<open>__get_free_pages\<close>, \<open>get_zeroed_page\<close> and
  \<open>free_pages\<close> hand out and take back kernel virtual addresses.  The theory interprets the
  allocator contract of \<open>Allocator\<close> on these operations of \<open>src/src/mm/buddy.c\<close>.
\<close>

section \<open>Operations on addresses\<close>

definition get_zeroed_page ::
  "u32 \<Rightarrow> mm_state \<times> (u64 \<Rightarrow> 'c::zero) \<Rightarrow> (u64 \<times> mm_state \<times> (u64 \<Rightarrow> 'c)) option" where
  "get_zeroed_page gfp_mask = (\<lambda>(m, mem).
     Option.bind (get_free_page gfp_mask m)
       (\<lambda>(ret, m). Some (if ret = 0 then (0, m, mem) else (ret, m, memset ret 0 PAGE_SIZE mem))))"

text \<open>The client's view: a block is an address with the order it was asked for.\<close>

definition page_request :: "u32 \<times> nat \<Rightarrow> mm_state \<Rightarrow> ((u64 \<times> nat) option \<times> mm_state) option" where
  "page_request = (\<lambda>(gfp_mask, order) m.
     Option.bind (get_free_pages gfp_mask order m)
       (\<lambda>(addr, m). Some (if addr = 0 then None else Some (addr, order), m)))"

definition page_release :: "u64 \<times> nat \<Rightarrow> mm_state \<Rightarrow> mm_state option" where
  "page_release = (\<lambda>(addr, order) m. free_pages addr order m)"

section \<open>Addresses and page indices\<close>

definition page_addr :: "nat \<Rightarrow> u64" where
  "page_addr i = to_vir (of_nat i * PAGE_SIZE)"

definition page_of :: "u64 \<Rightarrow> nat" where
  "page_of a = unat (to_phy a) div 4096"

lemma unat_page_offset: "i < 2 ^ 32 \<Longrightarrow> unat (of_nat i * PAGE_SIZE) = i * 4096"
  by (simp add: unat_word_ariths page_simps unat_of_nat)

lemma page_of_page_addr [simp]: "i < 2 ^ 32 \<Longrightarrow> page_of (page_addr i) = i"
  by (simp add: page_of_def page_addr_def unat_page_offset)

lemma page_addr_inj: "i < 2 ^ 32 \<Longrightarrow> j < 2 ^ 32 \<Longrightarrow> page_addr i = page_addr j \<longleftrightarrow> i = j"
  by (metis page_of_page_addr)

lemma unat_page_addr: "i < 2 ^ 32 \<Longrightarrow> unat (page_addr i) = 0xffff800000000000 + i * 4096"
proof -
  assume "i < 2 ^ 32"
  then show ?thesis
    using unat_page_offset [of i]
    by (simp add: page_addr_def to_vir_def KERNEL_OFFSET_def unat_word_ariths)
qed

lemma page_addr_nonzero [simp]:
  assumes "i < 2 ^ 32" shows "page_addr i \<noteq> 0"
  by (metis add_is_0 assms unat_0 unat_page_addr zero_neq_numeral)

lemma PAGE_LOWER_ALIGN_page_addr [simp]: "i < 2 ^ 32 \<Longrightarrow> PAGE_LOWER_ALIGN (page_addr i) = page_addr i"
proof (rule PAGE_LOWER_ALIGN_idem)
  assume "i < 2 ^ 32"
  then have "unat (page_addr i) = 4096 * (4503565267632128 + i)"
    by (simp add: unat_page_addr)
  then show "unat (page_addr i) mod 4096 = 0" by simp
qed

section \<open>The contract\<close>

definition mm_inv :: "nat \<Rightarrow> mm_state \<Rightarrow> bool" where
  "mm_inv n m \<longleftrightarrow> n < 2 ^ 32 \<and> (\<forall>i < n. virtual (mem_map m i) = page_addr i) \<and>
     buddy_inv (buddy m) \<and> free_set (buddy m) \<subseteq> {..<n} \<and> set (activate (buddy m)) \<subseteq> {..<n}"

definition page_held :: "nat \<Rightarrow> mm_state \<Rightarrow> u64 \<times> nat \<Rightarrow> bool" where
  "page_held n m = (\<lambda>(addr, order). order < MAX_ORDER \<and> 2 ^ order dvd page_of addr \<and>
     page_of addr + 2 ^ order \<le> n \<and> addr = page_addr (page_of addr) \<and>
     page_of addr \<in> set (activate (buddy m)))"

definition page_extent :: "u64 \<times> nat \<Rightarrow> nat set" where
  "page_extent = (\<lambda>(addr, order). span (page_of addr) order)"

definition page_fits :: "u32 \<times> nat \<Rightarrow> u64 \<times> nat \<Rightarrow> bool" where
  "page_fits = (\<lambda>(gfp_mask, order) (addr, order').
     order' = order \<and> 2 ^ order dvd page_of addr \<and> addr = page_addr (page_of addr))"

definition free_lists :: "mm_state \<Rightarrow> nat list list" where
  "free_lists m = map (block (buddy m)) [0 ..< MAX_ORDER]"

lemmas page_defs = page_held_def page_extent_def page_fits_def page_request_def page_release_def

lemma mark_busy_simps [simp]:
  "buddy (mark_busy r m) = buddy m" "virtual (mem_map (mark_busy r m) i) = virtual (mem_map m i)"
  by (auto simp: mark_busy_def split: option.splits)

lemma alloc_pages_eq:
  "alloc_pages gfp_mask order m = Option.bind (alloc_pages_raw order (buddy m))
     (\<lambda>(ret, b). Some (ret, mark_busy ret (m\<lparr>buddy := b\<rparr>)))"
  by (simp add: alloc_pages_def)

lemma span_bound:
  assumes "span p k \<subseteq> {..<n}" shows "p + 2 ^ k \<le> n"
proof -
  have "0 < (2::nat) ^ k" by simp
  then obtain j where j: "2 ^ k = Suc j" using gr0_conv_Suc by blast
  then have "p + j \<in> span p k" by (simp add: span_def)
  with assms have "p + j \<in> {..<n}" by (rule subsetD)
  then show ?thesis by (simp add: j)
qed

lemma get_free_pages_got:
  assumes "mm_inv n m" "get_free_pages gm order m = Some (a, m')" "a \<noteq> 0"
  shows "\<exists>p. a = page_addr p \<and> p + 2 ^ order \<le> n \<and> order < MAX_ORDER \<and> 2 ^ order dvd p \<and>
    span p order \<subseteq> free_set (buddy m) \<and> free_set (buddy m') = free_set (buddy m) - span p order \<and>
    activate (buddy m') = p # activate (buddy m) \<and> mm_inv n m'"
proof -
  note inv = assms(1) [unfolded mm_inv_def]
  obtain p b where p: "alloc_pages_raw order (buddy m) = Some (Some p, b)"
    and m': "m' = mark_busy (Some p) (m\<lparr>buddy := b\<rparr>)" "a = virtual (mem_map m' p)"
    using assms(2,3)
    by (auto simp: get_free_pages_def alloc_pages_eq split: option.splits bind_splits)
  have "buddy_inv (buddy m)" using inv by blast
  note got = alloc_pages_raw_got [OF this p]
  have "p + 2 ^ order \<le> n" by (rule span_bound) (use got(3) inv in blast)
  moreover from this have "p < n" using zero_less_power [of "2::nat" order] by linarith
  ultimately show ?thesis using got inv m' by (auto simp: mm_inv_def)
qed

lemma get_free_pages_total:
  assumes "mm_inv n m"
  shows "\<exists>a m'. get_free_pages gm order m = Some (a, m') \<and> (a = 0 \<longrightarrow> m' = m) \<and>
    (a = 0 \<longleftrightarrow> (order \<ge> 8 \<or> (\<forall>l. order \<le> l \<and> l < 8 \<longrightarrow> block (buddy m) l = [])))"
proof -
  note inv = assms [unfolded mm_inv_def]
  let ?none = "order \<ge> 8 \<or> (\<forall>l. order \<le> l \<and> l < 8 \<longrightarrow> block (buddy m) l = [])"
  consider "?none" "alloc_pages_raw order (buddy m) = Some (None, buddy m)"
    | p b where "\<not> ?none" "alloc_pages_raw order (buddy m) = Some (Some p, b)"
    using alloc_pages_raw_None [of order "buddy m"] alloc_pages_raw_Some [of "buddy m" order] inv
    by (metis not_less)
  then show ?thesis
  proof cases
    case 1
    then show ?thesis by (simp add: get_free_pages_def alloc_pages_eq mark_busy_def)
  next
    case 2
    have "buddy_inv (buddy m)" using inv by blast
    from alloc_pages_raw_got(3) [OF this 2(2)] have "p \<in> free_set (buddy m)" by auto
    then have "p < n" "n < 2 ^ 32" using inv by auto
    then have "virtual (mem_map m p) \<noteq> 0" using inv by simp
    then show ?thesis using 2 by (simp add: get_free_pages_def alloc_pages_eq)
  qed
qed

lemma find_active_page:
  assumes "mm_inv n m" "p \<in> set xs" "set xs \<subseteq> {..<n}"
  shows "find_active (mem_map m) (page_addr p) xs = Some p"
  using assms(2,3)
proof (induction xs)
  case (Cons x xs)
  have "virtual (mem_map m x) = page_addr x" "x < 2 ^ 32" "p < 2 ^ 32"
    using assms(1) Cons.prems by (auto simp: mm_inv_def)
  then show ?case using Cons page_addr_inj [of x p] by auto
qed simp

lemma free_pages_held:
  assumes "mm_inv n m" "page_held n m (a, k)" "page_extent (a, k) \<inter> free_set (buddy m) = {}"
  shows "\<exists>m'. free_pages a k m = Some m' \<and> mm_inv n m' \<and>
    free_set (buddy m') = free_set (buddy m) \<union> page_extent (a, k) \<and>
    activate (buddy m') = remove1 (page_of a) (activate (buddy m))"
proof -
  note inv = assms(1) [unfolded mm_inv_def]
  define p where "p = page_of a"
  have p: "k < 8" "2 ^ k dvd p" "p + 2 ^ k \<le> n" "a = page_addr p" "p \<in> set (activate (buddy m))"
    using assms(2) unfolding page_held_def p_def by auto
  then have "p < n" "p < 2 ^ 32" using inv by (auto dest: subsetD)
  have found: "find_active (mem_map m) a (activate (buddy m)) = Some p"
    unfolding p(4) by (rule find_active_page [OF assms(1) p(5)]) (use inv in blast)
  let ?b = "(buddy m)\<lparr>activate := remove1 p (activate (buddy m))\<rparr>"
  have "buddy_inv ?b" "span p k \<inter> free_set ?b = {}"
    using inv assms(3) by (simp_all add: page_extent_def p_def)
  from block_insert_spec [OF this(1) p(1,2) this(2)] obtain b' where
    b': "block_insert p k ?b = Some b'" "buddy_inv b'" "free_set b' = free_set (buddy m) \<union> span p k"
      "activate b' = remove1 p (activate (buddy m))" by auto
  have "free_pages a k m = Some (m\<lparr>buddy := b'\<rparr>)"
    using found b'(1) \<open>p < 2 ^ 32\<close> unfolding p(4) by (simp add: free_pages_def free_pages_raw_def)
  moreover have "mm_inv n (m\<lparr>buddy := b'\<rparr>)"
    using inv b' p(3) set_remove1_subset [of p "activate (buddy m)"]
    by (auto simp: mm_inv_def span_def)
  ultimately show ?thesis using b' by (simp add: page_extent_def p_def)
qed

lemma page_release_held:
  assumes inv: "mm_inv n s" and held: "page_held n s x"
    and disj: "page_extent x \<inter> free_set (buddy s) = {}"
  shows "\<exists>s'. page_release x s = Some s' \<and> mm_inv n s' \<and>
       free_set (buddy s') = free_set (buddy s) \<union> page_extent x \<and>
       (\<forall>y. page_held n s y \<and> page_extent x \<inter> page_extent y = {} \<longrightarrow> page_held n s' y)"
proof -
  obtain a k where x: "x = (a, k)" by fastforce
  have keep: "page_of b \<noteq> page_of a" if "page_extent x \<inter> page_extent (b, l) = {}" for b l
    using that by (auto simp: page_extent_def x)
  from free_pages_held [OF inv held [unfolded x] disj [unfolded x]] keep
  show ?thesis by (force simp: page_release_def page_held_def x)
qed

lemma page_request_got:
  assumes inv: "mm_inv n s" and eq: "page_request q s = Some (Some x, s')"
  shows "mm_inv n s' \<and> page_fits q x \<and> page_extent x \<subseteq> free_set (buddy s) \<and>
       free_set (buddy s') = free_set (buddy s) - page_extent x \<and> page_held n s' x \<and>
       (\<forall>y. page_held n s y \<longrightarrow> page_held n s' y)"
proof -
  obtain gm k a where q: "q = (gm, k)" "x = (a, k)" "a \<noteq> 0" "get_free_pages gm k s = Some (a, s')"
    using eq by (cases q) (auto simp: page_request_def split: bind_splits if_splits)
  from get_free_pages_got [OF inv q(4,3)] inv show ?thesis
    by (auto simp: q page_fits_def page_extent_def page_held_def mm_inv_def)
qed

lemma page_request_refused:
  assumes inv: "mm_inv n s" and eq: "page_request q s = Some (None, s')"
  shows "s' = s"
  using get_free_pages_total [OF inv, of "fst q" "snd q"] eq
  by (cases q) (auto simp: page_request_def split: bind_splits if_splits)

interpretation pages: block_allocator "mm_inv n" "\<lambda>m. free_set (buddy m)" "page_held n" page_extent
  page_fits page_request page_release free_lists for n
proof
  fix s s' :: mm_state and q :: "u32 \<times> nat" and x assume inv: "mm_inv n s"
  obtain gm k where q: "q = (gm, k)" by fastforce
  show "\<exists>r s'. page_request q s = Some (r, s')"
    using get_free_pages_total [OF inv, of gm k] by (auto simp: page_request_def q)
  {
    assume eq: "page_request q s = Some (Some x, s')"
    note got = page_request_got [OF inv eq]
    then show "mm_inv n s' \<and> page_fits q x \<and> page_extent x \<subseteq> free_set (buddy s) \<and>
       free_set (buddy s') \<subseteq> free_set (buddy s) - page_extent x \<and> page_held n s' x \<and>
       (\<forall>y. page_held n s y \<longrightarrow> page_held n s' y)" by simp
    show "free_set (buddy s) - page_extent x \<subseteq> free_set (buddy s')" using got by simp
  }
  {
    assume eq: "page_request q s = Some (None, s')"
    show s': "s' = s" by (rule page_request_refused [OF inv eq])
    then show "mm_inv n s' \<and> free_set (buddy s') \<subseteq> free_set (buddy s) \<and>
       (\<forall>y. page_held n s y \<longrightarrow> page_held n s' y)" using inv by simp
  }
  assume x: "page_held n s x" "page_extent x \<inter> free_set (buddy s) = {}"
  note rel = page_release_held [OF inv x]
  then show "\<exists>s'. page_release x s = Some s' \<and> free_set (buddy s) \<union> page_extent x \<subseteq> free_set (buddy s')"
    by (elim exE conjE) simp
  assume "page_release x s = Some s'"
  with rel show "mm_inv n s' \<and> free_set (buddy s') \<subseteq> free_set (buddy s) \<union> page_extent x \<and>
     (\<forall>y. page_held n s y \<and> page_extent x \<inter> page_extent y = {} \<longrightarrow> page_held n s' y)"
    by simp
next
  fix s t assume "mm_inv n s" "mm_inv n t" "free_set (buddy s) = free_set (buddy t)"
  then show "free_lists s = free_lists t"
    using free_lists_unique by (auto simp: free_lists_def mm_inv_def)
qed

lemma get_zeroed_page_got:
  assumes "mm_inv n m" "free_set (buddy m) \<noteq> {}"
  shows "\<exists>c m'. get_zeroed_page gm (m, mem) = Some (page_addr c, m', memset (page_addr c) 0 PAGE_SIZE mem) \<and>
    c < n \<and> c \<in> free_set (buddy m) \<and> free_set (buddy m') = free_set (buddy m) - {c} \<and>
    activate (buddy m') = c # activate (buddy m) \<and> mm_inv n m'"
proof -
  obtain l where "l < 8" "block (buddy m) l \<noteq> []"
    using assms(2) by (auto simp: free_set_def cover_def blocks_def)
  then obtain a m' where a: "get_free_pages gm 0 m = Some (a, m')" "a \<noteq> 0"
    using get_free_pages_total [OF assms(1), of gm 0] by auto
  from get_free_pages_got [OF assms(1) this] obtain c where
    "a = page_addr c" "c < n" "c \<in> free_set (buddy m)" "free_set (buddy m') = free_set (buddy m) - {c}"
    "activate (buddy m') = c # activate (buddy m)" "mm_inv n m'" by auto
  moreover have "get_free_page gm m = get_free_pages gm 0 m"
    by (simp add: get_free_page_def get_free_pages_def alloc_page_def)
  ultimately show ?thesis using a by (simp add: get_zeroed_page_def)
qed

lemma free_page_held:
  assumes "mm_inv n m" "p < n" "p \<notin> free_set (buddy m)" "p \<in> set (activate (buddy m))"
  shows "\<exists>m'. free_page (page_addr p) m = Some m' \<and> mm_inv n m' \<and>
    free_set (buddy m') = insert p (free_set (buddy m)) \<and>
    activate (buddy m') = remove1 p (activate (buddy m))"
proof -
  have "p < 2 ^ 32" using assms(1,2) by (simp add: mm_inv_def)
  then show ?thesis
    using free_pages_held [OF assms(1), of "page_addr p" 0] assms
    by (simp add: free_page_def page_held_def page_extent_def)
qed

section \<open>Every client sequence\<close>

text \<open>
  C1.  Whatever sequence of \<open>__get_free_pages\<close> and \<open>free_pages\<close> calls a client
  makes, with each block freed once at the order it was asked for, the blocks it holds never
  overlap each other or the free pages, each of them can be freed, no page is lost, and when
  everything has been freed all free lists are again what they were at the start.
\<close>

theorem page_trace_safe:
  assumes "mm_inv n m0" "alloc_trace page_request page_release m0 m live"
  shows "disjoint_extents page_extent live \<and>
    (\<forall>x \<in> set live. page_extent x \<inter> free_set (buddy m) = {} \<and> (\<exists>m'. page_release x m = Some m')) \<and>
    free_set (buddy m) \<union> (\<Union>x \<in> set live. page_extent x) = free_set (buddy m0) \<and>
    (live = [] \<longrightarrow> free_lists m = free_lists m0)"
  using pages.trace_inv [OF assms(2,1)] pages.trace_release [OF assms(2,1)]
    pages.trace_exact [OF assms(2,1)] pages.trace_no_leak(2) [of m0 m n] assms
  by blast

definition example_mm :: mm_state where
  "example_mm = \<lparr>mem_map = \<lambda>i. \<lparr>flags = 0, page_count = 0, slab = 0, virtual = page_addr i\<rparr>,
     buddy = example_buddy\<rparr>"

lemma example_mm_inv: "mm_inv 16 example_mm"
  by (auto simp: mm_inv_def example_mm_def example_buddy_inv example_free_set span_def)
     (simp add: example_buddy_def)

lemma example_page_request:
  "\<exists>m. page_request (GFP_KERNEL, 1) example_mm = Some (Some (page_addr 8, 1), m)"
proof -
  obtain b' where "alloc_pages_raw 1 (buddy example_mm) = Some (Some 8, b')"
    using example_alloc by (auto simp: example_mm_def)
  then show ?thesis
    by (simp add: page_request_def get_free_pages_def alloc_pages_eq) (simp add: example_mm_def)
qed

theorem page_trace_safe_witness:
  "\<exists>m. alloc_trace page_request page_release example_mm m [(page_addr 8, 1)] \<and>
     span 8 1 \<inter> free_set (buddy m) = {} \<and> free_set (buddy m) \<union> span 8 1 = span 8 3"
proof -
  obtain m where "page_request (GFP_KERNEL, 1) example_mm = Some (Some (page_addr 8, 1), m)"
    using example_page_request by blast
  then have "alloc_trace page_request page_release example_mm m [(page_addr 8, 1)]"
    using alloc_trace.got [OF alloc_trace.start] by fastforce
  from this page_trace_safe [OF example_mm_inv this] show ?thesis
    by (auto simp: page_extent_def example_free_set example_mm_def intro!: exI [of _ m])
qed

end
