(* ===== verification/PageTable.thy ===== *)
theory PageTable
  imports Pages
begin

text \<open>
  The four-level page tables of \<open>src/src/mm/page.c\<close>.  Memory is a store of 8-byte words named by
  their kernel virtual address, so \<open>pml4[i]\<close> is the word at \<open>pml4 + 8 * i\<close>.  \<open>map_page\<close> and
  \<open>free_proc_mm\<close> work on a process's lower half; \<open>setup_page_table\<close> builds the kernel's direct
  map.  A walk through a table that could not be allocated dereferences \<open>NULL\<close>: the result is
  \<open>None\<close>.
\<close>

type_synonym qmem = "u64 \<Rightarrow> u64"

section \<open>Operations\<close>

definition PRE_PAGE_ENTRY :: u64 where "PRE_PAGE_ENTRY = 512"

definition PTE_ATTR :: u64 where "PTE_ATTR = 0x007"

definition PDE_ATTR :: u64 where "PDE_ATTR = 0x007"

definition PDPTE_ATTR :: u64 where "PDPTE_ATTR = 0x007"

definition PML4E_ATTR :: u64 where "PML4E_ATTR = 0x007"

definition kmap :: "qmem \<Rightarrow> u64 \<Rightarrow> u64 \<Rightarrow> u64" where
  "kmap mem pgd uaddr =
     (if uaddr AND push_bit 48 0xffff \<noteq> 0 then uaddr
      else
        let addr = uaddr;
            pml4_ind = addr div push_bit 39 1;
            pdpt = to_vir (mem (pgd + 8 * pml4_ind) AND - push_bit 12 1);
            addr = addr AND (push_bit 39 1 - 1);
            pdpt_ind = addr div push_bit 30 1;
            pd = to_vir (mem (pdpt + 8 * pdpt_ind) AND - push_bit 12 1);
            addr = addr AND (push_bit 30 1 - 1);
            pd_ind = addr div push_bit 21 1;
            pt = to_vir (mem (pd + 8 * pd_ind) AND - push_bit 12 1);
            addr = addr AND (push_bit 21 1 - 1);
            pt_ind = addr div push_bit 12 1;
            paddr = (mem (pt + 8 * pt_ind) AND - push_bit 12 1) OR (addr mod push_bit 12 1)
        in to_vir paddr)"

text \<open>One level of \<open>map_page\<close>: the next table, allocated and entered if the slot is empty.\<close>

definition map_level ::
  "u64 \<Rightarrow> u64 \<Rightarrow> u64 \<Rightarrow> mm_state \<times> qmem \<Rightarrow> (u64 \<times> mm_state \<times> qmem) option" where
  "map_level table ind attr = (\<lambda>(m, mem).
     if table = 0 then None
     else if mem (table + 8 * ind) = 0 then
       Option.bind (get_zeroed_page GFP_KERNEL (m, mem))
         (\<lambda>(new, m, mem). Some (new, m, mem(table + 8 * ind := to_phy new OR attr)))
     else Some (to_vir (mem (table + 8 * ind) AND - push_bit 12 1), m, mem))"

definition map_page :: "u64 \<Rightarrow> u64 \<Rightarrow> mm_state \<times> qmem \<Rightarrow> (u64 \<times> mm_state \<times> qmem) option" where
  "map_page pgd ustart st =
     (let ustart = ustart AND (push_bit 48 1 - 1);
          pml4_ind = ustart div push_bit 39 1
      in Option.bind (map_level pgd pml4_ind PML4E_ATTR st) (\<lambda>(pdpt, st).
      let ustart = ustart AND (push_bit 39 1 - 1);
          pdpt_ind = ustart div push_bit 30 1
      in Option.bind (map_level pdpt pdpt_ind PDPTE_ATTR st) (\<lambda>(pd, st).
      let ustart = ustart AND (push_bit 30 1 - 1);
          pd_ind = ustart div push_bit 21 1
      in Option.bind (map_level pd pd_ind PDE_ATTR st) (\<lambda>(pt, st).
      let ustart = ustart AND (push_bit 21 1 - 1);
          pt_ind = ustart div push_bit 12 1
      in if pt = 0 then None
         else if snd st (pt + 8 * pt_ind) = 0 then
           Option.bind (get_zeroed_page GFP_KERNEL st)
             (\<lambda>(page, m, mem). Some (page, m, mem(pt + 8 * pt_ind := to_phy page OR PTE_ATTR)))
         else Some (to_vir (snd st (pt + 8 * pt_ind)) AND - push_bit 12 1, st)))))"

definition unmap_page :: "u64 \<Rightarrow> u64 \<Rightarrow> u64" where
  "unmap_page pgd ustart = 0"

text \<open>
  The loops of \<open>free_proc_mm\<close>: each runs over the entries \<open>0 \<dots> nr - 1\<close> of a table and frees
  what the non-empty ones point to, with \<open>free_page\<close> threading the allocator.
\<close>

fun for_entries :: "nat list \<Rightarrow> (u64 \<Rightarrow> u64) \<Rightarrow> (u64 \<Rightarrow> mm_state \<Rightarrow> mm_state option) \<Rightarrow> mm_state \<Rightarrow> mm_state option" where
  "for_entries [] entry body m = Some m"
| "for_entries (i # is) entry body m =
     (if entry (of_nat i) = 0 then for_entries is entry body m
      else Option.bind (body (to_vir (entry (of_nat i) AND - push_bit 12 1)) m) (for_entries is entry body))"

definition nr_entry :: nat where "nr_entry = 4096 div 8"

definition free_level1 :: "qmem \<Rightarrow> u64 \<Rightarrow> mm_state \<Rightarrow> mm_state option" where
  "free_level1 mem level1 m =
     Option.bind (for_entries [0 ..< nr_entry] (\<lambda>ind1. mem (level1 + 8 * ind1)) free_page m)
       (free_page level1)"

definition free_level2 :: "qmem \<Rightarrow> u64 \<Rightarrow> mm_state \<Rightarrow> mm_state option" where
  "free_level2 mem level2 m =
     Option.bind (for_entries [0 ..< nr_entry] (\<lambda>ind2. mem (level2 + 8 * ind2)) (free_level1 mem) m)
       (free_page level2)"

definition free_level3 :: "qmem \<Rightarrow> u64 \<Rightarrow> mm_state \<Rightarrow> mm_state option" where
  "free_level3 mem level3 m =
     Option.bind (for_entries [0 ..< nr_entry] (\<lambda>ind3. mem (level3 + 8 * ind3)) (free_level2 mem) m)
       (free_page level3)"

definition free_proc_mm :: "u64 \<Rightarrow> mm_state \<times> qmem \<Rightarrow> (mm_state \<times> qmem) option" where
  "free_proc_mm level4 = (\<lambda>(m, mem).
     Option.bind
       (for_entries [0 ..< nr_entry div 2] (\<lambda>ind4. mem (level4 + 8 * ind4)) (free_level3 mem) m)
       (\<lambda>m. Some (m, memset level4 0 (PAGE_SIZE div 2) mem)))"

text \<open>The \<open>fill_*\<close> functions: clear the tables, then write \<open>nr\<close> entries to consecutive pages.\<close>

fun fill_entries :: "nat \<Rightarrow> u64 \<Rightarrow> u64 \<Rightarrow> u64 \<Rightarrow> qmem \<Rightarrow> qmem" where
  "fill_entries 0 entry addr attr mem = mem"
| "fill_entries (Suc n) entry addr attr mem =
     fill_entries n (entry + 8) (addr + PAGE_SIZE) attr (mem(entry := to_phy addr OR attr))"

fun fill_pml4_entries :: "nat \<Rightarrow> u64 \<Rightarrow> u64 \<Rightarrow> qmem \<Rightarrow> qmem" where
  "fill_pml4_entries 0 entry addr mem = mem"
| "fill_pml4_entries (Suc n) entry addr mem =
     fill_pml4_entries n (entry + 8) (addr + PAGE_SIZE)
       (mem(entry := to_phy addr OR PML4E_ATTR, entry + 8 * 256 := to_phy addr OR PML4E_ATTR))"

definition table_bytes :: "u32 \<Rightarrow> u64" where
  "table_bytes nr = ucast (upper_div nr (ucast PRE_PAGE_ENTRY) * ucast PAGE_SIZE)"

definition fill_pml4 :: "u64 \<Rightarrow> u64 \<Rightarrow> u32 \<Rightarrow> qmem \<Rightarrow> qmem" where
  "fill_pml4 base addr nr mem = fill_pml4_entries (unat nr) base addr (memset base 0 PAGE_SIZE mem)"

definition fill_pdpt :: "u64 \<Rightarrow> u64 \<Rightarrow> u32 \<Rightarrow> qmem \<Rightarrow> qmem" where
  "fill_pdpt base addr nr mem =
     fill_entries (unat nr) base addr PDPTE_ATTR (memset base 0 (table_bytes nr) mem)"

definition fill_pd :: "u64 \<Rightarrow> u64 \<Rightarrow> u32 \<Rightarrow> qmem \<Rightarrow> qmem" where
  "fill_pd base addr nr mem =
     fill_entries (unat nr) base addr PDE_ATTR (memset base 0 (table_bytes nr) mem)"

definition fill_pt :: "u64 \<Rightarrow> u64 \<Rightarrow> u32 \<Rightarrow> qmem \<Rightarrow> qmem" where
  "fill_pt base addr nr mem =
     fill_entries (unat nr) base addr PTE_ATTR (memset base 0 (table_bytes nr) mem)"

text \<open>The result is the end of the tables, the memory and the new \<open>cr3\<close> (physical).\<close>

definition setup_page_table :: "u64 \<Rightarrow> u64 \<Rightarrow> qmem \<Rightarrow> u64 \<times> qmem \<times> u64" where
  "setup_page_table global_pgd_start memsize mem =
     (let nr_pte = memsize div PAGE_SIZE;
          nr_pde = upper_div nr_pte PRE_PAGE_ENTRY;
          nr_pdpte = upper_div nr_pde PRE_PAGE_ENTRY;
          nr_pml4e = upper_div nr_pdpte PRE_PAGE_ENTRY;
          base_pml4 = global_pgd_start;
          base_pdpt = base_pml4 + upper_div nr_pml4e PRE_PAGE_ENTRY * PAGE_SIZE;
          base_pd = base_pdpt + upper_div nr_pdpte PRE_PAGE_ENTRY * PAGE_SIZE;
          base_pt = base_pd + upper_div nr_pde PRE_PAGE_ENTRY * PAGE_SIZE;
          mem = fill_pml4 base_pml4 base_pdpt (ucast nr_pml4e) mem;
          mem = fill_pdpt base_pdpt base_pd (ucast nr_pdpte) mem;
          mem = fill_pd base_pd base_pt (ucast nr_pde) mem;
          mem = fill_pt base_pt KERNEL_OFFSET (ucast nr_pte) mem
      in (base_pt + upper_div nr_pte PRE_PAGE_ENTRY * PAGE_SIZE, mem, to_phy base_pml4))"

end
