(* ===== verification/PageTree.thy ===== *)
theory PageTree
  imports PageTable "HOL-Library.Multiset"
begin

text \<open>
  The page tables of a process as a radix tree of page frames.  The lemmas show that
  \<open>map_page\<close> adds one path to the tree, that \<open>kmap\<close> then translates the mapped page and every
  other page as before, and that \<open>free_proc_mm\<close> gives exactly the frames of the tree back.
\<close>

section \<open>Entries\<close>

type_synonym entries = "nat \<Rightarrow> nat \<Rightarrow> u64"

definition slot :: "nat \<Rightarrow> nat \<Rightarrow> u64" where
  "slot p i = page_addr p + 8 * of_nat i"

definition ent :: "qmem \<Rightarrow> entries" where
  "ent mem p i = mem (slot p i)"

definition pte :: "nat \<Rightarrow> u64" where
  "pte p = to_phy (page_addr p) OR 7"

definition child :: "u64 \<Rightarrow> nat" where
  "child e = page_of (to_vir (e AND - push_bit 12 1))"

lemma unat_slot: "p < 2 ^ 32 \<Longrightarrow> i < 512 \<Longrightarrow> unat (slot p i) = 0xffff800000000000 + p * 4096 + 8 * i"
proof -
  assume *: "p < 2 ^ 32" "i < 512"
  have "unat (8 * of_nat i :: u64) = 8 * i" using *(2) by (simp add: unat_word_ariths unat_of_nat)
  moreover have "0xffff800000000000 + p * 4096 + 8 * i < 2 ^ 64" using * by simp
  ultimately show ?thesis
    using unat_page_addr [OF *(1)] by (simp add: slot_def unat_word_ariths)
qed

lemma slot_eq_iff:
  assumes "p < 2 ^ 32" "q < 2 ^ 32" "i < 512" "j < 512"
  shows "slot p i = slot q j \<longleftrightarrow> p = q \<and> i = j"
proof
  assume "slot p i = slot q j"
  then have "unat (slot p i) = unat (slot q j)" by simp
  then have eq: "p * 4096 + 8 * i = q * 4096 + 8 * j"
    using unat_slot assms by simp
  then have "(p * 4096 + 8 * i) div 4096 = (q * 4096 + 8 * j) div 4096" by simp
  moreover have "(p * 4096 + 8 * i) div 4096 = p" "(q * 4096 + 8 * j) div 4096 = q"
    using assms(3,4) by simp_all
  ultimately show "p = q \<and> i = j" using eq by simp
qed simp

lemma in_page_iff:
  assumes "p < 2 ^ 32" "q < 2 ^ 32" "i < 512"
  shows "slot q i - page_addr p < PAGE_SIZE \<longleftrightarrow> q = p"
proof (cases "q < p")
  case True
  have le: "unat (slot q i) < unat (page_addr p)"
    using True assms by (simp add: unat_slot unat_page_addr)
  then have "unat (slot q i - page_addr p) = 2 ^ 64 + unat (slot q i) - unat (page_addr p)"
    by (simp add: unat_sub_if_size word_size)
  then show ?thesis
    using True assms by (simp add: word_less_nat_alt page_simps unat_slot unat_page_addr)
next
  case False
  then have le: "unat (page_addr p) \<le> unat (slot q i)"
    using assms by (simp add: unat_slot unat_page_addr)
  then have "unat (slot q i - page_addr p) = unat (slot q i) - unat (page_addr p)"
    by (simp add: unat_sub_if_size)
  then show ?thesis
    using False assms by (auto simp: word_less_nat_alt page_simps unat_slot unat_page_addr)
qed

lemma ent_memset:
  "p < 2 ^ 32 \<Longrightarrow> q < 2 ^ 32 \<Longrightarrow> i < 512 \<Longrightarrow>
   ent (memset (page_addr p) 0 PAGE_SIZE mem) q i = (if q = p then 0 else ent mem q i)"
  using in_page_iff [of p q i] by (simp add: ent_def memset_page)

lemma ent_update:
  "p < 2 ^ 32 \<Longrightarrow> q < 2 ^ 32 \<Longrightarrow> i < 512 \<Longrightarrow> j < 512 \<Longrightarrow>
   ent (mem(slot p i := e)) q j = (if q = p \<and> j = i then e else ent mem q j)"
  using slot_eq_iff [of q p j i] by (auto simp: ent_def)

lemma page_offset_push_bit: "of_nat p * PAGE_SIZE = push_bit 12 (of_nat p)"
  by (simp add: push_bit_eq_mult PAGE_SIZE_def)

lemma minus_push_bit_12: "- push_bit 12 1 = (NOT (mask 12) :: u64)"
  by (simp add: mask_eq_exp_minus_1 not_eq_complement push_bit_eq_mult)

lemma frame_attr_clear: "k \<le> n \<Longrightarrow> (push_bit n x OR mask k) AND NOT (mask n) = push_bit n (x :: u64)"
  by (rule bit_word_eqI) (auto simp: bit_simps)

lemma pte_frame: "pte p AND - push_bit 12 1 = of_nat p * PAGE_SIZE"
proof -
  have "(7 :: u64) = mask 3" by (simp add: mask_eq_exp_minus_1)
  then show ?thesis
    unfolding pte_def minus_push_bit_12 page_addr_def to_phy_to_vir page_offset_push_bit
    using frame_attr_clear [of 3 12 "of_nat p"] by (simp only:)
qed

lemma child_pte [simp]: "p < 2 ^ 32 \<Longrightarrow> child (pte p) = p"
  unfolding child_def pte_frame by (simp flip: page_addr_def)

lemma to_vir_pte: "to_vir (pte p AND - push_bit 12 1) = page_addr p"
  unfolding pte_frame page_addr_def by simp

lemma pte_nonzero [simp]: "pte p \<noteq> 0"
  by (simp add: pte_def or_eq_0_iff)

section \<open>Trees of frames\<close>

fun tree :: "nat \<Rightarrow> entries \<Rightarrow> nat \<Rightarrow> nat multiset" where
  "tree 0 es p = {#p#}"
| "tree (Suc l) es p = add_mset p (\<Sum>i<512. if es p i = 0 then {#} else tree l es (child (es p i)))"

definition forest :: "nat \<Rightarrow> nat \<Rightarrow> entries \<Rightarrow> nat \<Rightarrow> nat multiset" where
  "forest nb l es p = (\<Sum>i<nb. if es p i = 0 then {#} else tree l es (child (es p i)))"

fun wf_tree :: "nat \<Rightarrow> entries \<Rightarrow> nat \<Rightarrow> bool" where
  "wf_tree 0 es p \<longleftrightarrow> True"
| "wf_tree (Suc l) es p \<longleftrightarrow>
     (\<forall>i<512. es p i \<noteq> 0 \<longrightarrow> (\<exists>c<2 ^ 32. es p i = pte c \<and> wf_tree l es c))"

definition wf_forest :: "nat \<Rightarrow> nat \<Rightarrow> entries \<Rightarrow> nat \<Rightarrow> bool" where
  "wf_forest nb l es p \<longleftrightarrow>
     (\<forall>i<nb. es p i \<noteq> 0 \<longrightarrow> (\<exists>c<2 ^ 32. es p i = pte c \<and> wf_tree l es c))"

fun frame_of :: "entries \<Rightarrow> nat list \<Rightarrow> nat \<Rightarrow> nat option" where
  "frame_of es [] p = Some p"
| "frame_of es (i # is) p = (if es p i = 0 then None else frame_of es is (child (es p i)))"

definition uniq :: "nat multiset \<Rightarrow> bool" where
  "uniq M \<longleftrightarrow> (\<forall>x. count M x \<le> 1)"

lemma tree_forest: "tree (Suc l) es p = add_mset p (forest 512 l es p)"
  by (simp add: forest_def)

lemma wf_tree_forest: "wf_tree (Suc l) es p = wf_forest 512 l es p"
  by (simp add: wf_forest_def)

declare tree.simps(2) [simp del] wf_tree.simps(2) [simp del]

lemma root_in_tree [simp]: "p \<in># tree l es p"
  by (cases l) (simp_all add: tree_forest)

lemma forest_split:
  "i < nb \<Longrightarrow> forest nb l es p =
     (if es p i = 0 then {#} else tree l es (child (es p i))) +
     (\<Sum>j\<in>{..<nb} - {i}. if es p j = 0 then {#} else tree l es (child (es p j)))"
  unfolding forest_def by (subst sum.remove [of _ i]) auto

lemma mset_subset_sum: "finite A \<Longrightarrow> j \<in> A \<Longrightarrow> f j \<subseteq># sum f A"
  by (simp add: sum.remove)

lemma subtree_in_forest: "i < nb \<Longrightarrow> es p i \<noteq> 0 \<Longrightarrow> tree l es (child (es p i)) \<subseteq># forest nb l es p"
  by (simp add: forest_split [of i])

lemma uniq_disjoint: "uniq (A + B) \<Longrightarrow> x \<in># A \<Longrightarrow> x \<notin># B"
proof
  assume u: "uniq (A + B)" and "x \<in># A" "x \<in># B"
  then have "1 \<le> count A x" "1 \<le> count B x" by simp_all
  moreover have "count A x + count B x \<le> 1" using u by (simp add: uniq_def)
  ultimately show False by linarith
qed

lemma uniq_mono: "uniq B \<Longrightarrow> A \<subseteq># B \<Longrightarrow> uniq A"
  unfolding uniq_def by (meson le_trans mset_subset_eq_count)

lemma uniq_plus:
  assumes "uniq A" "uniq B" "\<And>x. x \<in># A \<Longrightarrow> x \<in># B \<Longrightarrow> False"
  shows "uniq (A + B)"
proof -
  have "count (A + B) x \<le> 1" for x
  proof -
    have "count A x = 0 \<or> count B x = 0" using assms(3) [of x] by (meson not_in_iff)
    then show ?thesis using assms(1,2) unfolding uniq_def by auto
  qed
  then show ?thesis by (simp add: uniq_def)
qed

text \<open>A tree depends only on the entries of its own frames.\<close>

lemma tree_cong:
  "(\<And>x j. x \<in># tree l es p \<Longrightarrow> j < 512 \<Longrightarrow> es' x j = es x j) \<Longrightarrow>
   tree l es' p = tree l es p \<and> (wf_tree l es p \<longrightarrow> wf_tree l es' p) \<and>
   (\<forall>is. length is = l \<and> (\<forall>i \<in> set is. i < 512) \<longrightarrow> frame_of es' is p = frame_of es is p)"
proof (induction l arbitrary: p)
  case (Suc l)
  have root: "es' p i = es p i" if "i < 512" for i using Suc.prems that root_in_tree by blast
  have sub: "tree l es' (child (es p i)) = tree l es (child (es p i)) \<and>
      (wf_tree l es (child (es p i)) \<longrightarrow> wf_tree l es' (child (es p i))) \<and>
      (\<forall>is. length is = l \<and> (\<forall>i \<in> set is. i < 512) \<longrightarrow>
         frame_of es' is (child (es p i)) = frame_of es is (child (es p i)))"
    if "i < 512" "es p i \<noteq> 0" for i
  proof (rule Suc.IH)
    fix x j assume "x \<in># tree l es (child (es p i))" "j < (512::nat)"
    then show "es' x j = es x j"
      using Suc.prems subtree_in_forest [of i 512 es p l] that by (auto simp: tree_forest dest: mset_subset_eqD)
  qed
  have "tree (Suc l) es' p = tree (Suc l) es p"
    unfolding tree_forest forest_def using root sub by (auto intro!: sum.cong)
  moreover have "wf_tree (Suc l) es p \<longrightarrow> wf_tree (Suc l) es' p"
    unfolding wf_tree.simps(2) using root sub by (metis child_pte)
  moreover have "frame_of es' is p = frame_of es is p"
    if "length is = Suc l" "\<forall>i \<in> set is. i < 512" for "is"
    using that root sub by (cases "is") auto
  ultimately show ?case by blast
qed simp

section \<open>Growing the tree\<close>

definition owned :: "nat \<Rightarrow> mm_state \<Rightarrow> nat \<Rightarrow> bool" where
  "owned n m x \<longleftrightarrow> x < n \<and> x \<notin> free_set (buddy m) \<and> x \<in> set (activate (buddy m))"

text \<open>
  The tables below entry \<open>0 \<dots> nb - 1\<close> of frame \<open>p\<close>, \<open>l\<close> levels deep, form a tree of distinct
  frames that the allocator has handed out.
\<close>

definition pt_ok :: "nat \<Rightarrow> nat \<Rightarrow> nat \<Rightarrow> nat \<Rightarrow> mm_state \<Rightarrow> qmem \<Rightarrow> bool" where
  "pt_ok n nb l p m mem \<longleftrightarrow> mm_inv n m \<and> uniq (add_mset p (forest nb l (ent mem) p)) \<and>
     (\<forall>x \<in># add_mset p (forest nb l (ent mem) p). owned n m x) \<and> wf_forest nb l (ent mem) p"

text \<open>The frames \<open>new\<close> moved from the free pages into the tree and no other table changed.\<close>

definition grown ::
  "nat \<Rightarrow> nat \<Rightarrow> nat \<Rightarrow> nat \<Rightarrow> mm_state \<Rightarrow> qmem \<Rightarrow> mm_state \<Rightarrow> qmem \<Rightarrow> nat multiset \<Rightarrow> bool" where
  "grown n nb l p m mem m' mem' new \<longleftrightarrow>
     mm_inv n m' \<and> uniq new \<and> set_mset new \<subseteq> free_set (buddy m) \<and>
     free_set (buddy m') = free_set (buddy m) - set_mset new \<and>
     set (activate (buddy m')) = set (activate (buddy m)) \<union> set_mset new \<and>
     wf_forest nb l (ent mem') p \<and> forest nb l (ent mem') p = forest nb l (ent mem) p + new \<and>
     (\<forall>x j. x < n \<and> j < 512 \<and> x \<notin># add_mset p (forest nb l (ent mem) p) + new \<longrightarrow>
        ent mem' x j = ent mem x j)"

lemma pt_okD:
  assumes "pt_ok n nb l p m mem"
  shows "mm_inv n m" "owned n m p" "\<And>x. x \<in># forest nb l (ent mem) p \<Longrightarrow> owned n m x \<and> x \<noteq> p"
    "uniq (forest nb l (ent mem) p)" "wf_forest nb l (ent mem) p" "n < 2 ^ 32"
proof -
  have u: "uniq ({#p#} + forest nb l (ent mem) p)" using assms by (simp add: pt_ok_def)
  from uniq_disjoint [OF this, of p] show "x \<in># forest nb l (ent mem) p \<Longrightarrow> owned n m x \<and> x \<noteq> p" for x
    using assms by (auto simp: pt_ok_def)
  show "uniq (forest nb l (ent mem) p)" using u by (rule uniq_mono) simp
qed (use assms in \<open>simp_all add: pt_ok_def mm_inv_def\<close>)

lemma grown_pt_ok:
  assumes "pt_ok n nb l p m mem" "grown n nb l p m mem m' mem' new"
  shows "pt_ok n nb l p m' mem'"
proof -
  let ?t = "add_mset p (forest nb l (ent mem) p)"
  have own: "owned n m x" if "x \<in># ?t" for x using that assms(1) by (auto simp: pt_ok_def)
  have g: "mm_inv n m'" "uniq new" "set_mset new \<subseteq> free_set (buddy m)"
    "free_set (buddy m') = free_set (buddy m) - set_mset new"
    "set (activate (buddy m')) = set (activate (buddy m)) \<union> set_mset new"
    "forest nb l (ent mem') p = forest nb l (ent mem) p + new" "wf_forest nb l (ent mem') p"
    using assms(2) by (auto simp: grown_def)
  have new: "x < n" if "x \<in># new" for x
    using that g(3) pt_okD(1) [OF assms(1)] by (auto simp: mm_inv_def)
  have "uniq (?t + new)"
    using assms(1) g(2,3) own by (intro uniq_plus) (auto simp: pt_ok_def owned_def)
  moreover have "owned n m' x" if "x \<in># ?t + new" for x
    using that own [of x] new [of x] g(4,5) by (auto simp: owned_def)
  ultimately show ?thesis using g by (simp add: pt_ok_def)
qed

lemma grown_refl: "pt_ok n nb l p m mem \<Longrightarrow> grown n nb l p m mem m mem {#}"
  by (simp add: grown_def uniq_def pt_okD)

lemma grown_trans:
  assumes "grown n nb l p m mem m1 mem1 A" "grown n nb l p m1 mem1 m2 mem2 B"
  shows "grown n nb l p m mem m2 mem2 (A + B)"
proof -
  have a: "set_mset A \<subseteq> free_set (buddy m)" "free_set (buddy m1) = free_set (buddy m) - set_mset A"
    "uniq A" "forest nb l (ent mem1) p = forest nb l (ent mem) p + A"
    "\<And>x j. x < n \<Longrightarrow> j < 512 \<Longrightarrow> x \<notin># add_mset p (forest nb l (ent mem) p) + A \<Longrightarrow> ent mem1 x j = ent mem x j"
    "set (activate (buddy m1)) = set (activate (buddy m)) \<union> set_mset A"
    using assms(1) by (auto simp: grown_def)
  have b: "set_mset B \<subseteq> free_set (buddy m1)" "free_set (buddy m2) = free_set (buddy m1) - set_mset B"
    "uniq B" "forest nb l (ent mem2) p = forest nb l (ent mem1) p + B"
    "\<And>x j. x < n \<Longrightarrow> j < 512 \<Longrightarrow> x \<notin># add_mset p (forest nb l (ent mem1) p) + B \<Longrightarrow> ent mem2 x j = ent mem1 x j"
    "set (activate (buddy m2)) = set (activate (buddy m1)) \<union> set_mset B"
    "mm_inv n m2" "wf_forest nb l (ent mem2) p"
    using assms(2) by (auto simp: grown_def)
  have "uniq (A + B)" using a(2,3) b(1,3) by (intro uniq_plus) auto
  moreover have "ent mem2 x j = ent mem x j"
    if "x < n" "j < 512" "x \<notin># add_mset p (forest nb l (ent mem) p) + (A + B)" for x j
    using that a(5) [of x j] b(5) [of x j] a(4) by auto
  ultimately show ?thesis
    unfolding grown_def using a(1,2,4,6) b(1,2,4,6,7,8) by (auto simp: ac_simps)
qed

lemma tree_leaf:
  assumes "\<forall>j<512. es c j = 0"
  shows "tree l es c = {#c#} \<and> wf_tree l es c"
  using assms by (cases l) (auto simp: tree_forest forest_def wf_tree_forest wf_forest_def)

text \<open>
  If only subtree \<open>i\<close> of \<open>p\<close> changes, then the forest, its well-formedness and the paths
  through the other entries change accordingly.
\<close>

lemma forest_change:
  assumes "i < nb" "nb \<le> 512" "wf_forest nb l es p"
    and root: "\<And>j. j < 512 \<Longrightarrow> j \<noteq> i \<Longrightarrow> es' p j = es p j"
    and entry: "es' p i = pte c" "c < 2 ^ 32" "wf_tree l es' c"
    and rest: "\<And>j x k. j < nb \<Longrightarrow> j \<noteq> i \<Longrightarrow> es p j \<noteq> 0 \<Longrightarrow>
        x \<in># tree l es (child (es p j)) \<Longrightarrow> k < 512 \<Longrightarrow> es' x k = es x k"
    and grow: "tree l es' c = (if es p i = 0 then {#} else tree l es (child (es p i))) + new"
  shows "forest nb l es' p = forest nb l es p + new \<and> wf_forest nb l es' p \<and>
    (\<forall>j js. j < nb \<and> j \<noteq> i \<and> length js = l \<and> (\<forall>k \<in> set js. k < 512) \<longrightarrow>
       frame_of es' (j # js) p = frame_of es (j # js) p)"
proof -
  have sub: "tree l es' (child (es p j)) = tree l es (child (es p j)) \<and>
      (wf_tree l es (child (es p j)) \<longrightarrow> wf_tree l es' (child (es p j))) \<and>
      (\<forall>is. length is = l \<and> (\<forall>i \<in> set is. i < 512) \<longrightarrow>
         frame_of es' is (child (es p j)) = frame_of es is (child (es p j)))"
    if "j < nb" "j \<noteq> i" "es p j \<noteq> 0" for j
    by (rule tree_cong) (use rest that in blast)
  have same: "es' p j = es p j" if "j < nb" "j \<noteq> i" for j using root that assms(2) by simp
  have "(\<Sum>j\<in>{..<nb} - {i}. if es' p j = 0 then {#} else tree l es' (child (es' p j))) =
      (\<Sum>j\<in>{..<nb} - {i}. if es p j = 0 then {#} else tree l es (child (es p j)))"
    using same sub by (intro sum.cong) auto
  then have "forest nb l es' p = forest nb l es p + new"
    using grow entry by (simp add: forest_split [OF assms(1)] ac_simps)
  moreover have "wf_forest nb l es' p"
    unfolding wf_forest_def
  proof (intro allI impI)
    fix j assume j: "j < nb" "es' p j \<noteq> 0"
    show "\<exists>c<2 ^ 32. es' p j = pte c \<and> wf_tree l es' c"
    proof (cases "j = i")
      case False
      then obtain d where "d < 2 ^ 32" "es p j = pte d" "wf_tree l es d"
        using assms(3) j same [of j] by (auto simp: wf_forest_def)
      then show ?thesis using sub [of j] same [of j] j False by auto
    qed (use entry in auto)
  qed
  moreover have "frame_of es' (j # js) p = frame_of es (j # js) p"
    if "j < nb" "j \<noteq> i" "length js = l" "\<forall>k \<in> set js. k < 512" for j js
    using that sub [of j] same [of j] by auto
  ultimately show ?thesis by blast
qed

lemma map_level_fresh:
  assumes ok: "pt_ok n nb l p m mem" and i: "i < nb" "nb \<le> 512" and free: "free_set (buddy m) \<noteq> {}"
    and empty: "ent mem p i = 0"
  shows "\<exists>c m' mem'. map_level (page_addr p) (of_nat i) 7 (m, mem) = Some (page_addr c, m', mem') \<and>
    grown n nb l p m mem m' mem' {#c#} \<and> c < 2 ^ 32 \<and> ent mem' p i = pte c \<and>
    (\<forall>j<512. ent mem' c j = 0) \<and>
    (\<forall>j js. j < nb \<and> j \<noteq> i \<and> length js = l \<and> (\<forall>k \<in> set js. k < 512) \<longrightarrow>
       frame_of (ent mem') (j # js) p = frame_of (ent mem) (j # js) p)"
proof -
  note d = pt_okD [OF ok]
  obtain c m' where z: "get_zeroed_page GFP_KERNEL (m, mem) =
      Some (page_addr c, m', memset (page_addr c) 0 PAGE_SIZE mem)"
    and c: "c < n" "c \<in> free_set (buddy m)" "free_set (buddy m') = free_set (buddy m) - {c}"
      "activate (buddy m') = c # activate (buddy m)" "mm_inv n m'"
    using get_zeroed_page_got [OF d(1) free, of GFP_KERNEL mem] by blast
  define mem' where "mem' = (memset (page_addr c) 0 PAGE_SIZE mem)(slot p i := pte c)"
  have p: "p < n" "p \<noteq> c" using d(2) c(2) by (auto simp: owned_def)
  have ent': "ent mem' x j = (if x = p \<and> j = i then pte c else if x = c then 0 else ent mem x j)"
    if "x < n" "j < 512" for x j
    using that p(1) c(1) d(6) i unfolding mem'_def by (simp add: ent_update ent_memset)
  have leaf: "\<forall>j<512. ent mem' c j = 0" using ent' c(1) p(2) by auto
  have rest: "ent mem' x k = ent mem x k"
    if "j < nb" "ent mem p j \<noteq> 0" "x \<in># tree l (ent mem) (child (ent mem p j))" "k < 512" for j x k
  proof -
    have "x \<in># forest nb l (ent mem) p" using subtree_in_forest that mset_subset_eqD by metis
    then have "owned n m x" "x \<noteq> p" using d(3) by auto
    then show ?thesis using ent' [of x k] that(4) c(2) by (auto simp: owned_def)
  qed
  have "forest nb l (ent mem') p = forest nb l (ent mem) p + {#c#} \<and> wf_forest nb l (ent mem') p \<and>
    (\<forall>j js. j < nb \<and> j \<noteq> i \<and> length js = l \<and> (\<forall>k \<in> set js. k < 512) \<longrightarrow>
       frame_of (ent mem') (j # js) p = frame_of (ent mem) (j # js) p)"
    by (rule forest_change [OF i d(5), where c = c])
       (use ent' p c(1) d(6) i empty tree_leaf [of "ent mem'" c l, OF leaf] rest in auto)
  moreover have "map_level (page_addr p) (of_nat i) 7 (m, mem) = Some (page_addr c, m', mem')"
  proof -
    have "page_addr p \<noteq> 0" using p(1) d(6) by simp
    moreover have "mem (page_addr p + 8 * of_nat i) = 0" using empty by (simp add: ent_def slot_def)
    ultimately show ?thesis by (simp add: map_level_def z mem'_def slot_def pte_def)
  qed
  moreover have "ent mem' p i = pte c" "c < 2 ^ 32" using ent' [of p i] p i c(1) d(6) by auto
  moreover have "ent mem' x j = ent mem x j" if "x < n" "j < 512" "x \<noteq> p" "x \<noteq> c" for x j
    using ent' that by simp
  ultimately show ?thesis
    using c leaf by (intro exI [of _ c] exI [of _ m'] exI [of _ mem'])
      (auto simp: grown_def uniq_def)
qed

lemma map_level_present:
  assumes ok: "pt_ok n nb l p m mem" and i: "i < nb" and full: "ent mem p i \<noteq> 0"
  shows "\<exists>c. map_level (page_addr p) (of_nat i) 7 (m, mem) = Some (page_addr c, m, mem) \<and>
    c < 2 ^ 32 \<and> ent mem p i = pte c"
proof -
  note d = pt_okD [OF ok]
  obtain c where c: "c < 2 ^ 32" "ent mem p i = pte c" using d(5) i full by (auto simp: wf_forest_def)
  have "page_addr p \<noteq> 0" using d(2,6) by (simp add: owned_def)
  moreover have "mem (page_addr p + 8 * of_nat i) = pte c" using c by (simp add: ent_def slot_def)
  ultimately show ?thesis using c to_vir_pte [of c] by (auto simp: map_level_def)
qed

lemma pt_ok_child:
  assumes ok: "pt_ok n nb (Suc l) p m mem" and i: "i < nb" "ent mem p i = pte c" "c < 2 ^ 32"
  shows "pt_ok n 512 l c m mem"
proof -
  note d = pt_okD [OF ok]
  have sub: "tree (Suc l) (ent mem) c \<subseteq># forest nb (Suc l) (ent mem) p"
    using subtree_in_forest [of i nb "ent mem" p "Suc l"] i by simp
  have "wf_tree (Suc l) (ent mem) c"
    using d(5) i pte_nonzero child_pte unfolding wf_forest_def by metis
  moreover have "uniq (tree (Suc l) (ent mem) c)" using d(4) sub by (rule uniq_mono)
  moreover have "owned n m x" if "x \<in># tree (Suc l) (ent mem) c" for x
    using that d(3) sub mset_subset_eqD by metis
  ultimately show ?thesis using d(1) by (simp add: pt_ok_def tree_forest wf_tree_forest)
qed

lemma grown_lift:
  assumes ok: "pt_ok n nb (Suc l) p m mem" and i: "i < nb" "nb \<le> 512" "ent mem p i = pte c" "c < 2 ^ 32"
    and g: "grown n 512 l c m mem m' mem' new"
  shows "grown n nb (Suc l) p m mem m' mem' new" "ent mem' p i = pte c"
    "\<forall>j js. j < nb \<and> j \<noteq> i \<and> length js = Suc l \<and> (\<forall>k \<in> set js. k < 512) \<longrightarrow>
       frame_of (ent mem') (j # js) p = frame_of (ent mem) (j # js) p"
proof -
  note d = pt_okD [OF ok]
  have gd: "set_mset new \<subseteq> free_set (buddy m)" "wf_forest 512 l (ent mem') c"
    "forest 512 l (ent mem') c = forest 512 l (ent mem) c + new"
    and frame: "\<And>x j. x < n \<Longrightarrow> j < 512 \<Longrightarrow> x \<notin># tree (Suc l) (ent mem) c \<Longrightarrow> x \<notin># new \<Longrightarrow>
      ent mem' x j = ent mem x j"
    using g by (auto simp: grown_def tree_forest)
  define sub where "sub j = (if ent mem p j = 0 then {#} else tree (Suc l) (ent mem) (child (ent mem p j)))" for j
  have split: "forest nb (Suc l) (ent mem) p = tree (Suc l) (ent mem) c + sum sub ({..<nb} - {i})"
    using forest_split [OF i(1), of "Suc l" "ent mem" p] i(3,4) unfolding sub_def by simp
  have p: "p < n" "p \<notin># tree (Suc l) (ent mem) c" "p \<notin># new"
    using d(2,3) split gd(1) by (auto simp: owned_def)
  then have root: "ent mem' p j = ent mem p j" if "j < 512" for j using frame that by blast
  have rest: "ent mem' x k = ent mem x k"
    if j: "j < nb" "j \<noteq> i" "ent mem p j \<noteq> 0" "x \<in># tree (Suc l) (ent mem) (child (ent mem p j))" "k < 512"
    for j x k
  proof -
    have "sub j \<subseteq># sum sub ({..<nb} - {i})" using j by (intro mset_subset_sum) auto
    then have x: "x \<in># sum sub ({..<nb} - {i})"
      using j(3,4) by (auto simp: sub_def dest: mset_subset_eqD)
    then have "x \<notin># tree (Suc l) (ent mem) c"
      using uniq_disjoint [OF d(4) [unfolded split], of x] by blast
    moreover have "owned n m x" using x d(3) split by simp
    ultimately show ?thesis using frame [of x k] j(5) gd(1) by (auto simp: owned_def)
  qed
  have "forest nb (Suc l) (ent mem') p = forest nb (Suc l) (ent mem) p + new \<and>
      wf_forest nb (Suc l) (ent mem') p \<and>
      (\<forall>j js. j < nb \<and> j \<noteq> i \<and> length js = Suc l \<and> (\<forall>k \<in> set js. k < 512) \<longrightarrow>
         frame_of (ent mem') (j # js) p = frame_of (ent mem) (j # js) p)"
    by (rule forest_change [OF i(1,2) d(5), where c = c])
       (use root i gd rest in \<open>auto simp: wf_tree_forest tree_forest\<close>)
  moreover show "ent mem' p i = pte c" using root i by simp
  moreover have "x \<notin># tree (Suc l) (ent mem) c" if "x \<notin># add_mset p (forest nb (Suc l) (ent mem) p) + new" for x
    using that split by simp
  ultimately show "grown n nb (Suc l) p m mem m' mem' new"
    "\<forall>j js. j < nb \<and> j \<noteq> i \<and> length js = Suc l \<and> (\<forall>k \<in> set js. k < 512) \<longrightarrow>
       frame_of (ent mem') (j # js) p = frame_of (ent mem) (j # js) p"
    using g frame by (auto simp: grown_def)
qed

section \<open>Mapping a page\<close>

fun map_walk :: "nat list \<Rightarrow> u64 \<Rightarrow> mm_state \<times> qmem \<Rightarrow> (u64 \<times> mm_state \<times> qmem) option" where
  "map_walk [] table st = Some (table, st)"
| "map_walk (i # is) table st =
     Option.bind (map_level table (of_nat i) 7 st) (\<lambda>(next, st). map_walk is next st)"

lemma map_level_ok:
  assumes ok: "pt_ok n nb l p m mem" and i: "i < nb" "nb \<le> 512" and free: "free_set (buddy m) \<noteq> {}"
  shows "\<exists>c m' mem' new. map_level (page_addr p) (of_nat i) 7 (m, mem) = Some (page_addr c, m', mem') \<and>
    grown n nb l p m mem m' mem' new \<and> size new \<le> 1 \<and> c < 2 ^ 32 \<and> ent mem' p i = pte c \<and>
    (\<forall>j js. j < nb \<and> length js = l \<and> (\<forall>k \<in> set js. k < 512) \<and> (j \<noteq> i \<or> js \<noteq> []) \<longrightarrow>
       frame_of (ent mem') (j # js) p = frame_of (ent mem) (j # js) p)"
proof (cases "ent mem p i = 0")
  case True
  from map_level_fresh [OF ok i free True] obtain c m' mem' where
    c: "map_level (page_addr p) (of_nat i) 7 (m, mem) = Some (page_addr c, m', mem')"
      "grown n nb l p m mem m' mem' {#c#}" "c < 2 ^ 32" "ent mem' p i = pte c" "\<forall>j<512. ent mem' c j = 0"
    and others: "\<forall>j js. j < nb \<and> j \<noteq> i \<and> length js = l \<and> (\<forall>k \<in> set js. k < 512) \<longrightarrow>
      frame_of (ent mem') (j # js) p = frame_of (ent mem) (j # js) p" by blast
  have "frame_of (ent mem') (i # js) p = frame_of (ent mem) (i # js) p"
    if "js \<noteq> []" "\<forall>k \<in> set js. k < 512" for js
    using that True c(3-5) by (cases js) auto
  with others have "\<forall>j js. j < nb \<and> length js = l \<and> (\<forall>k \<in> set js. k < 512) \<and> (j \<noteq> i \<or> js \<noteq> []) \<longrightarrow>
      frame_of (ent mem') (j # js) p = frame_of (ent mem) (j # js) p" by metis
  moreover have "size {#c#} \<le> 1" by simp
  ultimately show ?thesis using c by blast
next
  case False
  from map_level_present [OF ok i(1) False] grown_refl [OF ok] show ?thesis
    by (metis le_zero_eq size_empty zero_le_one)
qed

lemma card_set_mset_le: "card (set_mset M) \<le> size M"
  by (induction M) (auto simp: card_insert_if)

lemma grown_card:
  assumes "grown n nb l p m mem m' mem' new" "finite (free_set (buddy m))" "size new \<le> k"
  shows "card (free_set (buddy m)) - k \<le> card (free_set (buddy m'))"
proof -
  have "free_set (buddy m') = free_set (buddy m) - set_mset new" "set_mset new \<subseteq> free_set (buddy m)"
    using assms(1) by (auto simp: grown_def)
  moreover have "card (set_mset new) \<le> size new" by (rule card_set_mset_le)
  ultimately show ?thesis using assms(2,3) by (simp add: card_Diff_subset)
qed

lemma map_walk_ok:
  assumes "pt_ok n nb (length is) p m mem" "i < nb" "nb \<le> 512" "\<forall>k \<in> set is. k < 512"
    "length is < card (free_set (buddy m))"
  shows "\<exists>q m' mem' new. map_walk (i # is) (page_addr p) (m, mem) = Some (page_addr q, m', mem') \<and>
    grown n nb (length is) p m mem m' mem' new \<and> q < 2 ^ 32 \<and> frame_of (ent mem') (i # is) p = Some q \<and>
    (\<forall>j js. j < nb \<and> length js = length is \<and> (\<forall>k \<in> set js. k < 512) \<and> j # js \<noteq> i # is \<longrightarrow>
       frame_of (ent mem') (j # js) p = frame_of (ent mem) (j # js) p)"
  using assms
proof (induction "is" arbitrary: nb p m mem i)
  case Nil
  have "free_set (buddy m) \<noteq> {}" using Nil(5) by auto
  from map_level_ok [OF Nil(1-3) this] obtain c m' mem' new where
    "map_level (page_addr p) (of_nat i) 7 (m, mem) = Some (page_addr c, m', mem')"
    "grown n nb 0 p m mem m' mem' new" "c < 2 ^ 32" "ent mem' p i = pte c"
    "\<forall>j js. j < nb \<and> length js = 0 \<and> (\<forall>k \<in> set js. k < 512) \<and> (j \<noteq> i \<or> js \<noteq> []) \<longrightarrow>
       frame_of (ent mem') (j # js) p = frame_of (ent mem) (j # js) p" by auto
  then show ?case
    by (intro exI [of _ c] exI [of _ m'] exI [of _ mem'] exI [of _ new]) (auto simp del: frame_of.simps(2) simp: frame_of.simps(2) [of _ _ "[]"])
next
  case (Cons i2 "is")
  note ok = Cons.prems(1) [simplified]
  have "free_set (buddy m) \<noteq> {}" using Cons.prems(5) by auto
  from map_level_ok [OF ok Cons.prems(2,3) this] obtain c m1 mem1 new1 where
    c: "map_level (page_addr p) (of_nat i) 7 (m, mem) = Some (page_addr c, m1, mem1)"
      "grown n nb (Suc (length is)) p m mem m1 mem1 new1" "size new1 \<le> 1" "c < 2 ^ 32" "ent mem1 p i = pte c"
    and keep1: "\<forall>j js. j < nb \<and> length js = Suc (length is) \<and> (\<forall>k \<in> set js. k < 512) \<and> (j \<noteq> i \<or> js \<noteq> []) \<longrightarrow>
      frame_of (ent mem1) (j # js) p = frame_of (ent mem) (j # js) p" by blast
  note ok1 = grown_pt_ok [OF ok c(2)]
  have "finite (free_set (buddy m))" using Cons.prems(5) by (intro card_ge_0_finite) simp
  from grown_card [OF c(2) this c(3)] have card1: "length is < card (free_set (buddy m1))"
    using Cons.prems(5) by simp
  from Cons.IH [OF pt_ok_child [OF ok1 Cons.prems(2) c(5,4)], of i2] Cons.prems(4) card1
  obtain q m2 mem2 new2 where
    q: "map_walk (i2 # is) (page_addr c) (m1, mem1) = Some (page_addr q, m2, mem2)"
      "grown n 512 (length is) c m1 mem1 m2 mem2 new2" "q < 2 ^ 32" "frame_of (ent mem2) (i2 # is) c = Some q"
    and keep2: "\<forall>j js. j < 512 \<and> length js = length is \<and> (\<forall>k \<in> set js. k < 512) \<and> j # js \<noteq> i2 # is \<longrightarrow>
      frame_of (ent mem2) (j # js) c = frame_of (ent mem1) (j # js) c" by auto
  note lift = grown_lift [OF ok1 Cons.prems(2,3) c(5,4) q(2)]
  have "map_walk (i # i2 # is) (page_addr p) (m, mem) = Some (page_addr q, m2, mem2)"
    using c(1) q(1) by (subst map_walk.simps(2)) simp
  moreover have "frame_of (ent mem2) (i # i2 # is) p = Some q"
    using lift(2) c(4) q(4) by simp
  moreover have "frame_of (ent mem2) (j # js) p = frame_of (ent mem) (j # js) p"
    if j: "j < nb" "length js = Suc (length is)" "\<forall>k \<in> set js. k < 512" "j # js \<noteq> i # i2 # is" for j js
  proof -
    have "js \<noteq> []" using j(2) by auto
    then have 1: "frame_of (ent mem1) (j # js) p = frame_of (ent mem) (j # js) p" using keep1 j by blast
    have "frame_of (ent mem2) (j # js) p = frame_of (ent mem1) (j # js) p"
    proof (cases "j = i")
      case True
      obtain k ks where "js = k # ks" using \<open>js \<noteq> []\<close> by (cases js) auto
      then show ?thesis using True keep2 j lift(2) c(4,5) by simp
    qed (use lift(3) j in blast)
    with 1 show ?thesis by simp
  qed
  ultimately show ?case
    using grown_trans [OF c(2) lift(1)] q(3)
    by (intro exI [of _ q] exI [of _ m2] exI [of _ mem2] exI [of _ "new1 + new2"])
       (simp del: frame_of.simps map_walk.simps)
qed

section \<open>Indices and offsets of an address\<close>

lemma and_frame: "x AND - push_bit 12 1 = PAGE_LOWER_ALIGN x"
proof -
  have "x AND NOT (mask 12) = push_bit 12 (drop_bit 12 x)"
    by (rule bit_word_eqI) (auto simp: bit_simps)
  also have "\<dots> = PAGE_LOWER_ALIGN x"
    by (simp add: push_bit_eq_mult drop_bit_eq_div PAGE_LOWER_ALIGN_def lower_div_def PAGE_SIZE_def)
  finally show ?thesis unfolding minus_push_bit_12 .
qed

lemma frame_to_vir: "to_vir e AND - push_bit 12 1 = to_vir (e AND - push_bit 12 1)"
proof -
  have nat: "((a + 4096 * k) mod (4096 * M)) div 4096 * 4096 = (a div 4096 * 4096 + 4096 * k) mod (4096 * M)"
    for a k M :: nat
  proof -
    have "((a + 4096 * k) mod (4096 * M)) div 4096 = (a div 4096 + k) mod M"
      by (simp add: mod_mult2_eq add.commute)
    then show ?thesis
      by (simp add: mult.commute [of _ 4096] mult_mod_right distrib_left)
  qed
  have K: "unat KERNEL_OFFSET = 4096 * 4503565267632128" by (simp add: KERNEL_OFFSET_def)
  have M: "(2::nat) ^ 64 = 4096 * 2 ^ 52" by simp
  show ?thesis
    unfolding and_frame word_unat_eq_iff unat_PAGE_LOWER_ALIGN to_vir_def unat_word_ariths(1) K
    using nat [of "unat e" 4503565267632128 "2 ^ 52"] by (simp add: M)
qed

lemma word_mask: "(x :: u64) AND (push_bit k 1 - 1) = take_bit k x"
  by (simp add: push_bit_eq_mult take_bit_eq_mask mask_eq_exp_minus_1)

lemma table_index:
  assumes "K = k + 9" "K < 64"
  shows "take_bit K (x :: u64) div push_bit k 1 = of_nat (unat x div 2 ^ k mod 512)"
proof -
  have eq: "take_bit K x div push_bit k 1 = drop_bit k (take_bit K x)"
    by (simp add: push_bit_eq_mult drop_bit_eq_div)
  have "unat (drop_bit k (take_bit K x)) = unat x div 2 ^ k mod 512"
    using assms by (simp add: unat_drop_bit_eq unsigned_take_bit_eq drop_bit_take_bit)
      (simp add: take_bit_eq_mod drop_bit_eq_div)
  then show ?thesis unfolding eq by (metis of_nat_unat ucast_id)
qed

definition path :: "u64 \<Rightarrow> nat list" where
  "path u = [unat u div 2 ^ 39 mod 512, unat u div 2 ^ 30 mod 512, unat u div 2 ^ 21 mod 512,
     unat u div 2 ^ 12 mod 512]"

lemma bind_same: "Option.bind m (\<lambda>(a, b). Some (a, b)) = m"
  by (cases m) simp_all

lemma map_page_walk: "map_page pgd u st = map_walk (path u) pgd st"
proof -
  have nested: "take_bit 39 (take_bit 48 u) = take_bit 39 u" "take_bit 30 (take_bit 39 u) = take_bit 30 u"
    "take_bit 21 (take_bit 30 u) = take_bit 21 u" by simp_all
  have ind: "(u AND (push_bit 48 1 - 1)) div push_bit 39 1 = of_nat (unat u div 2 ^ 39 mod 512)"
    "((u AND (push_bit 48 1 - 1)) AND (push_bit 39 1 - 1)) div push_bit 30 1 = of_nat (unat u div 2 ^ 30 mod 512)"
    "(((u AND (push_bit 48 1 - 1)) AND (push_bit 39 1 - 1)) AND (push_bit 30 1 - 1)) div push_bit 21 1 =
      of_nat (unat u div 2 ^ 21 mod 512)"
    "((((u AND (push_bit 48 1 - 1)) AND (push_bit 39 1 - 1)) AND (push_bit 30 1 - 1)) AND (push_bit 21 1 - 1))
      div push_bit 12 1 = of_nat (unat u div 2 ^ 12 mod 512)"
    unfolding word_mask nested by (rule table_index; simp)+
  have last: "(if pt = 0 then None
      else if snd st (pt + 8 * i) = 0 then
        Option.bind (get_zeroed_page GFP_KERNEL st) (\<lambda>(page, m, mem). Some (page, m, mem(pt + 8 * i := to_phy page OR 7)))
      else Some (to_vir (snd st (pt + 8 * i)) AND - push_bit 12 1, st)) = map_level pt i 7 st" for pt i st
    by (cases st) (simp only: map_level_def frame_to_vir case_prod_conv snd_conv)
  show ?thesis
    unfolding map_page_def Let_def ind path_def map_walk.simps last bind_same
      PML4E_ATTR_def PDPTE_ATTR_def PDE_ATTR_def PTE_ATTR_def by (rule refl)
qed

lemma user_address_low: "unat u < 2 ^ 48 \<Longrightarrow> (u :: u64) AND push_bit 48 0xffff = 0"
proof -
  assume "unat u < 2 ^ 48"
  then have low: "take_bit 48 u = u" by (simp add: word_unat_eq_iff unsigned_take_bit_eq take_bit_nat_eq_self)
  have clear: "take_bit k x AND push_bit k y = 0" for x y :: u64 and k
    by (rule bit_word_eqI) (auto simp: bit_simps)
  show ?thesis using clear [of 48 u "0xffff"] unfolding low .
qed

lemma path_bound: "i \<in> set (path u) \<Longrightarrow> i < 512"
  by (auto simp: path_def)

lemma path_first: "unat u < 2 ^ 47 \<Longrightarrow> hd (path u) < 256"
  by (simp add: path_def) 

lemma path_digits:
  "path u = (let b = unat u div 4096 in
     [b div 512 div 512 div 512 mod 512, b div 512 div 512 mod 512, b div 512 mod 512, b mod 512])"
  unfolding path_def Let_def div_mult2_eq [symmetric] by simp

lemma path_eq_iff:
  assumes "unat u < 2 ^ 48" "unat v < 2 ^ 48"
  shows "path u = path v \<longleftrightarrow> unat u div 4096 = unat v div 4096"
proof
  have eqI: "a div 512 = b div 512 \<Longrightarrow> a mod 512 = b mod 512 \<Longrightarrow> a = b" for a b :: nat
    by (metis div_mult_mod_eq)
  have top: "a div 4096 div 512 div 512 div 512 mod 512 = a div 4096 div 512 div 512 div 512"
    if "a < 2 ^ 48" for a :: nat
    using that unfolding div_mult2_eq [symmetric] by (simp add: less_mult_imp_div_less)
  assume "path u = path v"
  then have d: "unat u div 4096 div 512 div 512 div 512 = unat v div 4096 div 512 div 512 div 512"
    "unat u div 4096 div 512 div 512 mod 512 = unat v div 4096 div 512 div 512 mod 512"
    "unat u div 4096 div 512 mod 512 = unat v div 4096 div 512 mod 512"
    "unat u div 4096 mod 512 = unat v div 4096 mod 512"
    unfolding path_digits Let_def top [OF assms(1)] top [OF assms(2)] by blast+
  show "unat u div 4096 = unat v div 4096" using eqI [OF eqI [OF eqI [OF d(1,2)] d(3)] d(4)] .
qed (simp add: path_digits)

end
