(* ===== verification/DirectMap.thy ===== *)
theory DirectMap
  imports PageTree
begin

text \<open>
  \<open>setup_page_table\<close> of \<open>src/src/mm/page.c\<close> builds the kernel's page tables as four arrays
  laid out one after the other.  The theory shows that the processor's walk through them maps both
  the low half and the half at \<open>KERNEL_OFFSET\<close> to physical memory, address by address.
\<close>

section \<open>The processor's walk\<close>

text \<open>
  The four-level walk of the processor, with the tables read through the direct map.  The result is
  \<open>None\<close> when an entry on the way is not present.
\<close>

definition present :: "u64 \<Rightarrow> bool" where
  "present e \<longleftrightarrow> bit e 0"

fun mmu_walk :: "qmem \<Rightarrow> nat list \<Rightarrow> u64 \<Rightarrow> u64 option" where
  "mmu_walk mem [] frame = Some frame"
| "mmu_walk mem (i # is) frame =
     (let e = mem (to_vir frame + 8 * of_nat i)
      in if present e then mmu_walk mem is (e AND - push_bit 12 1) else None)"

definition translate :: "qmem \<Rightarrow> u64 \<Rightarrow> u64 \<Rightarrow> u64 option" where
  "translate mem cr3 v = map_option (\<lambda>frame. frame + of_nat (unat v mod 4096)) (mmu_walk mem (path v) cr3)"

section \<open>Filling one array of entries\<close>

definition within :: "u64 \<Rightarrow> nat \<Rightarrow> u64 \<Rightarrow> bool" where
  "within base len x \<longleftrightarrow> unat base \<le> unat x \<and> unat x < unat base + len"

lemma unat_entry: "unat e + 8 * n \<le> 2 ^ 64 \<Longrightarrow> j < n \<Longrightarrow> unat (e + 8 * of_nat j :: u64) = unat e + 8 * j"
  by (simp add: unat_word_ariths unat_of_nat)

lemma entry_within: "unat e + 8 * n \<le> 2 ^ 64 \<Longrightarrow> j < n \<Longrightarrow> within e (8 * n) (e + 8 * of_nat j)"
  by (simp add: within_def unat_entry)

lemma memset_outside:
  assumes "\<not> within base len x" "unat n \<le> len" "unat base + len \<le> 2 ^ 64" "n \<noteq> 0"
  shows "memset base c n mem x = mem x"
proof -
  have "\<not> x - base < n"
    using assms unsigned_less [of x] unsigned_less [of base]
    by (auto simp: within_def word_less_nat_alt unat_sub_if_size word_size split: if_splits)
  then show ?thesis using assms(4) by (simp add: memset_eq)
qed

lemma fill_entries_outside:
  "unat e + 8 * n \<le> 2 ^ 64 \<Longrightarrow> \<not> within e (8 * n) x \<Longrightarrow> fill_entries n e a attr mem x = mem x"
proof (induction n arbitrary: e a mem)
  case (Suc n)
  have "x \<noteq> e" using Suc.prems(2) by (auto simp: within_def)
  show ?case
  proof (cases n)
    case (Suc k)
    then have e8: "unat (e + 8) = unat e + 8" using Suc.prems(1) by (simp add: unat_word_ariths)
    then have "\<not> within (e + 8) (8 * n) x" using Suc.prems(2) by (auto simp: within_def)
    then show ?thesis using Suc.IH [of "e + 8"] Suc.prems(1) e8 \<open>x \<noteq> e\<close> by simp
  qed (use \<open>x \<noteq> e\<close> in simp)
qed simp

lemma fill_entries_inside:
  "unat e + 8 * n \<le> 2 ^ 64 \<Longrightarrow> j < n \<Longrightarrow>
   fill_entries n e a attr mem (e + 8 * of_nat j) = to_phy (a + of_nat j * PAGE_SIZE) OR attr"
proof (induction n arbitrary: e a mem j)
  case (Suc n)
  show ?case
  proof (cases n)
    case 0
    then show ?thesis using Suc.prems by simp
  next
    case (Suc k)
    then have e8: "unat (e + 8) = unat e + 8" using Suc.prems(1) by (simp add: unat_word_ariths)
    show ?thesis
    proof (cases j)
      case 0
      then show ?thesis using fill_entries_outside [of "e + 8" n e] e8 Suc.prems(1) by (simp add: within_def)
    next
      case (Suc i)
      then show ?thesis using Suc.IH [of "e + 8" i] Suc.prems e8 by (simp add: algebra_simps)
    qed
  qed
qed simp

lemma fill_pml4_entries_miss:
  "unat e + 2048 + 8 * n \<le> 2 ^ 64 \<Longrightarrow>
   \<forall>j<n. unat x \<noteq> unat e + 8 * j \<and> unat x \<noteq> unat e + 2048 + 8 * j \<Longrightarrow>
   fill_pml4_entries n e a mem x = mem x"
proof (induction n arbitrary: e a mem)
  case (Suc n)
  have e8: "unat (e + 8) = unat e + 8" "unat (e + 2048) = unat e + 2048"
    using Suc.prems(1) by (simp_all add: unat_word_ariths)
  have miss: "unat x \<noteq> unat e + 8 * j \<and> unat x \<noteq> unat e + 2048 + 8 * j" if "j < Suc n" for j
    using Suc.prems(2) that by blast
  have "x \<noteq> e" "x \<noteq> e + 2048" using miss [of 0] e8 by auto
  moreover have "\<forall>j<n. unat x \<noteq> unat (e + 8) + 8 * j \<and> unat x \<noteq> unat (e + 8) + 2048 + 8 * j"
  proof (intro allI impI)
    fix j assume "j < n"
    then show "unat x \<noteq> unat (e + 8) + 8 * j \<and> unat x \<noteq> unat (e + 8) + 2048 + 8 * j"
      using miss [of "Suc j"] by (simp add: e8)
  qed
  ultimately show ?case using Suc.IH [of "e + 8"] Suc.prems(1) e8 by simp
qed simp

lemma fill_pml4_entries_hit:
  "unat e + 2048 + 8 * n \<le> 2 ^ 64 \<Longrightarrow> j < n \<Longrightarrow> n \<le> 256 \<Longrightarrow> unat x = unat e + 8 * j \<or> unat x = unat e + 2048 + 8 * j \<Longrightarrow>
   fill_pml4_entries n e a mem x = to_phy (a + of_nat j * PAGE_SIZE) OR PML4E_ATTR"
proof (induction n arbitrary: e a mem j)
  case (Suc n)
  have e8: "unat (e + 8) = unat e + 8" "unat (e + 2048) = unat e + 2048"
    using Suc.prems(1) by (simp_all add: unat_word_ariths)
  show ?case
  proof (cases j)
    case 0
    then have "x = e \<or> x = e + 2048" using Suc.prems(4) e8 by (auto simp: word_unat_eq_iff)
    moreover have "fill_pml4_entries n (e + 8) (a + PAGE_SIZE) mem' x = mem' x" for mem'
      using Suc.prems 0 e8 by (intro fill_pml4_entries_miss) auto
    ultimately show ?thesis using 0 by auto
  next
    case (Suc i)
    then show ?thesis
      using Suc.IH [of "e + 8" i] Suc.prems e8 by (simp add: algebra_simps)
  qed
qed simp

section \<open>Arrays of table pages\<close>

text \<open>
  An array of \<open>n\<close> entries that starts at frame \<open>t\<close> fills \<open>upper_div n 512\<close> frames; its entry
  \<open>j\<close> is entry \<open>j mod 512\<close> of frame \<open>t + j div 512\<close>.
\<close>

lemma page_addr_add: "page_addr t + of_nat k * PAGE_SIZE = page_addr (t + k)"
  by (simp add: page_addr_def to_vir_def algebra_simps)

lemma array_slot: "page_addr t + 8 * of_nat j = slot (t + j div 512) (j mod 512)"
proof -
  have "(of_nat j :: u64) = of_nat (j div 512 * 512 + j mod 512)" by simp
  also have "\<dots> = of_nat (j div 512) * 512 + of_nat (j mod 512)" by (simp only: of_nat_add of_nat_mult of_nat_numeral)
  finally have "8 * (of_nat j :: u64) = of_nat (j div 512) * PAGE_SIZE + 8 * of_nat (j mod 512)"
    by (simp add: PAGE_SIZE_def algebra_simps)
  then show ?thesis unfolding slot_def page_addr_add [symmetric] by (simp add: add.assoc)
qed

lemma slot_not_within:
  assumes "p < 2 ^ 32" "i < 512" "t + k \<le> 2 ^ 32" "p < t \<or> t + k \<le> p"
  shows "\<not> within (page_addr t) (4096 * k) (slot p i)"
proof (cases "k = 0")
  case False
  then have "t < 2 ^ 32" using assms(3) by simp
  then show ?thesis using assms by (auto simp: within_def unat_slot unat_page_addr)
qed (simp add: within_def)

lemma unat_table_bytes: "unat nr < 2 ^ 28 \<Longrightarrow> unat (table_bytes nr) = 4096 * upper_div (unat nr) 512"
proof -
  assume nr: "unat nr < 2 ^ 28"
  then have "upper_div (unat nr) 512 \<le> 2 ^ 19" by (intro upper_div_le) simp_all
  moreover have "unat (upper_div nr (ucast PRE_PAGE_ENTRY)) = upper_div (unat nr) 512"
    using unat_upper_div [of "ucast PRE_PAGE_ENTRY" nr] by (simp add: PRE_PAGE_ENTRY_def)
  ultimately show ?thesis
    by (simp add: table_bytes_def unsigned_ucast_eq unat_word_ariths PAGE_SIZE_def take_bit_eq_mod)
qed

text \<open>What one of \<open>fill_pdpt\<close>, \<open>fill_pd\<close> and \<open>fill_pt\<close> does.\<close>

definition fill_array :: "u64 \<Rightarrow> u64 \<Rightarrow> u32 \<Rightarrow> qmem \<Rightarrow> qmem" where
  "fill_array base addr nr mem = fill_entries (unat nr) base addr 7 (memset base 0 (table_bytes nr) mem)"

lemma fill_array_eq: "fill_pdpt = fill_array" "fill_pd = fill_array" "fill_pt = fill_array"
  by (simp_all add: fun_eq_iff fill_array_def fill_pdpt_def fill_pd_def fill_pt_def
      PDPTE_ATTR_def PDE_ATTR_def PTE_ATTR_def)

lemma array_room:
  assumes "t + upper_div n 512 \<le> 2 ^ 32" "0 < n"
  shows "unat (page_addr t) + 8 * n \<le> 2 ^ 64" "unat (page_addr t) + 4096 * upper_div n 512 \<le> 2 ^ 64"
    "8 * n \<le> 4096 * upper_div n 512"
proof -
  have up: "n \<le> upper_div n 512 * 512" by (rule upper_div_nat_ge) simp
  then show "8 * n \<le> 4096 * upper_div n 512" by simp
  have "t < 2 ^ 32" using assms up by (cases "upper_div n 512") auto
  then show *: "unat (page_addr t) + 4096 * upper_div n 512 \<le> 2 ^ 64"
    using assms(1) by (simp add: unat_page_addr)
  then show "unat (page_addr t) + 8 * n \<le> 2 ^ 64" using up by simp
qed

lemma fill_array_outside:
  assumes "t + upper_div (unat nr) 512 \<le> 2 ^ 32" "0 < unat nr" "unat nr < 2 ^ 28"
    "p < 2 ^ 32" "i < 512" "p < t \<or> t + upper_div (unat nr) 512 \<le> p"
  shows "ent (fill_array (page_addr t) addr nr mem) p i = ent mem p i"
proof -
  note room = array_room [OF assms(1,2)]
  have out: "\<not> within (page_addr t) (4096 * upper_div (unat nr) 512) (slot p i)"
    using assms by (intro slot_not_within)
  then have "\<not> within (page_addr t) (8 * unat nr) (slot p i)" using room(3) by (auto simp: within_def)
  moreover have "table_bytes nr \<noteq> 0" using unat_table_bytes [OF assms(3)] room(3) assms(2) by auto
  ultimately show ?thesis
    using out room unat_table_bytes [OF assms(3)]
    by (simp add: ent_def fill_array_def fill_entries_outside memset_outside)
qed

lemma fill_array_inside:
  assumes "t + upper_div (unat nr) 512 \<le> 2 ^ 32" "j < unat nr"
  shows "ent (fill_array (page_addr t) (page_addr c) nr mem) (t + j div 512) (j mod 512) = pte (c + j)"
proof -
  have "0 < unat nr" using assms(2) by simp
  note room = array_room [OF assms(1) this]
  show ?thesis
    unfolding ent_def array_slot [symmetric] fill_array_def fill_entries_inside [OF room(1) assms(2)]
    by (simp add: page_addr_add pte_def)
qed

lemma fill_pml4_inside:
  assumes "b < 2 ^ 32" "j < unat nr" "unat nr \<le> 256"
  shows "ent (fill_pml4 (page_addr b) (page_addr c) nr mem) b j = pte (c + j)"
    "ent (fill_pml4 (page_addr b) (page_addr c) nr mem) b (256 + j) = pte (c + j)"
proof -
  have room: "unat (page_addr b) + 2048 + 8 * unat nr \<le> 2 ^ 64"
    using assms(1,3) by (simp add: unat_page_addr)
  have "unat (slot b j) = unat (page_addr b) + 8 * j"
    "unat (slot b (256 + j)) = unat (page_addr b) + 2048 + 8 * j"
    using assms by (simp_all add: unat_slot unat_page_addr)
  then show "ent (fill_pml4 (page_addr b) (page_addr c) nr mem) b j = pte (c + j)"
    "ent (fill_pml4 (page_addr b) (page_addr c) nr mem) b (256 + j) = pte (c + j)"
    using fill_pml4_entries_hit [OF room assms(2,3)]
    by (simp_all add: ent_def fill_pml4_def page_addr_add pte_def PML4E_ATTR_def)
qed

lemma mmu_walk_step:
  assumes "ent mem p i = pte c"
  shows "mmu_walk mem (i # is) (of_nat p * PAGE_SIZE) = mmu_walk mem is (of_nat c * PAGE_SIZE)"
proof -
  have "mem (to_vir (of_nat p * PAGE_SIZE) + 8 * of_nat i) = pte c"
    using assms by (simp add: ent_def slot_def page_addr_def)
  moreover have "present (pte c)" by (simp add: present_def pte_def bit_or_iff)
  ultimately show ?thesis by (simp only: mmu_walk.simps Let_def if_True pte_frame)
qed

text \<open>Sizes of the four arrays for \<open>npte\<close> pages, and the frames they start at.\<close>

lemma array_sizes:
  fixes npte :: nat
  assumes "0 < npte" "npte < 2 ^ 28"
  defines "npde \<equiv> upper_div npte 512" and "npdpte \<equiv> upper_div (upper_div npte 512) 512"
    and "npml4e \<equiv> upper_div (upper_div (upper_div npte 512) 512) 512"
  shows "0 < npde" "npde \<le> 2 ^ 19" "0 < npdpte" "npdpte \<le> 2 ^ 10" "0 < npml4e" "npml4e \<le> 2"
    "upper_div npml4e 512 = 1"
proof -
  have pos: "0 < upper_div n 512" if "0 < n" for n :: nat
    using div_less_upper_div [of 512 0 n, OF _ that] by simp
  show p: "0 < npde" "0 < npdpte" "0 < npml4e" unfolding npde_def npdpte_def npml4e_def using assms(1) by (simp_all add: pos)
  show le: "npde \<le> 2 ^ 19" unfolding npde_def by (rule upper_div_le) (use assms(2) in simp_all)
  show le2: "npdpte \<le> 2 ^ 10"
    unfolding npdpte_def by (rule upper_div_le) (use le in \<open>simp_all add: npde_def\<close>)
  show le3: "npml4e \<le> 2"
    unfolding npml4e_def by (rule upper_div_le) (use le2 in \<open>simp_all add: npdpte_def\<close>)
  have "upper_div npml4e 512 \<le> 1" by (rule upper_div_le) (use le3 in simp_all)
  then show "upper_div npml4e 512 = 1" using pos [OF p(3)] by simp
qed

lemma page_addr_add_word: "page_addr t + w * PAGE_SIZE = page_addr (t + unat w)"
  using page_addr_add [of t "unat w"] by simp

lemma unat_ucast32: "unat (w :: u64) < 2 ^ 32 \<Longrightarrow> unat (ucast w :: u32) = unat w"
  by (simp add: unsigned_ucast_eq take_bit_nat_eq_self)

lemma fill_pml4_outside:
  assumes "b < 2 ^ 32" "unat nr \<le> 256" "p < 2 ^ 32" "p \<noteq> b" "i < 512"
  shows "ent (fill_pml4 (page_addr b) addr nr mem) p i = ent mem p i"
proof -
  have room: "unat (page_addr b) + 2048 + 8 * unat nr \<le> 2 ^ 64" using assms(1,2) by (simp add: unat_page_addr)
  have miss: "unat (slot p i) \<noteq> unat (page_addr b) + 8 * j" if "j < 512" for j
    using assms that slot_eq_iff [of p b i j]
    by (auto simp: unat_slot unat_page_addr word_unat_eq_iff)
  have "\<forall>j<unat nr. unat (slot p i) \<noteq> unat (page_addr b) + 8 * j \<and>
      unat (slot p i) \<noteq> unat (page_addr b) + 2048 + 8 * j"
  proof (intro allI impI)
    fix j assume "j < unat nr"
    then show "unat (slot p i) \<noteq> unat (page_addr b) + 8 * j \<and> unat (slot p i) \<noteq> unat (page_addr b) + 2048 + 8 * j"
      using miss [of j] miss [of "256 + j"] assms(2) by (simp add: add.assoc)
  qed
  from fill_pml4_entries_miss [OF room this]
  have "fill_pml4_entries (unat nr) (page_addr b) addr mem' (slot p i) = mem' (slot p i)" for mem' .
  then show ?thesis using ent_memset [of b p i mem] assms by (simp add: fill_pml4_def ent_def)
qed

lemma setup_entries:
  assumes "b < 2 ^ 31" "0 < npte" "npte < 2 ^ 28" "unat memsize div 4096 = npte"
  defines "npde \<equiv> upper_div npte 512" and "npdpte \<equiv> upper_div (upper_div npte 512) 512"
    and "npml4e \<equiv> upper_div (upper_div (upper_div npte 512) 512) 512"
  assumes "setup_page_table (page_addr b) memsize mem = (fin, mem', cr3)"
  shows "cr3 = of_nat b * PAGE_SIZE" "fin = page_addr (b + 1 + npml4e + npdpte + npde)"
    "j < npml4e \<Longrightarrow> ent mem' b j = pte (b + 1 + j) \<and> ent mem' b (256 + j) = pte (b + 1 + j)"
    "j < npdpte \<Longrightarrow> ent mem' (b + 1 + j div 512) (j mod 512) = pte (b + 1 + npml4e + j)"
    "j < npde \<Longrightarrow> ent mem' (b + 1 + npml4e + j div 512) (j mod 512) = pte (b + 1 + npml4e + npdpte + j)"
    "j < npte \<Longrightarrow> ent mem' (b + 1 + npml4e + npdpte + j div 512) (j mod 512) = pte j"
proof -
  note sz = array_sizes [OF assms(2,3), folded npde_def npdpte_def npml4e_def]
  define t3 t2 t1 where t: "t3 = b + 1" "t2 = t3 + npml4e" "t1 = t2 + npdpte"
  have E: "unat PRE_PAGE_ENTRY = 512" by (simp add: PRE_PAGE_ENTRY_def)
  define pte' pde' pdpte' pml4e' where w: "pte' = memsize div PAGE_SIZE" "pde' = upper_div pte' PRE_PAGE_ENTRY"
    "pdpte' = upper_div pde' PRE_PAGE_ENTRY" "pml4e' = upper_div pdpte' PRE_PAGE_ENTRY"
  have u: "unat pte' = npte" "unat pde' = npde" "unat pdpte' = npdpte" "unat pml4e' = npml4e"
    "unat (upper_div pml4e' PRE_PAGE_ENTRY) = 1"
    using E assms(4) sz(7)
    by (simp_all add: w unat_upper_div unat_div page_simps npde_def npdpte_def npml4e_def)
  define m4 m3 m2 where m: "m4 = fill_pml4 (page_addr b) (page_addr t3) (ucast pml4e') mem"
    "m3 = fill_array (page_addr t3) (page_addr t2) (ucast pdpte') m4"
    "m2 = fill_array (page_addr t2) (page_addr t1) (ucast pde') m3"
  have bases: "page_addr b + upper_div pml4e' PRE_PAGE_ENTRY * PAGE_SIZE = page_addr t3"
    "page_addr t3 + pml4e' * PAGE_SIZE = page_addr t2" "page_addr t2 + pdpte' * PAGE_SIZE = page_addr t1"
    "page_addr t1 + pde' * PAGE_SIZE = page_addr (t1 + npde)"
    using u by (simp_all add: page_addr_add_word t)
  have K: "KERNEL_OFFSET = page_addr 0" by (simp add: page_addr_def to_vir_def)
  have res: "fin = page_addr (t1 + npde)" "cr3 = to_phy (page_addr b)"
    "mem' = fill_array (page_addr t1) (page_addr 0) (ucast pte') m2"
    using assms(8) unfolding setup_page_table_def Let_def w [symmetric] bases fill_array_eq K m
    by simp_all
  show "cr3 = of_nat b * PAGE_SIZE" "fin = page_addr (b + 1 + npml4e + npdpte + npde)"
    by (simp_all add: res page_addr_def t)
  have c: "unat (ucast pml4e' :: u32) = npml4e" "unat (ucast pdpte' :: u32) = npdpte"
    "unat (ucast pde' :: u32) = npde" "unat (ucast pte' :: u32) = npte"
    using u sz assms(3) by (simp_all add: unat_ucast32)
  have up: "upper_div npdpte 512 = npml4e" "upper_div npde 512 = npdpte" "upper_div npte 512 = npde"
    by (simp_all add: npde_def npdpte_def npml4e_def)
  have room: "t1 + npde \<le> 2 ^ 32" using assms(1) sz(2,4,6) by (simp add: t)
  have out1: "ent mem' p i = ent m2 p i" if "p < t1" "i < 512" for p i
    unfolding res using that room sz assms(2,3) c up by (intro fill_array_outside) simp_all
  have out2: "ent m2 p i = ent m3 p i" if "p < t2" "i < 512" for p i
    unfolding m(3) using that room sz c up t(3) by (intro fill_array_outside) simp_all
  have out3: "ent m3 p i = ent m4 p i" if "p < t3" "i < 512" for p i
    unfolding m(2) using that room sz c up t by (intro fill_array_outside) simp_all
  show "ent mem' b j = pte (b + 1 + j) \<and> ent mem' b (256 + j) = pte (b + 1 + j)" if "j < npml4e"
    using that out1 [of b] out2 [of b] out3 [of b] fill_pml4_inside [of b j "ucast pml4e'" t3 mem]
      assms(1) sz(6) c(1) by (simp add: t m(1))
  have d: "j div 512 < n'" if "j < n" "upper_div n 512 = n'" for n n' :: nat
    using div_less_upper_div [OF _ that(1), of 512] that(2) by simp
  show "ent mem' (b + 1 + j div 512) (j mod 512) = pte (b + 1 + npml4e + j)" if "j < npdpte"
    using that d [OF that up(1)] out1 [of "t3 + j div 512" "j mod 512"] out2 [of "t3 + j div 512" "j mod 512"]
      fill_array_inside [of t3 "ucast pdpte'" j t2 m4] room c up by (simp add: t m(2))
  show "ent mem' (b + 1 + npml4e + j div 512) (j mod 512) = pte (b + 1 + npml4e + npdpte + j)" if "j < npde"
    using that d [OF that up(2)] out1 [of "t2 + j div 512" "j mod 512"]
      fill_array_inside [of t2 "ucast pde'" j t1 m3] room c up by (simp add: t m(3))
  show "ent mem' (b + 1 + npml4e + npdpte + j div 512) (j mod 512) = pte j" if "j < npte"
    using that fill_array_inside [of t1 "ucast pte'" j 0 m2] room c up by (simp add: t res(3))
qed

section \<open>The direct map\<close>

lemma frame_plus_offset: "of_nat (unat a div 4096) * PAGE_SIZE + of_nat (unat a mod 4096) = a"
proof -
  have "of_nat (unat a div 4096) * PAGE_SIZE + of_nat (unat a mod 4096) =
      (of_nat (unat a div 4096 * 4096 + unat a mod 4096) :: u64)"
    by (simp only: of_nat_add of_nat_mult PAGE_SIZE_def) simp
  then show ?thesis by simp
qed

lemma path_to_vir:
  assumes "unat a < 2 ^ 40"
  shows "path (to_vir a) = (256 + hd (path a)) # tl (path a)"
    "unat (to_vir a) mod 4096 = unat a mod 4096"
proof -
  define k where "k = unat a div 4096"
  have un: "unat (to_vir a) = 0xffff800000000000 + unat a"
    using assms by (simp add: to_vir_def KERNEL_OFFSET_def unat_word_ariths)
  then have k': "unat (to_vir a) div 4096 = k + 0xffff800000000" "unat (to_vir a) mod 4096 = unat a mod 4096"
    using mod_mult_self1 [of "unat a" "0xffff800000000" 4096] by (simp_all add: k_def add.commute)
  then show "unat (to_vir a) mod 4096 = unat a mod 4096" by simp
  have small: "k div 512 div 512 div 512 < 2" using assms
    unfolding k_def div_mult2_eq [symmetric] by (simp add: div_less_iff_less_mult)
  have step: "(k + 0xffff800000000) div 512 = k div 512 + 0x7fffc000000"
    "(k div 512 + 0x7fffc000000) div 512 = k div 512 div 512 + 0x3fffe0000"
    "(k div 512 div 512 + 0x3fffe0000) div 512 = k div 512 div 512 div 512 + 0x1ffff00"
    by simp_all
  have md: "(k + 0xffff800000000) mod 512 = k mod 512" "(k div 512 + 0x7fffc000000) mod 512 = k div 512 mod 512"
    "(k div 512 div 512 + 0x3fffe0000) mod 512 = k div 512 div 512 mod 512"
    "(k div 512 div 512 div 512 + 0x1ffff00) mod 512 = 256 + k div 512 div 512 div 512 mod 512"
    using small mod_mult_self1 [of k "0x7fffc000000" 512] mod_mult_self1 [of "k div 512" "0x3fffe0000" 512]
      mod_mult_self1 [of "k div 512 div 512" "0x1ffff00" 512]
      mod_mult_self1 [of "k div 512 div 512 div 512 + 256" "0xffff" 512]
    by (simp_all add: add.commute)
  show "path (to_vir a) = (256 + hd (path a)) # tl (path a)"
    unfolding path_digits Let_def k' step k_def [symmetric] md list.sel ..
qed

text \<open>
  C7.  \<open>setup_page_table\<close> for less than 1 TiB of memory, started at a page of the
  direct map, builds tables through which the processor translates every address of a whole page
  of physical memory to itself and its kernel virtual address to it.
\<close>

theorem setup_page_table_correct:
  assumes "b < 2 ^ 31" "unat memsize < 2 ^ 40" "unat a div 4096 < unat memsize div 4096"
    and "setup_page_table (page_addr b) memsize mem = (fin, mem', cr3)"
  shows "translate mem' cr3 a = Some a \<and> translate mem' cr3 (to_vir a) = Some a"
proof -
  define npte where "npte = unat memsize div 4096"
  define k where "k = unat a div 4096"
  have k: "k < npte" "0 < npte" "npte < 2 ^ 28"
    using assms(2,3) by (simp_all add: npte_def k_def div_less_iff_less_mult)
  note e = setup_entries [OF assms(1) k(2,3) npte_def [symmetric] assms(4)]
  note sz = array_sizes [OF k(2,3)]
  define j2 j3 j4 where j: "j2 = k div 512" "j3 = j2 div 512" "j4 = j3 div 512"
  have lt: "j2 < upper_div npte 512" "j3 < upper_div (upper_div npte 512) 512"
    "j4 < upper_div (upper_div (upper_div npte 512) 512) 512"
    using div_less_upper_div k(1) by (simp_all add: j)
  have "j4 mod 512 = j4" using lt(3) sz(6) by simp
  then have pa: "path a = [j4, j3 mod 512, j2 mod 512, k mod 512]" by (simp add: path_digits j k_def Let_def)
  have "unat a < 2 ^ 40" using k(1,3) unfolding k_def by (simp add: div_less_iff_less_mult)
  note pv = path_to_vir [OF this]
  note steps = mmu_walk_step [OF e(4) [OF lt(2), folded j(3)]] mmu_walk_step [OF e(5) [OF lt(1), folded j(2)]]
    mmu_walk_step [OF e(6) [OF k(1), folded j(1)]]
  have "mmu_walk mem' (path a) cr3 = Some (of_nat k * PAGE_SIZE)"
    "mmu_walk mem' (path (to_vir a)) cr3 = Some (of_nat k * PAGE_SIZE)"
    unfolding pv(1) pa list.sel e(1) using e(3) [OF lt(3)]
    by (simp_all only: mmu_walk_step steps mmu_walk.simps(1))
  then show ?thesis
    using frame_plus_offset [of a] pv(2) by (simp add: translate_def k_def)
qed

theorem setup_page_table_correct_witness:
  "\<exists>fin mem' cr3. setup_page_table (page_addr 512) 0x8000000 (\<lambda>_. 0) = (fin, mem', cr3) \<and>
     translate mem' cr3 0x123456 = Some 0x123456 \<and>
     translate mem' cr3 (to_vir 0x123456) = Some 0x123456"
proof -
  obtain fin mem' cr3 where s: "setup_page_table (page_addr 512) 0x8000000 (\<lambda>_. 0) = (fin, mem', cr3)"
    by (rule prod_cases3)
  have "translate mem' cr3 0x123456 = Some 0x123456 \<and> translate mem' cr3 (to_vir 0x123456) = Some 0x123456"
    by (rule setup_page_table_correct [OF _ _ _ s]) simp_all
  with s show ?thesis by blast
qed

end
