(* ===== verification/Multiboot.thy ===== *)
theory Multiboot
  imports Prelude
begin

text \<open>
  The boot information: \<open>scan_boot_info\<close> of \<open>src/src/core/multiboot.c\<close> walks the tags that the
  boot loader left in memory and fills \<open>kinfo\<close> (\<open>kernel.h\<close>).  Memory is a store of bytes.  The
  arrays of \<open>kinfo\<close> are lists of the entries in use; a write past the end of one of them
  overwrites the next field, and the result is then \<open>None\<close> (the \<open>assert\<close> in front of it only
  prints).  Both loops may run forever on a malformed tag (a size of zero): they are
  \<open>partial_function\<close>s.
\<close>

type_synonym bmem = "u64 \<Rightarrow> u8"

section \<open>Data\<close>

record mmap_entry =
  e_addr :: u64
  e_len :: u64
  e_type :: u32

record boot_module =
  mod_start :: u32
  mod_end :: u32
  cmdline :: "u8 list"

record kinfo =
  mmap :: "mmap_entry list"
  modules :: "boot_module list"
  module_mmap :: "(u64 \<times> u64) list"
  kernel_start :: u64
  kernel_end :: u64
  global_pgd_start :: u64
  global_pgd_end :: u64
  mem_map_start :: u64
  mem_map_end :: u64
  mmio_start :: u64
  mmio_end :: u64
  bootdev :: u32
  bootpart :: u32
  subpart :: u32

definition KINFO_MEMMAP_SIZE :: nat where "KINFO_MEMMAP_SIZE = 16"

definition KINFO_MODULE_SIZE :: nat where "KINFO_MODULE_SIZE = 8"

definition MULTIBOOT_MEMORY_AVAILABLE :: u32 where "MULTIBOOT_MEMORY_AVAILABLE = 1"

definition MULTIBOOT_MODULE_CMD_LEN :: nat where "MULTIBOOT_MODULE_CMD_LEN = 32"

definition TAG_END :: u32 where "TAG_END = 0"

definition TAG_MODULE :: u32 where "TAG_MODULE = 3"

definition TAG_BOOTDEV :: u32 where "TAG_BOOTDEV = 5"

definition TAG_MMAP :: u32 where "TAG_MMAP = 6"

section \<open>Reading memory\<close>

definition rd32 :: "bmem \<Rightarrow> u64 \<Rightarrow> u32" where
  "rd32 mem a = ucast (mem a) OR push_bit 8 (ucast (mem (a + 1))) OR
     push_bit 16 (ucast (mem (a + 2))) OR push_bit 24 (ucast (mem (a + 3)))"

definition rd64 :: "bmem \<Rightarrow> u64 \<Rightarrow> u64" where
  "rd64 mem a = ucast (rd32 mem a) OR push_bit 32 (ucast (rd32 mem (a + 4)))"

text \<open>
  \<open>strcpy\<close> into the 32 bytes of \<open>cmdline\<close>: the bytes in front of the terminator.  A longer
  string runs over the field, which is the value \<open>None\<close>.
\<close>

fun cstring :: "nat \<Rightarrow> bmem \<Rightarrow> u64 \<Rightarrow> u8 list option" where
  "cstring 0 mem a = None"
| "cstring (Suc n) mem a =
     (if mem a = 0 then Some [] else map_option ((#) (mem a)) (cstring n mem (a + 1)))"

section \<open>Scanning\<close>

partial_function (option) scan_mmap :: "bmem \<Rightarrow> u64 \<Rightarrow> u64 \<Rightarrow> kinfo \<Rightarrow> kinfo option" where
  "scan_mmap mem tag entry k =
     (if entry < tag + ucast (rd32 mem (tag + 4)) then
        if length (mmap k) < KINFO_MEMMAP_SIZE then
          scan_mmap mem tag (entry + ucast (rd32 mem (tag + 8)))
            (k\<lparr>mmap := mmap k @ [\<lparr>e_addr = rd64 mem entry, e_len = rd64 mem (entry + 8),
                                  e_type = rd32 mem (entry + 16)\<rparr>]\<rparr>)
        else None
      else Some k)"

definition scan_module :: "bmem \<Rightarrow> u64 \<Rightarrow> kinfo \<Rightarrow> kinfo option" where
  "scan_module mem tag k =
     (if length (modules k) < KINFO_MODULE_SIZE then
        Option.bind (cstring MULTIBOOT_MODULE_CMD_LEN mem (tag + 16)) (\<lambda>cmd.
          Some (k\<lparr>modules := modules k @ [\<lparr>mod_start = rd32 mem (tag + 8), mod_end = rd32 mem (tag + 12),
                                           cmdline = cmd\<rparr>],
                  module_mmap := module_mmap k @
                    [(ucast (rd32 mem (tag + 8)), ucast (rd32 mem (tag + 12) - rd32 mem (tag + 12)))]\<rparr>))
      else None)"

definition scan_bootdev :: "bmem \<Rightarrow> u64 \<Rightarrow> kinfo \<Rightarrow> kinfo" where
  "scan_bootdev mem tag k =
     k\<lparr>bootdev := rd32 mem (tag + 8), bootpart := rd32 mem (tag + 12), subpart := rd32 mem (tag + 16)\<rparr>"

definition scan_tag :: "bmem \<Rightarrow> u64 \<Rightarrow> kinfo \<Rightarrow> kinfo option" where
  "scan_tag mem tag k =
     (let type = rd32 mem tag in
      if type = TAG_MMAP then scan_mmap mem tag (tag + 16) k
      else if type = TAG_MODULE then scan_module mem tag k
      else if type = TAG_BOOTDEV then Some (scan_bootdev mem tag k)
      else Some k)"

definition next_tag :: "bmem \<Rightarrow> u64 \<Rightarrow> u64" where
  "next_tag mem tag = tag + ucast ((rd32 mem (tag + 4) + 7) AND NOT 7)"

partial_function (option) scan_tags :: "bmem \<Rightarrow> u64 \<Rightarrow> kinfo \<Rightarrow> kinfo option" where
  "scan_tags mem tag k =
     (if rd32 mem tag \<noteq> TAG_END
      then Option.bind (scan_tag mem tag k) (\<lambda>k. scan_tags mem (next_tag mem tag) k)
      else Some k)"

definition scan_boot_info :: "bmem \<Rightarrow> u64 \<Rightarrow> kinfo \<Rightarrow> kinfo option" where
  "scan_boot_info mem addr k = (if addr AND 7 \<noteq> 0 then Some k else scan_tags mem (addr + 8) k)"

section \<open>What the boot loader writes\<close>

datatype tag =
    Mmap "mmap_entry list"
  | Module u32 u32 "u8 list"
  | Bootdev u32 u32 u32
  | Other u32 u32

fun entries_at :: "bmem \<Rightarrow> u64 \<Rightarrow> mmap_entry list \<Rightarrow> bool" where
  "entries_at mem a [] \<longleftrightarrow> True"
| "entries_at mem a (e # es) \<longleftrightarrow>
     rd64 mem a = e_addr e \<and> rd64 mem (a + 8) = e_len e \<and> rd32 mem (a + 16) = e_type e \<and>
     entries_at mem (a + 24) es"

fun string_at :: "bmem \<Rightarrow> u64 \<Rightarrow> u8 list \<Rightarrow> bool" where
  "string_at mem a [] \<longleftrightarrow> mem a = 0"
| "string_at mem a (c # cs) \<longleftrightarrow> c \<noteq> 0 \<and> mem a = c \<and> string_at mem (a + 1) cs"

fun tag_at :: "bmem \<Rightarrow> u64 \<Rightarrow> tag \<Rightarrow> bool" where
  "tag_at mem a (Mmap es) \<longleftrightarrow>
     rd32 mem a = TAG_MMAP \<and> rd32 mem (a + 4) = of_nat (16 + 24 * length es) \<and>
     rd32 mem (a + 8) = 24 \<and> entries_at mem (a + 16) es \<and> unat a + 16 + 24 * length es < 2 ^ 64"
| "tag_at mem a (Module s e cmd) \<longleftrightarrow>
     rd32 mem a = TAG_MODULE \<and> rd32 mem (a + 8) = s \<and> rd32 mem (a + 12) = e \<and>
     string_at mem (a + 16) cmd \<and> length cmd < MULTIBOOT_MODULE_CMD_LEN"
| "tag_at mem a (Bootdev d s p) \<longleftrightarrow>
     rd32 mem a = TAG_BOOTDEV \<and> rd32 mem (a + 8) = d \<and> rd32 mem (a + 12) = s \<and> rd32 mem (a + 16) = p"
| "tag_at mem a (Other t sz) \<longleftrightarrow>
     rd32 mem a = t \<and> t \<notin> {TAG_END, TAG_MMAP, TAG_MODULE, TAG_BOOTDEV} \<and> rd32 mem (a + 4) = sz"

fun tags_at :: "bmem \<Rightarrow> u64 \<Rightarrow> tag list \<Rightarrow> bool" where
  "tags_at mem a [] \<longleftrightarrow> rd32 mem a = TAG_END"
| "tags_at mem a (t # ts) \<longleftrightarrow> tag_at mem a t \<and> tags_at mem (next_tag mem a) ts"

text \<open>What the kernel should record of a tag.\<close>

fun record_tag :: "kinfo \<Rightarrow> tag \<Rightarrow> kinfo" where
  "record_tag k (Mmap es) = k\<lparr>mmap := mmap k @ es\<rparr>"
| "record_tag k (Module s e cmd) =
     k\<lparr>modules := modules k @ [\<lparr>mod_start = s, mod_end = e, cmdline = cmd\<rparr>],
       module_mmap := module_mmap k @ [(ucast s, 0)]\<rparr>"
| "record_tag k (Bootdev d s p) = k\<lparr>bootdev := d, bootpart := s, subpart := p\<rparr>"
| "record_tag k (Other t sz) = k"

fun room_for :: "kinfo \<Rightarrow> tag list \<Rightarrow> bool" where
  "room_for k [] \<longleftrightarrow> True"
| "room_for k (t # ts) \<longleftrightarrow>
     length (mmap (record_tag k t)) \<le> KINFO_MEMMAP_SIZE \<and>
     length (modules (record_tag k t)) \<le> KINFO_MODULE_SIZE \<and> room_for (record_tag k t) ts"

section \<open>Lemmas\<close>

lemma unat_mmap_cursor:
  "unat tag + 16 + 24 * n < 2 ^ 64 \<Longrightarrow> i \<le> n \<Longrightarrow> unat (tag + 16 + 24 * of_nat i :: u64) = unat tag + 16 + 24 * i"
  by (simp add: unat_word_ariths unat_of_nat)

lemma ucast_of_nat32: "m < 2 ^ 32 \<Longrightarrow> ucast (of_nat m :: u32) = (of_nat m :: u64)"
  by (simp add: word_unat_eq_iff unsigned_ucast_eq unat_of_nat take_bit_eq_mod)

lemma ucast_numeral: "ucast (24 :: u32) = (24 :: u64)"
  by simp

lemma scan_mmap_entries:
  assumes size: "rd32 mem (tag + 4) = of_nat (16 + 24 * n)" "n \<le> 16" "rd32 mem (tag + 8) = 24"
    and room: "unat tag + 16 + 24 * n < 2 ^ 64"
  shows "i + length es = n \<Longrightarrow> entries_at mem (tag + 16 + 24 * of_nat i) es \<Longrightarrow>
    length (mmap k) + length es \<le> KINFO_MEMMAP_SIZE \<Longrightarrow>
    scan_mmap mem tag (tag + 16 + 24 * of_nat i) k = Some (k\<lparr>mmap := mmap k @ es\<rparr>)"
proof (induction es arbitrary: i k)
  case Nil
  have "ucast (of_nat (16 + 24 * n) :: u32) = (of_nat (16 + 24 * n) :: u64)"
    by (rule ucast_of_nat32) (use size(2) in simp)
  then have "tag + ucast (rd32 mem (tag + 4)) = tag + 16 + 24 * of_nat i"
    using Nil(1) by (simp add: size(1) add.assoc)
  then have "\<not> tag + 16 + 24 * of_nat i < tag + ucast (rd32 mem (tag + 4))" by (simp only: less_irrefl not_False_eq_True)
  then show ?case by (subst scan_mmap.simps) (simp only: if_False append_Nil2, simp)
next
  case (Cons e es)
  have "ucast (of_nat (16 + 24 * n) :: u32) = (of_nat (16 + 24 * n) :: u64)"
    by (rule ucast_of_nat32) (use size(2) in simp)
  then have stop: "tag + ucast (rd32 mem (tag + 4)) = tag + 16 + 24 * of_nat n"
    by (simp add: size(1) add.assoc)
  have lt: "tag + 16 + 24 * of_nat i < tag + ucast (rd32 mem (tag + 4))"
    unfolding stop word_less_nat_alt using Cons.prems(1) unat_mmap_cursor [OF room] by simp
  have step: "tag + 16 + 24 * of_nat i + 24 = tag + 16 + 24 * of_nat (Suc i)"
    by (simp add: distrib_left)
  then have next_: "tag + 16 + 24 * of_nat i + ucast (rd32 mem (tag + 8)) = tag + 16 + 24 * of_nat (Suc i)"
    by (simp only: size(3) ucast_numeral)
  have e: "\<lparr>e_addr = rd64 mem (tag + 16 + 24 * of_nat i), e_len = rd64 mem (tag + 16 + 24 * of_nat i + 8),
      e_type = rd32 mem (tag + 16 + 24 * of_nat i + 16)\<rparr> = e"
    using Cons.prems(2) by simp
  have "entries_at mem (tag + 16 + 24 * of_nat (Suc i)) es"
    using Cons.prems(2) unfolding step [symmetric] by simp
  from Cons.IH [OF _ this, of "k\<lparr>mmap := mmap k @ [e]\<rparr>"] Cons.prems(1,3) show ?case
    by (subst scan_mmap.simps) (simp only: lt if_True next_ e, simp)
qed

lemma cstring_string_at: "string_at mem a cs \<Longrightarrow> length cs < n \<Longrightarrow> cstring n mem a = Some cs"
proof (induction cs arbitrary: n a)
  case Nil
  then show ?case by (cases n) auto
next
  case (Cons c cs)
  then show ?case by (cases n) auto
qed

lemmas tag_types = TAG_END_def TAG_MODULE_def TAG_BOOTDEV_def TAG_MMAP_def

lemma scan_tag_records:
  assumes "tag_at mem a t" "length (mmap (record_tag k t)) \<le> KINFO_MEMMAP_SIZE"
    "length (modules (record_tag k t)) \<le> KINFO_MODULE_SIZE"
  shows "scan_tag mem a k = Some (record_tag k t) \<and> rd32 mem a \<noteq> TAG_END"
proof (cases t)
  case (Mmap es)
  then show ?thesis
    using assms scan_mmap_entries [of mem a "length es" 0 es k]
    by (simp add: scan_tag_def tag_types KINFO_MEMMAP_SIZE_def)
next
  case (Module s e cmd)
  then have "cstring MULTIBOOT_MODULE_CMD_LEN mem (a + 16) = Some cmd"
    using assms(1) by (intro cstring_string_at) auto
  then show ?thesis
    using assms Module by (auto simp: scan_tag_def scan_module_def tag_types)
qed (use assms in \<open>simp_all add: scan_tag_def scan_bootdev_def tag_types\<close>)

lemma scan_tags_records:
  "tags_at mem a ts \<Longrightarrow> room_for k ts \<Longrightarrow> scan_tags mem a k = Some (foldl record_tag k ts)"
proof (induction ts arbitrary: a k)
  case Nil
  then show ?case by (simp add: scan_tags.simps)
next
  case (Cons t ts)
  then show ?case using scan_tag_records [of mem a t k] by (subst scan_tags.simps) simp
qed


text \<open>A block with a boot-device tag and a memory map of one entry.\<close>

definition boot_mem :: bmem where
  "boot_mem = (\<lambda>_. 0)(8 := 5, 12 := 20, 16 := 0x80, 20 := 1, 24 := 2,
     32 := 6, 36 := 40, 40 := 24, 50 := 0x10, 58 := 0xf0, 59 := 7, 64 := 1, 76 := 8)"

definition empty_kinfo :: kinfo where
  "empty_kinfo = \<lparr>mmap = [], modules = [], module_mmap = [], kernel_start = 0, kernel_end = 0,
     global_pgd_start = 0, global_pgd_end = 0, mem_map_start = 0, mem_map_end = 0, mmio_start = 0,
     mmio_end = 0, bootdev = 0, bootpart = 0, subpart = 0\<rparr>"

definition boot_tags :: "tag list" where
  "boot_tags = [Bootdev 0x80 1 2, Mmap [\<lparr>e_addr = 0x100000, e_len = 0x7f00000, e_type = 1\<rparr>]]"


end
