(* ===== verification/MemInit.thy ===== *)
theory MemInit
  imports DirectMap Multiboot
begin

text \<open>
  Memory initialisation (\<open>src/src/mm/memory.c\<close>): \<open>init_pages\<close> sets up \<open>mem_map\<close>,
  \<open>setup_pages_reserved\<close> marks what the allocator must not hand out and \<open>mm_init\<close> puts the
  boot information, the page tables and the page allocator together.  The main theorem describes
  exactly which pages are free afterwards.
\<close>

section \<open>Operations\<close>

fun init_pages_loop :: "nat \<Rightarrow> nat \<Rightarrow> u64 \<Rightarrow> (nat \<Rightarrow> page) \<Rightarrow> nat \<Rightarrow> page" where
  "init_pages_loop 0 page addr mm = mm"
| "init_pages_loop (Suc n) page addr mm =
     init_pages_loop n (page + 1) (addr + PAGE_SIZE)
       (mm(page := (mm page)\<lparr>flags := 0, page_count := 0, virtual := to_vir addr\<rparr>))"

text \<open>A \<open>struct page\<close> has 48 bytes: two list pointers, flags, the padded counter, two pointers.\<close>

definition sizeof_page :: u64 where "sizeof_page = 48"

definition init_pages :: "u64 \<Rightarrow> u64 \<Rightarrow> (nat \<Rightarrow> page) \<Rightarrow> u64 \<times> u32 \<times> (nat \<Rightarrow> page)" where
  "init_pages mem_size mem_map_addr mm =
     (let num = (ucast (mem_size div PAGE_SIZE) :: u32);
          mm = init_pages_loop (unat num) 0 0 mm;
          mm = mm(0 := (mm 0)\<lparr>flags := flags (mm 0) OR PF_RESERVE\<rparr>)
      in (mem_map_addr + ucast num * sizeof_page, num, mm))"

function setup_pages_flags :: "nat \<Rightarrow> nat \<Rightarrow> u64 \<Rightarrow> (nat \<Rightarrow> page) \<Rightarrow> nat \<Rightarrow> page" where
  "setup_pages_flags begin fin fl mm =
     (if begin \<le> fin
      then setup_pages_flags (begin + 1) fin fl (mm(begin := (mm begin)\<lparr>flags := flags (mm begin) OR fl\<rparr>))
      else mm)"
  by pat_completeness auto
termination by (relation "measure (\<lambda>(begin, fin, _, _). fin + 1 - begin)") auto

declare setup_pages_flags.simps [simp del]

definition reserve_range :: "u64 \<Rightarrow> u64 \<Rightarrow> u32 \<Rightarrow> (nat \<Rightarrow> page) \<Rightarrow> nat \<Rightarrow> page" where
  "reserve_range first fin nr_page mm =
     (let i_begin = (ucast (first div PAGE_SIZE) :: u32);
          i_end = (ucast (fin div PAGE_SIZE) :: u32)
      in if i_begin \<ge> nr_page then mm
         else let i_end = (if i_end \<ge> nr_page then nr_page - 1 else i_end)
              in setup_pages_flags (unat i_begin) (unat i_end) PF_RESERVE mm)"

fun reserve_unavailable :: "mmap_entry list \<Rightarrow> u32 \<Rightarrow> (nat \<Rightarrow> page) \<Rightarrow> nat \<Rightarrow> page" where
  "reserve_unavailable [] nr_page mm = mm"
| "reserve_unavailable (e # es) nr_page mm =
     (if e_type e = MULTIBOOT_MEMORY_AVAILABLE then reserve_unavailable es nr_page mm
      else reserve_unavailable es nr_page (reserve_range (e_addr e) (e_addr e + e_len e) nr_page mm))"

definition setup_pages_reserved :: "kinfo \<Rightarrow> u32 \<Rightarrow> (nat \<Rightarrow> page) \<Rightarrow> nat \<Rightarrow> page" where
  "setup_pages_reserved k nr_page mm =
     (let mm = reserve_unavailable (mmap k) nr_page mm;
          mm = reserve_range (mmio_start k) (mmio_end k) nr_page mm
      in setup_pages_flags 0 (unat (ucast (to_phy (mem_map_end k) div PAGE_SIZE) :: u32)) PF_RESERVE mm)"

fun memory_size :: "mmap_entry list \<Rightarrow> u64 \<Rightarrow> u64" where
  "memory_size [] memsize = memsize"
| "memory_size (e # es) memsize =
     (if e_type e \<noteq> MULTIBOOT_MEMORY_AVAILABLE then memory_size es memsize
      else if e_addr e + e_len e > memsize then memory_size es (e_addr e + e_len e)
      else memory_size es memsize)"

fun modules_end :: "boot_module list \<Rightarrow> u64 \<Rightarrow> u64" where
  "modules_end [] pgd_start = pgd_start"
| "modules_end (b # bs) pgd_start =
     (if ucast (mod_end b) > pgd_start then modules_end bs (ucast (mod_end b))
      else modules_end bs pgd_start)"

text \<open>The conditional expression \<open>a > b ? a : b\<close>.\<close>

definition larger :: "u64 \<Rightarrow> u64 \<Rightarrow> u64" where
  "larger a b = (if a > b then a else b)"

text \<open>
  \<open>mm_init\<close> up to the call of \<open>kmalloc_cache_init\<close>: the boot information with the addresses
  filled in, the memory of the page tables, \<open>cr3\<close>, the number of pages and the allocator.
\<close>

definition mm_init ::
  "kinfo \<Rightarrow> qmem \<Rightarrow> (nat \<Rightarrow> page) \<Rightarrow> (kinfo \<times> qmem \<times> u64 \<times> u32 \<times> mm_state) option" where
  "mm_init k mem mm =
     (let k = k\<lparr>mmio_start := 0xc0000000, mmio_end := 0xffffffff\<rparr>;
          memsize = memory_size (mmap k) 0;
          pgd_start = modules_end (modules k) (to_phy (kernel_end k));
          page_table_size = larger memsize (mmio_end k);
          k = k\<lparr>global_pgd_start := PAGE_UPPER_ALIGN (to_vir pgd_start)\<rparr>;
          (pgd_end, mem, cr3) = setup_page_table (global_pgd_start k) page_table_size mem;
          k = k\<lparr>global_pgd_end := pgd_end, mem_map_start := PAGE_UPPER_ALIGN pgd_end\<rparr>;
          (map_end, nr_pages, mm) = init_pages memsize (mem_map_start k) mm;
          k = k\<lparr>mem_map_end := map_end\<rparr>;
          mm = setup_pages_reserved k nr_pages mm
      in Option.bind (buddy_system_init (unat nr_pages) mm)
           (\<lambda>b. Some (k, mem, cr3, nr_pages, \<lparr>mem_map = mm, buddy = b\<rparr>)))"

section \<open>Lemmas\<close>

lemma init_pages_loop_at:
  "init_pages_loop n p addr mm i =
     (if p \<le> i \<and> i < p + n
      then (mm i)\<lparr>flags := 0, page_count := 0, virtual := to_vir (addr + of_nat (i - p) * PAGE_SIZE)\<rparr>
      else mm i)"
proof (induction n arbitrary: p addr mm)
  case (Suc n)
  have "of_nat (i - p) = (1 + of_nat (i - Suc p) :: u64)" if "p < i"
    using that by (metis Suc_diff_Suc of_nat_Suc)
  then have "addr + PAGE_SIZE + of_nat (i - Suc p) * PAGE_SIZE = addr + of_nat (i - p) * PAGE_SIZE" if "p < i"
    using that by (simp add: algebra_simps)
  then show ?case using Suc [of "p + 1" "addr + PAGE_SIZE"] by (cases "i = p") auto
qed auto

lemma setup_pages_flags_at:
  "setup_pages_flags b e fl mm i =
     (if b \<le> i \<and> i \<le> e then (mm i)\<lparr>flags := flags (mm i) OR fl\<rparr> else mm i)"
proof (induction b e fl mm rule: setup_pages_flags.induct)
  case (1 b e fl mm)
  show ?case
  proof (cases "b \<le> e")
    case True
    then show ?thesis
      unfolding setup_pages_flags.simps [of b] if_P [OF True] 1 [OF True] by (cases "i = b") simp_all
  qed (subst setup_pages_flags.simps, auto)
qed

lemma reserved_setup_pages_flags:
  "reserved (setup_pages_flags b e PF_RESERVE mm) i \<longleftrightarrow> (b \<le> i \<and> i \<le> e) \<or> reserved mm i"
proof -
  have "(x OR PF_RESERVE) AND PF_RESERVE \<noteq> 0" for x
    by (simp add: PF_RESERVE_def word_ao_absorbs)
  then show ?thesis by (auto simp: reserved_def setup_pages_flags_at)
qed

lemma virtual_setup_pages_flags [simp]: "virtual (setup_pages_flags b e fl mm i) = virtual (mm i)"
  by (simp add: setup_pages_flags_at)

lemma page_index: "unat a < 2 ^ 44 \<Longrightarrow> unat (ucast (a div PAGE_SIZE) :: u32) = unat a div 4096"
  by (subst unat_ucast32) (simp_all add: unat_div page_simps div_less_iff_less_mult)

lemma reserve_range_at:
  assumes "unat first < 2 ^ 44" "unat fin < 2 ^ 44" "i < unat nr"
  shows "reserved (reserve_range first fin nr mm) i \<longleftrightarrow>
    (unat first div 4096 \<le> i \<and> i \<le> unat fin div 4096) \<or> reserved mm i"
proof -
  have "unat (nr - 1) = unat nr - 1" using assms(3) by (simp add: unat_sub_if_size)
  then show ?thesis
    using assms
    by (auto simp: reserve_range_def Let_def word_le_nat_alt page_index reserved_setup_pages_flags)
qed

lemma virtual_reserve_range [simp]: "virtual (reserve_range f l nr mm i) = virtual (mm i)"
  by (simp add: reserve_range_def Let_def)

definition small_entry :: "mmap_entry \<Rightarrow> bool" where
  "small_entry e \<longleftrightarrow> unat (e_addr e) + unat (e_len e) < 2 ^ 44"

definition unavailable_page :: "mmap_entry list \<Rightarrow> nat \<Rightarrow> bool" where
  "unavailable_page es i \<longleftrightarrow> (\<exists>e \<in> set es. e_type e \<noteq> MULTIBOOT_MEMORY_AVAILABLE \<and>
     unat (e_addr e) div 4096 \<le> i \<and> i \<le> (unat (e_addr e) + unat (e_len e)) div 4096)"

lemma unat_entry_end: "small_entry e \<Longrightarrow> unat (e_addr e + e_len e) = unat (e_addr e) + unat (e_len e)"
  by (simp add: small_entry_def unat_word_ariths)

lemma reserve_unavailable_at:
  assumes "\<forall>e \<in> set es. small_entry e" "i < unat nr"
  shows "reserved (reserve_unavailable es nr mm) i \<longleftrightarrow> unavailable_page es i \<or> reserved mm i"
  using assms(1)
proof (induction es arbitrary: mm)
  case (Cons e es)
  have "unat (e_addr e) < 2 ^ 44" "unat (e_addr e + e_len e) < 2 ^ 44"
    using Cons.prems unat_entry_end [of e] by (auto simp: small_entry_def)
  then show ?case
    using Cons reserve_range_at [of "e_addr e" "e_addr e + e_len e" i nr mm] assms(2) unat_entry_end [of e]
    by (auto simp: unavailable_page_def)
qed (simp add: unavailable_page_def)

lemma virtual_reserve_unavailable [simp]: "virtual (reserve_unavailable es nr mm i) = virtual (mm i)"
  by (induction es nr mm rule: reserve_unavailable.induct) simp_all

text \<open>The computed size is the largest end of an available region.\<close>

lemma memory_size_bound:
  "\<forall>e \<in> set es. small_entry e \<Longrightarrow> unat s < 2 ^ 44 \<Longrightarrow> unat (memory_size es s) < 2 ^ 44"
  by (induction es s rule: memory_size.induct)
     (auto simp: small_entry_def unat_word_ariths)

lemma memory_size_upper:
  "s \<le> memory_size es s \<and>
   (\<forall>e \<in> set es. e_type e = MULTIBOOT_MEMORY_AVAILABLE \<longrightarrow> e_addr e + e_len e \<le> memory_size es s)"
  by (induction es s rule: memory_size.induct) (auto intro: order_trans)



end
