(* ===== verification/PageMap.thy ===== *)
theory PageMap
  imports PageTree
begin

text \<open>
  What the page-table operations of \<open>src/src/mm/page.c\<close> promise to their callers:
  \<open>kmap\<close> after \<open>map_page\<close>, and \<open>free_proc_mm\<close>.
\<close>

section \<open>Translation\<close>

lemma wf_forest_step:
  "wf_forest nb l es p \<Longrightarrow> i < nb \<Longrightarrow> es p i \<noteq> 0 \<Longrightarrow> \<exists>c<2 ^ 32. es p i = pte c \<and> wf_tree l es c"
  by (simp add: wf_forest_def)

lemma slot_word: "mem (page_addr p + 8 * of_nat i) = ent mem p i"
  by (simp add: ent_def slot_def)

lemma frame_offset:
  "to_vir (of_nat q * PAGE_SIZE OR (x mod push_bit 12 1)) = page_addr q + of_nat (unat x mod 4096)"
proof -
  have off: "x mod push_bit 12 1 = take_bit 12 x" by (simp add: take_bit_eq_mod push_bit_eq_mult)
  have or_add: "push_bit k y OR take_bit k z = push_bit k y + take_bit k z" for y z :: u64 and k
    by (rule disjunctive_add [symmetric]) (auto simp: bit_simps)
  have "take_bit 12 x = of_nat (unat x mod 4096)"
    by (simp add: word_unat_eq_iff take_bit_eq_mod unat_mod unat_of_nat)
  then show ?thesis
    unfolding off page_offset_push_bit or_add page_addr_def to_vir_def by (simp add: add_ac)
qed

lemma kmap_frame:
  assumes wf: "wf_forest 256 3 (ent mem) r" and u: "unat u < 2 ^ 47"
    and q: "frame_of (ent mem) (path u) r = Some q"
  shows "kmap mem (page_addr r) u = page_addr q + of_nat (unat u mod 4096)"
proof -
  define i4 i3 i2 i1 where "i4 = unat u div 2 ^ 39 mod 512" and "i3 = unat u div 2 ^ 30 mod 512"
    and "i2 = unat u div 2 ^ 21 mod 512" and "i1 = unat u div 2 ^ 12 mod 512"
  note i = i4_def i3_def i2_def i1_def
  have p: "path u = [i4, i3, i2, i1]" by (simp add: path_def i)
  have b: "i4 < 256" "i3 < 512" "i2 < 512" "i1 < 512" using path_first [OF u] by (simp_all add: p) (simp_all add: i)
  have three: "(3::nat) = Suc (Suc (Suc 0))" by simp
  obtain c3 where c3: "c3 < 2 ^ 32" "ent mem r i4 = pte c3" "wf_tree 3 (ent mem) c3"
    using wf_forest_step [OF wf b(1)] q by (auto simp: p split: if_splits)
  obtain c2 where c2: "c2 < 2 ^ 32" "ent mem c3 i3 = pte c2" "wf_tree 2 (ent mem) c2"
    using wf_forest_step [of 512 2 "ent mem" c3 i3] c3 b q
    by (auto simp: p wf_tree_forest three numeral_2_eq_2 split: if_splits)
  obtain c1 where c1: "c1 < 2 ^ 32" "ent mem c2 i2 = pte c1" "wf_tree 1 (ent mem) c1"
    using wf_forest_step [of 512 1 "ent mem" c2 i2] c3 c2 b q
    by (auto simp: p wf_tree_forest numeral_2_eq_2 split: if_splits)
  obtain c0 where c0: "c0 < 2 ^ 32" "ent mem c1 i1 = pte c0"
    using wf_forest_step [of 512 0 "ent mem" c1 i1] c3 c2 c1 b q
    by (auto simp: p wf_tree_forest split: if_splits)
  have "c0 = q" using q c3 c2 c1 c0 by (simp add: p)
  have low: "u AND push_bit 48 0xffff = 0" using u by (intro user_address_low) simp
  have "take_bit 48 u = u"
    using u by (simp add: word_unat_eq_iff unsigned_take_bit_eq take_bit_nat_eq_self)
  then have ind4: "u div push_bit 39 1 = of_nat i4" using table_index [of 48 39 u] by (simp add: i)
  have nested: "take_bit 30 (take_bit 39 u) = take_bit 30 u" "take_bit 21 (take_bit 30 u) = take_bit 21 u"
    by simp_all
  have ind: "(u AND (push_bit 39 1 - 1)) div push_bit 30 1 = of_nat i3"
    "((u AND (push_bit 39 1 - 1)) AND (push_bit 30 1 - 1)) div push_bit 21 1 = of_nat i2"
    "(((u AND (push_bit 39 1 - 1)) AND (push_bit 30 1 - 1)) AND (push_bit 21 1 - 1)) div push_bit 12 1 = of_nat i1"
    unfolding word_mask nested i by (rule table_index; simp)+
  have off: "unat (((u AND (push_bit 39 1 - 1)) AND (push_bit 30 1 - 1)) AND (push_bit 21 1 - 1)) mod 4096 = unat u mod 4096"
    unfolding word_mask nested by (simp add: take_bit_eq_mod unat_mod mod_mod_cancel)
  show ?thesis
    unfolding kmap_def Let_def low ind4 ind slot_word c3(2) to_vir_pte c2(2) c1(2) c0(2) \<open>c0 = q\<close>
    unfolding pte_frame by (simp only: frame_offset off simp_thms if_False)
qed

section \<open>Mapping\<close>

definition mapped :: "qmem \<Rightarrow> nat \<Rightarrow> u64 \<Rightarrow> bool" where
  "mapped mem r v \<longleftrightarrow> frame_of (ent mem) (path v) r \<noteq> None"

text \<open>
  C2.  In a process whose lower half is a tree of distinct allocated frames,
  \<open>map_page\<close> with four free pages left succeeds for every user address; it keeps the tree a tree,
  \<open>kmap\<close> of any address in the page then gives the kernel address of the frame plus the offset,
  and every page that was mapped before is translated as before.
\<close>

theorem map_page_correct:
  assumes "pt_ok n 256 3 r m mem" "unat u < 2 ^ 47" "4 \<le> card (free_set (buddy m))"
  shows "\<exists>q m' mem'. map_page (page_addr r) u (m, mem) = Some (page_addr q, m', mem') \<and>
    pt_ok n 256 3 r m' mem' \<and> free_set (buddy m') \<subseteq> free_set (buddy m) \<and>
    (\<forall>v. unat v div 4096 = unat u div 4096 \<longrightarrow>
       kmap mem' (page_addr r) v = page_addr q + of_nat (unat v mod 4096)) \<and>
    (\<forall>v. unat v < 2 ^ 47 \<and> unat v div 4096 \<noteq> unat u div 4096 \<and> mapped mem r v \<longrightarrow>
       mapped mem' r v \<and> kmap mem' (page_addr r) v = kmap mem (page_addr r) v)"
proof -
  obtain i "is" where pu: "path u = i # is" "length is = 3" by (simp add: path_def)
  then have bounds: "i < 256" "\<forall>k \<in> set is. k < 512"
    using path_first [OF assms(2)] path_bound [of _ u] by auto
  obtain q m' mem' new where q: "map_walk (i # is) (page_addr r) (m, mem) = Some (page_addr q, m', mem')"
      "grown n 256 3 r m mem m' mem' new" "frame_of (ent mem') (i # is) r = Some q"
    and keep: "\<forall>j js. j < 256 \<and> length js = 3 \<and> (\<forall>k \<in> set js. k < 512) \<and> j # js \<noteq> i # is \<longrightarrow>
       frame_of (ent mem') (j # js) r = frame_of (ent mem) (j # js) r"
    using map_walk_ok [of n 256 "is" r m mem i] assms(1,3) bounds pu(2) by auto
  note ok' = grown_pt_ok [OF assms(1) q(2)]
  have same: "frame_of (ent mem') (path v) r = frame_of (ent mem) (path v) r"
    if v: "unat v < 2 ^ 47" "unat v div 4096 \<noteq> unat u div 4096" for v
  proof -
    obtain j js where pv: "path v = j # js" "length js = 3" by (simp add: path_def)
    moreover have "path v \<noteq> path u" using path_eq_iff [of v u] v assms(2) by simp
    ultimately show ?thesis using keep path_first [OF v(1)] path_bound [of _ v] pu by auto
  qed
  have "kmap mem' (page_addr r) v = page_addr q + of_nat (unat v mod 4096)"
    if v: "unat v div 4096 = unat u div 4096" for v
  proof -
    have "unat u div 4096 < 2 ^ 35" using assms(2) by (simp add: div_less_iff_less_mult)
    then have small: "unat v < 2 ^ 47" unfolding v [symmetric] by (simp add: div_less_iff_less_mult)
    then have "path v = i # is" using path_eq_iff [of v u] v assms(2) pu by simp
    then show ?thesis using kmap_frame [OF pt_okD(5) [OF ok'] small] q(3) by simp
  qed
  moreover have "mapped mem' r v \<and> kmap mem' (page_addr r) v = kmap mem (page_addr r) v"
    if v: "unat v < 2 ^ 47" "unat v div 4096 \<noteq> unat u div 4096" "mapped mem r v" for v
    using kmap_frame [OF pt_okD(5) [OF ok'] v(1)] kmap_frame [OF pt_okD(5) [OF assms(1)] v(1)]
      same [OF v(1,2)] v(3) by (auto simp: mapped_def)
  moreover have "free_set (buddy m') \<subseteq> free_set (buddy m)" using q(2) by (auto simp: grown_def)
  ultimately show ?thesis using q(1) ok' pu by (auto simp: map_page_walk)
qed

text \<open>A process with an empty page directory in frame 16 and the free pages 8 to 15.\<close>

definition example_vm :: mm_state where
  "example_vm = example_mm\<lparr>buddy := example_buddy\<lparr>activate := [16]\<rparr>\<rparr>"

lemma empty_forest: "(\<And>i. i < nb \<Longrightarrow> es p i = 0) \<Longrightarrow> forest nb l es p = {#} \<and> wf_forest nb l es p"
  by (simp add: forest_def wf_forest_def)

lemma example_vm_ok: "pt_ok 32 256 3 16 example_vm (\<lambda>_. 0)"
proof -
  have e: "ent (\<lambda>_. 0) p i = 0" for p i by (simp add: ent_def)
  have "free_set (buddy example_vm) = {8 ..< 16}"
    by (simp add: example_vm_def example_free_set span_def)
  moreover from this have "mm_inv 32 example_vm"
    using example_buddy_inv by (auto simp: mm_inv_def) (simp_all add: example_vm_def example_mm_def)
  ultimately show ?thesis
    using empty_forest [of 256 "ent (\<lambda>_. 0)" 16 3] e
    by (simp add: pt_ok_def owned_def uniq_def) (simp add: example_vm_def)
qed

theorem map_page_correct_witness:
  "\<exists>q m' mem'. map_page (page_addr 16) 0x40000123 (example_vm, \<lambda>_. 0) = Some (page_addr q, m', mem') \<and>
     kmap mem' (page_addr 16) 0x40000123 = page_addr q + 0x123"
proof -
  have "card (free_set (buddy example_vm)) = 8"
    by (simp add: example_vm_def example_free_set span_def)
  then show ?thesis
    using map_page_correct [OF example_vm_ok, of "0x40000123"] by auto
qed

section \<open>Releasing a process's pages\<close>

fun free_lev :: "nat \<Rightarrow> qmem \<Rightarrow> u64 \<Rightarrow> mm_state \<Rightarrow> mm_state option" where
  "free_lev 0 mem t m = free_page t m"
| "free_lev (Suc l) mem t m =
     Option.bind (for_entries [0 ..< 512] (\<lambda>i. mem (t + 8 * i)) (free_lev l mem) m) (free_page t)"

lemma free_levels:
  "free_level1 mem = free_lev 1 mem" "free_level2 mem = free_lev 2 mem" "free_level3 mem = free_lev 3 mem"
proof -
  have 0: "free_lev 0 mem = free_page" by (intro ext) simp
  show 1: "free_level1 mem = free_lev 1 mem"
    by (intro ext) (simp add: free_level1_def nr_entry_def 0)
  show 2: "free_level2 mem = free_lev 2 mem"
    by (intro ext) (simp add: free_level2_def 1 nr_entry_def numeral_2_eq_2)
  show "free_level3 mem = free_lev 3 mem"
    by (intro ext) (simp add: free_level3_def 2 nr_entry_def numeral_3_eq_3 numeral_2_eq_2)
qed

definition given_back :: "nat \<Rightarrow> mm_state \<Rightarrow> mm_state \<Rightarrow> nat set \<Rightarrow> bool" where
  "given_back n m m' S \<longleftrightarrow> mm_inv n m' \<and> free_set (buddy m') = free_set (buddy m) \<union> S \<and>
     set (activate (buddy m)) - S \<subseteq> set (activate (buddy m'))"

lemma given_back_owned: "given_back n m m' S \<Longrightarrow> owned n m x \<Longrightarrow> x \<notin> S \<Longrightarrow> owned n m' x"
  by (auto simp: given_back_def owned_def)

lemma given_back_trans:
  "given_back n m m1 S \<Longrightarrow> given_back n m1 m2 T \<Longrightarrow> given_back n m m2 (S \<union> T)"
  by (auto simp: given_back_def)

lemma free_page_given_back:
  assumes "mm_inv n m" "owned n m p"
  shows "\<exists>m'. free_page (page_addr p) m = Some m' \<and> given_back n m m' {p}"
proof -
  obtain m' where "free_page (page_addr p) m = Some m'" "mm_inv n m'"
    "free_set (buddy m') = insert p (free_set (buddy m))"
    "activate (buddy m') = remove1 p (activate (buddy m))"
    using free_page_held [OF assms(1), of p] assms(2) by (auto simp: owned_def)
  moreover have "set xs - {p} \<subseteq> set (remove1 p xs)" for xs :: "nat list"
    by (induction xs) auto
  ultimately show ?thesis by (auto simp: given_back_def)
qed

text \<open>The frames below the entries of a list of indices.\<close>

definition below :: "nat \<Rightarrow> entries \<Rightarrow> nat \<Rightarrow> nat list \<Rightarrow> nat multiset" where
  "below l es p is = sum_list (map (\<lambda>i. if es p i = 0 then {#} else tree l es (child (es p i))) is)"

lemma forest_below: "forest nb l es p = below l es p [0 ..< nb]"
  by (simp add: forest_def below_def interv_sum_list_conv_sum_set_nat lessThan_atLeast0)

lemma for_entries_ok:
  assumes level: "\<And>m c. mm_inv n m \<Longrightarrow> wf_tree l (ent mem) c \<Longrightarrow> uniq (tree l (ent mem) c) \<Longrightarrow>
      (\<forall>x \<in># tree l (ent mem) c. owned n m x) \<Longrightarrow>
      \<exists>m'. body (page_addr c) m = Some m' \<and> given_back n m m' (set_mset (tree l (ent mem) c))"
  shows "mm_inv n m \<Longrightarrow>
    (\<forall>i \<in> set is. ent mem p i \<noteq> 0 \<longrightarrow> (\<exists>c<2 ^ 32. ent mem p i = pte c \<and> wf_tree l (ent mem) c)) \<Longrightarrow>
    uniq (below l (ent mem) p is) \<Longrightarrow> (\<forall>x \<in># below l (ent mem) p is. owned n m x) \<Longrightarrow>
    \<exists>m'. for_entries is (\<lambda>i. mem (page_addr p + 8 * i)) body m = Some m' \<and>
      given_back n m m' (set_mset (below l (ent mem) p is))"
proof (induction "is" arbitrary: m)
  case Nil
  then show ?case by (simp add: below_def given_back_def)
next
  case (Cons i "is")
  show ?case
  proof (cases "ent mem p i = 0")
    case True
    then have "below l (ent mem) p (i # is) = below l (ent mem) p is" by (simp add: below_def)
    then show ?thesis using Cons True by (simp add: slot_word)
  next
    case False
    then obtain c where c: "c < 2 ^ 32" "ent mem p i = pte c" "wf_tree l (ent mem) c"
      using Cons.prems(2) by auto
    have split: "below l (ent mem) p (i # is) = tree l (ent mem) c + below l (ent mem) p is"
      using c by (simp add: below_def)
    have u: "uniq (tree l (ent mem) c)" "uniq (below l (ent mem) p is)"
      using Cons.prems(3) unfolding split by (auto elim: uniq_mono)
    obtain m1 where m1: "body (page_addr c) m = Some m1"
      "given_back n m m1 (set_mset (tree l (ent mem) c))"
      using level [OF Cons.prems(1) c(3) u(1)] Cons.prems(4) unfolding split by auto
    have "owned n m1 x" if "x \<in># below l (ent mem) p is" for x
    proof (rule given_back_owned [OF m1(2)])
      show "owned n m x" using that Cons.prems(4) unfolding split by simp
      show "x \<notin> set_mset (tree l (ent mem) c)"
        using that uniq_disjoint [OF Cons.prems(3) [unfolded split], of x] by blast
    qed
    moreover have "mm_inv n m1" using m1(2) by (simp add: given_back_def)
    ultimately obtain m2 where "for_entries is (\<lambda>i. mem (page_addr p + 8 * i)) body m1 = Some m2"
      "given_back n m1 m2 (set_mset (below l (ent mem) p is))"
      using Cons.IH [of m1] Cons.prems(2) u(2) by auto
    then show ?thesis
      using m1 given_back_trans [OF m1(2)] to_vir_pte [of c] split
      by (auto simp: slot_word c(2))
  qed
qed

lemma free_lev_ok:
  "mm_inv n m \<Longrightarrow> wf_tree l (ent mem) p \<Longrightarrow> uniq (tree l (ent mem) p) \<Longrightarrow>
   (\<forall>x \<in># tree l (ent mem) p. owned n m x) \<Longrightarrow>
   \<exists>m'. free_lev l mem (page_addr p) m = Some m' \<and> given_back n m m' (set_mset (tree l (ent mem) p))"
proof (induction l arbitrary: m p)
  case 0
  then show ?case using free_page_given_back by simp
next
  case (Suc l)
  have t: "tree (Suc l) (ent mem) p = {#p#} + below l (ent mem) p [0 ..< 512]"
    by (simp add: tree_forest forest_below)
  have "uniq (below l (ent mem) p [0 ..< 512])" using Suc.prems(3) unfolding t by (rule uniq_mono) simp
  then obtain m1 where m1: "for_entries [0 ..< 512] (\<lambda>i. mem (page_addr p + 8 * i)) (free_lev l mem) m = Some m1"
    "given_back n m m1 (set_mset (below l (ent mem) p [0 ..< 512]))"
    using for_entries_ok [of n l mem "free_lev l mem" m "[0 ..< 512]" p] Suc.IH Suc.prems(1,2,4)
    unfolding t by (auto simp: wf_tree_forest wf_forest_def)
  have "p \<notin># below l (ent mem) p [0 ..< 512]" using uniq_disjoint [OF Suc.prems(3) [unfolded t], of p] by simp
  then have "owned n m1 p" using given_back_owned [OF m1(2)] Suc.prems(4) unfolding t by simp
  moreover have "mm_inv n m1" using m1(2) by (simp add: given_back_def)
  ultimately obtain m2 where "free_page (page_addr p) m1 = Some m2" "given_back n m1 m2 {p}"
    using free_page_given_back by blast
  then show ?case
    using m1(1) given_back_trans [OF m1(2)] unfolding t by fastforce
qed

text \<open>
  C3.  \<open>free_proc_mm\<close> on such a process always ends, gives exactly the frames of
  the process's tree (data pages and tables) back to the allocator, each once, empties the lower
  half of the page directory and leaves the kernel's half untouched.
\<close>

theorem free_proc_mm_correct:
  assumes "pt_ok n 256 3 r m mem"
  shows "\<exists>m' mem'. free_proc_mm (page_addr r) (m, mem) = Some (m', mem') \<and> mm_inv n m' \<and>
    free_set (buddy m') = free_set (buddy m) \<union> set_mset (forest 256 3 (ent mem) r) \<and>
    (\<forall>i < 256. ent mem' r i = 0) \<and> (\<forall>i. 256 \<le> i \<and> i < 512 \<longrightarrow> ent mem' r i = ent mem r i)"
proof -
  note d = pt_okD [OF assms]
  have r: "r < 2 ^ 32" using d(2,6) by (simp add: owned_def)
  obtain m' where m': "for_entries [0 ..< 256] (\<lambda>i. mem (page_addr r + 8 * i)) (free_lev 3 mem) m = Some m'"
    "given_back n m m' (set_mset (forest 256 3 (ent mem) r))"
    using for_entries_ok [of n 3 mem "free_lev 3 mem" m "[0 ..< 256]" r] free_lev_ok d(1,3,4,5)
    unfolding forest_below [symmetric] by (auto simp: wf_forest_def)
  let ?mem' = "memset (page_addr r) 0 (PAGE_SIZE div 2) mem"
  have half: "ent ?mem' r i = (if i < 256 then 0 else ent mem r i)" if "i < 512" for i
  proof -
    have "unat (8 * of_nat i :: u64) = 8 * i" using that by (simp add: unat_word_ariths unat_of_nat)
    then have "slot r i - page_addr r < PAGE_SIZE div 2 \<longleftrightarrow> i < 256"
      by (simp add: slot_def word_less_nat_alt PAGE_SIZE_def)
    moreover have "PAGE_SIZE div 2 \<noteq> 0" by (simp add: PAGE_SIZE_def)
    ultimately show ?thesis by (simp add: ent_def memset_eq)
  qed
  have "free_proc_mm (page_addr r) (m, mem) = Some (m', ?mem')"
    using m'(1) by (simp add: free_proc_mm_def free_levels nr_entry_def)
  then show ?thesis using m'(2) half by (auto simp: given_back_def)
qed

theorem free_proc_mm_correct_witness:
  "\<exists>m' mem'. free_proc_mm (page_addr 16) (example_vm, \<lambda>_. 0) = Some (m', mem') \<and>
     free_set (buddy m') = {8 ..< 16}"
proof -
  have "forest 256 3 (ent (\<lambda>_. 0)) 16 = {#}" using empty_forest [of 256 "ent (\<lambda>_. 0)"] by (simp add: ent_def)
  moreover have "free_set (buddy example_vm) = {8 ..< 16}"
    by (simp add: example_vm_def example_free_set span_def)
  ultimately show ?thesis using free_proc_mm_correct [OF example_vm_ok] by auto
qed

end
