(* ===== verification/Slab.thy ===== *)
theory Slab
  imports Pages "HOL-Library.Multiset"
begin

text \<open>
  The object caches of \<open>src/src/mm/slab.c\<close>.  A cache hands out objects of one size from slabs,
  runs of pages that start with a header (\<open>struct slab\<close>), an array of object indices behind it
  and the objects behind the array.  Descriptors are found by their address; the three rings of
  a cache are the lists of the slab addresses on them.  \<open>kmem_inv\<close> is the invariant of a set of
  caches over one page allocator; the lemmas show that every operation keeps it and what it does
  to the objects handed out.
\<close>

section \<open>Data\<close>

definition SLAB_MIN_NUM :: u32 where "SLAB_MIN_NUM = 4"

definition SLAB_MAX_FREE :: u32 where "SLAB_MAX_FREE = 4"

definition BUFCTL_END :: u16 where "BUFCTL_END = 0xffff"

text \<open>\<open>bufctl\<close> is the array of \<open>unsigned short\<close> the code finds directly behind the header.\<close>

record slab_struct =
  s_mem :: u64
  inuse :: u32
  free :: u32
  bufctl :: "nat \<Rightarrow> u16"

record kmem_cache =
  cflags :: u32
  total_slab :: u32
  free_slab :: u32
  num :: u32
  objsize :: u32
  gfporder :: u32
  gfpflags :: u32
  slabs_partial :: "u64 list"
  slabs_full :: "u64 list"
  slabs_free :: "u64 list"

definition sizeof_slab :: u32 where "sizeof_slab = 32"

definition slabs_free_offset :: u64 where "slabs_free_offset = 64"

record kmem =
  mm :: mm_state
  slabs :: "u64 \<Rightarrow> slab_struct"
  caches :: "u64 \<Rightarrow> kmem_cache"

definition set_cache :: "u64 \<Rightarrow> kmem_cache \<Rightarrow> kmem \<Rightarrow> kmem" where
  "set_cache cachep c s = s\<lparr>caches := (caches s)(cachep := c)\<rparr>"

definition set_slab :: "u64 \<Rightarrow> slab_struct \<Rightarrow> kmem \<Rightarrow> kmem" where
  "set_slab slabp d s = s\<lparr>slabs := (slabs s)(slabp := d)\<rparr>"

text \<open>\<open>list_del (&slabp->list)\<close> takes the slab off whichever of the three rings it is on.\<close>

definition unlink_slab :: "u64 \<Rightarrow> kmem_cache \<Rightarrow> kmem_cache" where
  "unlink_slab slabp c =
     c\<lparr>slabs_partial := remove1 slabp (slabs_partial c),
       slabs_full := remove1 slabp (slabs_full c),
       slabs_free := remove1 slabp (slabs_free c)\<rparr>"

definition to_partial :: "u64 \<Rightarrow> kmem_cache \<Rightarrow> kmem_cache" where
  "to_partial slabp c = (let c = unlink_slab slabp c in c\<lparr>slabs_partial := slabp # slabs_partial c\<rparr>)"

definition to_full :: "u64 \<Rightarrow> kmem_cache \<Rightarrow> kmem_cache" where
  "to_full slabp c = (let c = unlink_slab slabp c in c\<lparr>slabs_full := slabp # slabs_full c\<rparr>)"

definition to_free :: "u64 \<Rightarrow> kmem_cache \<Rightarrow> kmem_cache" where
  "to_free slabp c = (let c = unlink_slab slabp c in c\<lparr>slabs_free := slabp # slabs_free c\<rparr>)"

section \<open>Slabs\<close>

definition kmem_align :: "u32 \<Rightarrow> u32" where
  "kmem_align sz = sz div 8 * 8 + (if sz mod 8 \<noteq> 0 then 8 else 0)"

fun tag_pages :: "nat \<Rightarrow> nat \<Rightarrow> u64 \<Rightarrow> (nat \<Rightarrow> page) \<Rightarrow> nat \<Rightarrow> page" where
  "tag_pages page 0 cachep pm = pm"
| "tag_pages page (Suc i) cachep pm =
     (let pm = tag_pages page i cachep pm in pm(page + i := (pm (page + i))\<lparr>slab := cachep\<rparr>))"

definition kmem_getpages :: "u64 \<Rightarrow> u32 \<Rightarrow> kmem \<Rightarrow> (u64 \<times> kmem) option" where
  "kmem_getpages cachep fl s =
     (let c = caches s cachep; fl = fl OR gfpflags c
      in Option.bind (alloc_pages fl (unat (gfporder c)) (mm s)) (\<lambda>(page, m).
        case page of
          None \<Rightarrow> Some (0, s\<lparr>mm := m\<rparr>)
        | Some p \<Rightarrow>
            let m = m\<lparr>mem_map := tag_pages p (2 ^ unat (gfporder c)) cachep (mem_map m)\<rparr>
            in Some (virtual (mem_map m p), s\<lparr>mm := m\<rparr>)))"

definition slab_head :: "u32 \<Rightarrow> u32" where
  "slab_head n = kmem_align (sizeof_slab + (n + 1) * 2)"

text \<open>The array of a fresh slab: \<open>i\<close> at every place below \<open>num\<close>, then the end mark.\<close>

fun init_bufctl :: "nat \<Rightarrow> (nat \<Rightarrow> u16) \<Rightarrow> nat \<Rightarrow> u16" where
  "init_bufctl 0 array = array"
| "init_bufctl (Suc i) array = (init_bufctl i array)(i := of_nat i)"

definition cache_grow :: "u64 \<Rightarrow> kmem \<Rightarrow> (int \<times> kmem) option" where
  "cache_grow cachep s =
     Option.bind (kmem_getpages cachep 0 s) (\<lambda>(slabp, s).
       if slabp = 0 then Some (-1, s)
       else
         let c = caches s cachep;
             array = (init_bufctl (unat (num c)) (bufctl (slabs s slabp)))(unat (num c) := BUFCTL_END);
             s = set_slab slabp
                   \<lparr>s_mem = slabp + ucast (slab_head (num c)), inuse = 0, free = 0, bufctl = array\<rparr> s;
             c = c\<lparr>total_slab := total_slab c + 1, free_slab := free_slab c + 1,
                   slabs_free := slabp # slabs_free c\<rparr>
         in Some (0, set_cache cachep c s))"

section \<open>Creating and destroying a cache\<close>

text \<open>The loop that looks for the pages per slab; both sides are computed in 32 bits.\<close>

function cache_order :: "u32 \<Rightarrow> nat \<Rightarrow> nat" where
  "cache_order sz i =
     (if sz * SLAB_MIN_NUM > ucast PAGE_SIZE * push_bit i 1 \<and> i < MAX_ORDER
      then cache_order sz (i + 1) else i)"
  by pat_completeness auto
termination by (relation "measure (\<lambda>(sz, i). MAX_ORDER - i)") auto

declare cache_order.simps [simp del]

definition cache_num :: "nat \<Rightarrow> u32 \<Rightarrow> u32" where
  "cache_num order sz =
     (let tnum = push_bit order 1 * ucast PAGE_SIZE div sz;
          head = slab_head tnum
      in (push_bit order 1 * ucast PAGE_SIZE - head) div sz)"

text \<open>An object size of 0 makes the code divide by zero: \<open>None\<close>.\<close>

definition kmem_cache_create :: "u64 \<Rightarrow> u32 \<Rightarrow> kmem \<Rightarrow> (u64 \<times> kmem) option" where
  "kmem_cache_create sz fl s =
     (if sz \<ge> PAGE_SIZE * push_bit (MAX_ORDER - 3) 1 then Some (0, s)
      else Option.bind (get_free_page GFP_KERNEL (mm s)) (\<lambda>(cachep, m).
        let s = s\<lparr>mm := m\<rparr> in
        if cachep = 0 then Some (0, s)
        else
          let sz = kmem_align (ucast sz);
              i = cache_order sz 0
          in if i \<ge> MAX_ORDER then Option.bind (free_page cachep (mm s)) (\<lambda>m. Some (0, s\<lparr>mm := m\<rparr>))
             else if sz = 0 then None
             else
               let c = \<lparr>cflags = fl, total_slab = 0, free_slab = 0, num = cache_num i sz,
                        objsize = sz, gfporder = of_nat i, gfpflags = GFP_KERNEL,
                        slabs_partial = [], slabs_full = [], slabs_free = []\<rparr>
               in Option.bind (cache_grow cachep (set_cache cachep c s)) (\<lambda>(r, s).
                    if r \<noteq> 0 then Option.bind (free_page cachep (mm s)) (\<lambda>m. Some (0, s\<lparr>mm := m\<rparr>))
                    else Some (cachep, s))))"

fun free_slabs :: "u64 list \<Rightarrow> u32 \<Rightarrow> mm_state \<Rightarrow> mm_state option" where
  "free_slabs [] order m = Some m"
| "free_slabs (slabp # rest) order m =
     Option.bind (free_pages slabp (unat order) m) (free_slabs rest order)"

definition kmem_cache_destroy :: "u64 \<Rightarrow> kmem \<Rightarrow> (int \<times> kmem) option" where
  "kmem_cache_destroy cachep s =
     (let c = caches s cachep
      in Option.bind (free_slabs (slabs_partial c) (gfporder c) (mm s)) (\<lambda>m.
         Option.bind (free_slabs (slabs_full c) (gfporder c) m) (\<lambda>m.
         Option.bind (free_slabs (slabs_free c) (gfporder c) m) (\<lambda>m.
         Option.bind (free_page cachep m) (\<lambda>m. Some (0, s\<lparr>mm := m\<rparr>))))))"

section \<open>Allocating an object\<close>

text \<open>\<open>slab_alloc\<close> is \<open>____cache_alloc\<close> and \<open>cache_alloc\<close> is \<open>__cache_alloc\<close>.\<close>

definition slab_alloc :: "u64 \<Rightarrow> u64 \<Rightarrow> kmem \<Rightarrow> u64 \<times> kmem" where
  "slab_alloc cachep slabp s =
     (let c = caches s cachep;
          d = slabs s slabp;
          i = bufctl d (unat (free d));
          (ret, d) = (if i \<noteq> BUFCTL_END
                      then (s_mem d + ucast (objsize c * ucast i),
                            d\<lparr>free := free d + 1, inuse := inuse d + 1\<rparr>)
                      else (0, d));
          s = set_slab slabp d s
      in if bufctl d (unat (free d)) = BUFCTL_END then (ret, set_cache cachep (to_full slabp c) s)
         else (ret, s))"

fun alloc_from :: "u64 \<Rightarrow> u64 list \<Rightarrow> kmem \<Rightarrow> u64 \<times> u64 \<times> kmem" where
  "alloc_from cachep [] s = (0, 0, s)"
| "alloc_from cachep (slabp # rest) s =
     (let (ret, s) = slab_alloc cachep slabp s
      in if ret \<noteq> 0 then (ret, slabp, s) else alloc_from cachep rest s)"

definition cache_alloc :: "u64 \<Rightarrow> kmem \<Rightarrow> u64 \<times> kmem" where
  "cache_alloc cachep s =
     (let (ret, slabp, s) = alloc_from cachep (slabs_partial (caches s cachep)) s
      in if ret \<noteq> 0 then (ret, s)
         else
           let (ret, slabp, s) = alloc_from cachep (slabs_free (caches s cachep)) s
           in if ret = 0 then (0, s)
              else
                let c = to_partial slabp (caches s cachep)
                in (ret, set_cache cachep (c\<lparr>free_slab := free_slab c - 1\<rparr>) s))"

definition kmem_cache_alloc :: "u64 \<Rightarrow> u32 \<Rightarrow> kmem \<Rightarrow> (u64 \<times> kmem) option" where
  "kmem_cache_alloc cachep fl s =
     (let (ret, s) = cache_alloc cachep s
      in if ret \<noteq> 0 then Some (ret, s)
         else Option.bind (cache_grow cachep s) (\<lambda>(r, s).
           if r = 0 then Some (cache_alloc cachep s) else Some (0, s)))"

section \<open>Freeing an object\<close>

text \<open>The C type \<open>int\<close> is \<open>u32\<close> here, with \<open>-1\<close> as \<open>0xffffffff\<close>.\<close>

definition slab_index :: "kmem_cache \<Rightarrow> slab_struct \<Rightarrow> u64 \<Rightarrow> u32" where
  "slab_index c d objp =
     (if objp < s_mem d then -1
      else if objp > s_mem d + ucast ((num c - 1) * objsize c) then -1
      else ucast ((objp - s_mem d) div ucast (objsize c)))"

text \<open>
  The search of \<open>__cache_free\<close> through one ring.  The result is the last slab looked at with its
  index, \<open>NULL\<close> being \<open>None\<close>, and whether the loop was left through the \<open>goto\<close>.
\<close>

fun find_slab :: "u64 \<Rightarrow> u64 \<Rightarrow> u64 list \<Rightarrow> (u64 \<times> u32) option \<Rightarrow> kmem \<Rightarrow> bool \<times> (u64 \<times> u32) option" where
  "find_slab cachep objp [] seen s = (False, seen)"
| "find_slab cachep objp (slabp # rest) seen s =
     (let ind = slab_index (caches s cachep) (slabs s slabp) objp
      in if ind \<noteq> -1 then (True, Some (slabp, ind))
         else find_slab cachep objp rest (Some (slabp, ind)) s)"

definition find_obj :: "u64 \<Rightarrow> u64 \<Rightarrow> kmem \<Rightarrow> (u64 \<times> u32) option" where
  "find_obj cachep objp s =
     (let (found, seen) = find_slab cachep objp (slabs_full (caches s cachep)) None s
      in if found then seen
         else snd (find_slab cachep objp (slabs_partial (caches s cachep)) seen s))"

definition cache_free :: "u64 \<Rightarrow> u64 \<Rightarrow> kmem \<Rightarrow> kmem option" where
  "cache_free cachep objp s =
     Option.bind (find_obj cachep objp s) (\<lambda>(slabp, ind).
        let c = caches s cachep;
            d = slabs s slabp;
            d = (if free d \<noteq> 0
                 then d\<lparr>free := free d - 1,
                        bufctl := (bufctl d)(unat (free d - 1) := ucast ind),
                        inuse := inuse d - 1\<rparr>
                 else d);
            s = set_slab slabp d s
        in if inuse d = 0
           then let c = to_free slabp c in Some (set_cache cachep (c\<lparr>free_slab := free_slab c + 1\<rparr>) s)
           else Some s)"

text \<open>
  \<open>list_first_entry\<close> of an empty ring yields the head itself, an address inside the cache.
\<close>

definition first_free :: "u64 \<Rightarrow> kmem_cache \<Rightarrow> u64" where
  "first_free cachep c =
     (case slabs_free c of [] \<Rightarrow> cachep + slabs_free_offset | slabp # _ \<Rightarrow> slabp)"

function trim_free :: "u64 \<Rightarrow> kmem \<Rightarrow> kmem option" where
  "trim_free cachep s =
     (let c = caches s cachep in
      if free_slab c > SLAB_MAX_FREE then
        (case free_pages (first_free cachep c) (unat (gfporder c)) (mm s) of
           None \<Rightarrow> None
         | Some m \<Rightarrow> trim_free cachep (set_cache cachep (c\<lparr>free_slab := free_slab c - 1\<rparr>) (s\<lparr>mm := m\<rparr>)))
      else Some s)"
  by pat_completeness auto
termination
proof (relation "measure (\<lambda>(cachep, s). unat (free_slab (caches s cachep)))")
  fix cachep and s :: kmem and c m
  assume c: "c = caches s cachep" "free_slab c > SLAB_MAX_FREE"
  then have "free_slab c > 0" using word_gt_0 by fastforce
  then show "((cachep, set_cache cachep (c\<lparr>free_slab := free_slab c - 1\<rparr>) (s\<lparr>mm := m\<rparr>)), cachep, s)
      \<in> measure (\<lambda>(cachep, s). unat (free_slab (caches s cachep)))"
    using c(1) by (simp add: set_cache_def unat_minus_one word_gt_0 unat_gt_0)
qed simp

declare trim_free.simps [simp del]

definition kmem_cache_free :: "u64 \<Rightarrow> u64 \<Rightarrow> kmem \<Rightarrow> kmem option" where
  "kmem_cache_free cachep objp s = Option.bind (cache_free cachep objp s) (trim_free cachep)"

section \<open>The layout of a slab\<close>

lemma unat_push_bit_page: "i < 8 \<Longrightarrow> unat (2 ^ i * ucast PAGE_SIZE :: u32) = 4096 * 2 ^ i"
proof -
  assume "i < 8"
  then have "(2::nat) ^ i \<le> 2 ^ 7" by (intro power_increasing) simp_all
  then have "unat (of_nat (2 ^ i) :: u32) = 2 ^ i" by (simp only: unat_of_nat) simp
  then have "unat (2 ^ i :: u32) = 2 ^ i" by simp
  then show ?thesis using \<open>2 ^ i \<le> 2 ^ 7\<close> by (simp add: unat_word_ariths PAGE_SIZE_def)
qed

lemma unat_kmem_align: "unat n \<le> 2 ^ 31 \<Longrightarrow> unat (kmem_align n) = upper_div (unat n) 8 * 8"
proof -
  assume n: "unat n \<le> 2 ^ 31"
  have "unat n div 8 * 8 + 8 < 2 ^ 32" using n by simp
  moreover have "(n mod 8 \<noteq> 0) = (unat n mod 8 > 0)" by (simp add: word_unat_eq_iff unat_mod)
  ultimately show ?thesis
    by (simp add: kmem_align_def upper_div_def unat_word_ariths unat_div)
qed

lemma unat_slab_head:
  assumes "unat n \<le> 512" shows "unat (slab_head n) = upper_div (32 + (unat n + 1) * 2) 8 * 8"
proof -
  have "unat (sizeof_slab + (n + 1) * 2) = 32 + (unat n + 1) * 2"
    using assms by (simp add: sizeof_slab_def unat_word_ariths)
  then show ?thesis using assms by (simp add: slab_head_def unat_kmem_align)
qed

lemma slab_head_ge: "unat n \<le> 512 \<Longrightarrow> 32 + (unat n + 1) * 2 \<le> unat (slab_head n)"
  unfolding unat_slab_head by (rule upper_div_nat_ge) simp

lemma slab_head_le: "unat n \<le> 512 \<Longrightarrow> unat (slab_head n) \<le> 41 + unat n * 2"
  using upper_div_nat_less [of 8 "32 + (unat n + 1) * 2"] by (simp add: unat_slab_head)

lemma slab_head_mono:
  assumes "unat m \<le> unat n" "unat n \<le> 512" shows "unat (slab_head m) \<le> unat (slab_head n)"
proof -
  have "upper_div (32 + (unat m + 1) * 2) 8 \<le> upper_div (32 + (unat n + 1) * 2) 8"
  proof (rule upper_div_le)
    have "32 + (unat m + 1) * 2 \<le> 32 + (unat n + 1) * 2" using assms by simp
    also have "\<dots> \<le> upper_div (32 + (unat n + 1) * 2) 8 * 8" by (rule upper_div_nat_ge) simp
    finally show "32 + (unat m + 1) * 2 \<le> upper_div (32 + (unat n + 1) * 2) 8 * 8" .
  qed simp
  then show ?thesis using assms by (simp add: unat_slab_head)
qed

lemma cache_order_spec:
  assumes "unat sz \<le> 131072" "i \<le> 7" "i = 0 \<or> 4096 * 2 ^ (i - 1) < unat sz * 4"
  shows "cache_order sz i \<le> 7 \<and> unat sz * 4 \<le> 4096 * 2 ^ cache_order sz i \<and>
    (cache_order sz i = 0 \<or> 4096 * 2 ^ (cache_order sz i - 1) < unat sz * 4)"
  using assms(2,3)
proof (induction "7 - i" arbitrary: i)
  case 0
  have "\<not> sz * SLAB_MIN_NUM > ucast PAGE_SIZE * push_bit i 1"
    using 0 assms(1) unat_push_bit_page [of i]
    by (simp add: word_less_nat_alt SLAB_MIN_NUM_def unat_word_ariths mult.commute)
  then have "cache_order sz i = i" by (subst cache_order.simps) simp
  then show ?case using 0 assms(1) by simp
next
  case (Suc k)
  have le: "sz * SLAB_MIN_NUM > ucast PAGE_SIZE * push_bit i 1 \<longleftrightarrow> unat sz * 4 > 4096 * 2 ^ i"
    using Suc(2,3) assms(1) unat_push_bit_page [of i]
    by (simp add: word_less_nat_alt SLAB_MIN_NUM_def unat_word_ariths mult.commute)
  show ?case
  proof (cases "unat sz * 4 > 4096 * 2 ^ i")
    case True
    then have "cache_order sz i = cache_order sz (i + 1)"
      using le Suc(2,3) by (subst cache_order.simps) simp
    then show ?thesis using Suc(1) [of "i + 1"] Suc(2,3) True by simp
  next
    case False
    then have "cache_order sz i = i" using le by (subst cache_order.simps) simp
    then show ?thesis using Suc(3,4) False by simp
  qed
qed

lemma cache_num_fits:
  assumes sz: "8 \<le> unat sz" "i \<le> 7" "unat sz * 4 \<le> 4096 * 2 ^ i"
    "i = 0 \<or> 4096 * 2 ^ (i - 1) < unat sz * 4" "unat sz mod 8 = 0"
  shows "3 \<le> unat (cache_num i sz) \<and> unat (cache_num i sz) \<le> 512 \<and>
    unat (slab_head (cache_num i sz)) + unat (cache_num i sz) * unat sz \<le> 4096 * 2 ^ i"
proof -
  define P where "P = (4096::nat) * 2 ^ i"
  define t where "t = 2 ^ i * ucast PAGE_SIZE div sz"
  have P: "unat (2 ^ i * ucast PAGE_SIZE :: u32) = P"
    using sz(2) unat_push_bit_page [of i] by (simp add: P_def)
  have t: "unat t = P div unat sz" by (simp add: t_def unat_div P)
  have head: "3 * unat sz + unat (slab_head t) \<le> P \<and> unat t \<le> 512"
  proof (cases "i = 0")
    case True
    show ?thesis
    proof (cases "unat sz = 8")
      case True
      then show ?thesis using \<open>i = 0\<close> slab_head_le [of t] by (simp add: t P_def)
    next
      case False
      then have "16 \<le> unat sz" using sz(1,5) by presburger
      then have "P div unat sz \<le> P div 16" by (rule div_le_mono2 [rotated]) simp
      then have "unat t \<le> 256" using True by (simp add: t P_def)
      then show ?thesis using slab_head_le [of t] sz(3) True by (simp add: P_def)
    qed
  next
    case False
    then have "P = 2 * (4096 * 2 ^ (i - 1))" by (cases i) (simp_all add: P_def)
    then have "P < 8 * unat sz" "1024 < unat sz"
      using sz(4) False one_le_power [of "2::nat" "i - 1"] by (auto, linarith)
    then have "P div unat sz < 8" by (simp add: less_mult_imp_div_less)
    then have "unat t \<le> 7" using t by simp
    then show ?thesis
      using slab_head_le [of t] sz(3) \<open>1024 < unat sz\<close> by (simp add: P_def)
  qed
  define num' where "num' = unat (cache_num i sz)"
  have "slab_head t \<le> 2 ^ i * ucast PAGE_SIZE"
    using head by (simp add: word_le_nat_alt P)
  then have num: "num' = (P - unat (slab_head t)) div unat sz"
    unfolding num'_def cache_num_def Let_def push_bit_of_1 t_def [symmetric]
    by (simp add: unat_div unat_sub P)
  have "num' \<le> unat t" unfolding num t by (rule div_le_mono) simp
  moreover have "3 \<le> num'"
  proof -
    have "3 * unat sz \<le> P - unat (slab_head t)" using head by linarith
    then show ?thesis unfolding num using sz(1) by (simp add: less_eq_div_iff_mult_less_eq)
  qed
  moreover have "num' * unat sz \<le> P - unat (slab_head t)" unfolding num by simp
  ultimately show ?thesis
    using head slab_head_mono [of "cache_num i sz" t] unfolding num'_def P_def by linarith
qed

section \<open>The invariant of one cache\<close>

definition slab_list :: "kmem_cache \<Rightarrow> u64 list" where
  "slab_list c = slabs_partial c @ slabs_full c @ slabs_free c"

text \<open>The objects of a slab that are free, in the order in which they are handed out.\<close>

definition avail :: "kmem_cache \<Rightarrow> slab_struct \<Rightarrow> nat list" where
  "avail c d = map (\<lambda>j. unat (bufctl d j)) [unat (free d) ..< unat (num c)]"

definition layout_ok :: "kmem_cache \<Rightarrow> bool" where
  "layout_ok c \<longleftrightarrow> unat (gfporder c) < 8 \<and> 0 < unat (num c) \<and> unat (num c) \<le> 512 \<and> 0 < unat (objsize c) \<and>
     unat (slab_head (num c)) + unat (num c) * unat (objsize c) \<le> 4096 * 2 ^ unat (gfporder c)"

definition slab_ok :: "kmem_cache \<Rightarrow> u64 \<Rightarrow> slab_struct \<Rightarrow> bool" where
  "slab_ok c slabp d \<longleftrightarrow> s_mem d = slabp + ucast (slab_head (num c)) \<and> inuse d = free d \<and>
     unat (free d) \<le> unat (num c) \<and> distinct (avail c d) \<and> set (avail c d) \<subseteq> {..<unat (num c)} \<and>
     bufctl d (unat (num c)) = BUFCTL_END \<and> unat slabp + 4096 * 2 ^ unat (gfporder c) < 2 ^ 64"

definition slabs_ok :: "kmem \<Rightarrow> u64 \<Rightarrow> bool" where
  "slabs_ok s cachep \<longleftrightarrow>
     layout_ok (caches s cachep) \<and> distinct (slab_list (caches s cachep)) \<and>
     (\<forall>slabp \<in> set (slab_list (caches s cachep)). slab_ok (caches s cachep) slabp (slabs s slabp))"

definition cache_ok :: "kmem \<Rightarrow> u64 \<Rightarrow> bool" where
  "cache_ok s cachep \<longleftrightarrow> slabs_ok s cachep \<and>
     (\<forall>slabp \<in> set (slabs_free (caches s cachep)). free (slabs s slabp) = 0) \<and>
     free_slab (caches s cachep) = of_nat (length (slabs_free (caches s cachep)))"

definition all_objs :: "kmem \<Rightarrow> u64 \<Rightarrow> (u64 \<times> nat) set" where
  "all_objs s cachep = set (slab_list (caches s cachep)) \<times> {..<unat (num (caches s cachep))}"

definition free_objs :: "kmem \<Rightarrow> u64 \<Rightarrow> (u64 \<times> nat) set" where
  "free_objs s cachep = {(slabp, i). slabp \<in> set (slab_list (caches s cachep)) \<and>
     i \<in> set (avail (caches s cachep) (slabs s slabp))}"

definition obj_addr :: "kmem_cache \<Rightarrow> u64 \<Rightarrow> nat \<Rightarrow> u64" where
  "obj_addr c slabp i = slabp + ucast (slab_head (num c)) + ucast (objsize c * of_nat i)"

text \<open>Two states that differ in nothing but the objects and the rings of one cache.\<close>

definition same_slabs :: "u64 \<Rightarrow> kmem \<Rightarrow> kmem \<Rightarrow> bool" where
  "same_slabs cachep s s' \<longleftrightarrow> mm s' = mm s \<and> (\<forall>c. c \<noteq> cachep \<longrightarrow> caches s' c = caches s c) \<and>
     (\<forall>slabp. slabp \<notin> set (slab_list (caches s cachep)) \<longrightarrow> slabs s' slabp = slabs s slabp) \<and>
     set (slab_list (caches s' cachep)) = set (slab_list (caches s cachep)) \<and>
     num (caches s' cachep) = num (caches s cachep) \<and>
     objsize (caches s' cachep) = objsize (caches s cachep) \<and>
     gfporder (caches s' cachep) = gfporder (caches s cachep)"

lemma same_slabs_refl [simp]: "same_slabs cachep s s"
  by (simp add: same_slabs_def)

lemma same_slabs_trans [trans]:
  "same_slabs cachep s s' \<Longrightarrow> same_slabs cachep s' s'' \<Longrightarrow> same_slabs cachep s s''"
  by (simp add: same_slabs_def)

lemma layout_cong:
  assumes "num c' = num c" "objsize c' = objsize c" "gfporder c' = gfporder c"
  shows "layout_ok c' = layout_ok c" "slab_ok c' = slab_ok c" "avail c' = avail c" "obj_addr c' = obj_addr c"
  using assms by (auto simp: layout_ok_def slab_ok_def avail_def obj_addr_def fun_eq_iff)

lemmas move_defs = to_full_def to_partial_def to_free_def unlink_slab_def Let_def

lemma move_fields [simp]:
  "num (to_full sl c) = num c" "objsize (to_full sl c) = objsize c" "gfporder (to_full sl c) = gfporder c"
  "num (to_partial sl c) = num c" "objsize (to_partial sl c) = objsize c"
  "gfporder (to_partial sl c) = gfporder c"
  "num (to_free sl c) = num c" "objsize (to_free sl c) = objsize c" "gfporder (to_free sl c) = gfporder c"
  "free_slab (to_full sl c) = free_slab c" "free_slab (to_partial sl c) = free_slab c"
  "free_slab (to_free sl c) = free_slab c"
  by (simp_all add: move_defs)

lemma move_list:
  assumes "distinct (slab_list c)" "sl \<in> set (slab_list c)"
  shows "distinct (slab_list (to_full sl c)) \<and> set (slab_list (to_full sl c)) = set (slab_list c)"
    "distinct (slab_list (to_partial sl c)) \<and> set (slab_list (to_partial sl c)) = set (slab_list c)"
    "distinct (slab_list (to_free sl c)) \<and> set (slab_list (to_free sl c)) = set (slab_list c)"
proof -
  let ?P = "slabs_partial c" and ?U = "slabs_full c" and ?F = "slabs_free c"
  have d: "distinct ?P" "distinct ?U" "distinct ?F" "set ?P \<inter> set ?U = {}"
    "set ?P \<inter> set ?F = {}" "set ?U \<inter> set ?F = {}"
    using assms(1) by (auto simp: slab_list_def)
  note rm = d(1-3) [THEN distinct_remove1_removeAll]
  have dis: "distinct (sl # removeAll sl ?P @ removeAll sl ?U @ removeAll sl ?F)"
    using d by (simp add: distinct_removeAll) blast
  have all: "set (sl # removeAll sl ?P @ removeAll sl ?U @ removeAll sl ?F) = set (slab_list c)"
    using assms(2) unfolding slab_list_def by auto
  let ?all = "sl # removeAll sl ?P @ removeAll sl ?U @ removeAll sl ?F"
  have key: "distinct ys \<and> set ys = set (slab_list c)" if "mset ys = mset ?all" for ys
  proof
    show "distinct ys" by (rule iffD2 [OF mset_eq_imp_distinct_iff [OF that] dis])
    show "set ys = set (slab_list c)" by (rule trans [OF mset_eq_setD [OF that] all])
  qed
  show "distinct (slab_list (to_full sl c)) \<and> set (slab_list (to_full sl c)) = set (slab_list c)"
    "distinct (slab_list (to_partial sl c)) \<and> set (slab_list (to_partial sl c)) = set (slab_list c)"
    "distinct (slab_list (to_free sl c)) \<and> set (slab_list (to_free sl c)) = set (slab_list c)"
    by (rule key, simp add: move_defs slab_list_def rm)+
qed

lemma slabs_free_upd [simp]: "slab_list (c\<lparr>free_slab := k\<rparr>) = slab_list c"
  "layout_ok (c\<lparr>free_slab := k\<rparr>) = layout_ok c" "slab_ok (c\<lparr>free_slab := k\<rparr>) = slab_ok c"
  "avail (c\<lparr>free_slab := k\<rparr>) = avail c" "obj_addr (c\<lparr>free_slab := k\<rparr>) = obj_addr c"
  using layout_cong [of "c\<lparr>free_slab := k\<rparr>" c] by (simp_all add: slab_list_def)

lemma set_cache_sel [simp]:
  "mm (set_cache cachep c s) = mm s" "slabs (set_cache cachep c s) = slabs s"
  "caches (set_cache cachep c s) = (caches s)(cachep := c)"
  by (simp_all add: set_cache_def)

lemma set_slab_sel [simp]:
  "mm (set_slab sl d s) = mm s" "slabs (set_slab sl d s) = (slabs s)(sl := d)"
  "caches (set_slab sl d s) = caches s"
  by (simp_all add: set_slab_def)

text \<open>Putting a slab on another ring, or changing it to a state that is well formed.\<close>

lemma cache_step:
  assumes ok: "slabs_ok s cachep" and sl: "sl \<in> set (slab_list (caches s cachep))"
    and d: "slab_ok (caches s cachep) sl d"
    and c: "num c = num (caches s cachep)" "objsize c = objsize (caches s cachep)"
      "gfporder c = gfporder (caches s cachep)" "distinct (slab_list c)"
      "set (slab_list c) = set (slab_list (caches s cachep))"
  shows "slabs_ok (set_cache cachep c (set_slab sl d s)) cachep"
    "same_slabs cachep s (set_cache cachep c (set_slab sl d s))"
    "free_objs (set_cache cachep c (set_slab sl d s)) cachep =
       (free_objs s cachep - {sl} \<times> UNIV) \<union> {sl} \<times> set (avail (caches s cachep) d)"
  using assms layout_cong [OF c(1,2,3)]
  by (auto simp: slabs_ok_def same_slabs_def free_objs_def split: if_splits)

section \<open>Allocation within one cache\<close>

lemma unat_obj_offset:
  assumes "layout_ok c" "i < unat (num c)"
  shows "unat (ucast (objsize c * of_nat i) :: u64) = i * unat (objsize c)"
    "unat (slab_head (num c)) + (i + 1) * unat (objsize c) \<le> 4096 * 2 ^ unat (gfporder c)"
proof -
  have "(i + 1) * unat (objsize c) \<le> unat (num c) * unat (objsize c)"
    using assms(2) by (intro mult_right_mono) simp_all
  then show le: "unat (slab_head (num c)) + (i + 1) * unat (objsize c) \<le> 4096 * 2 ^ unat (gfporder c)"
    using assms(1) unfolding layout_ok_def by linarith
  have "(2::nat) ^ unat (gfporder c) \<le> 2 ^ 7"
    using assms(1) by (intro power_increasing) (simp_all add: layout_ok_def)
  then have "i * unat (objsize c) < 2 ^ 32" using le by simp
  moreover have "i \<le> 512" using assms by (simp add: layout_ok_def)
  ultimately show "unat (ucast (objsize c * of_nat i) :: u64) = i * unat (objsize c)"
    by (simp add: unsigned_ucast_eq unat_word_ariths unat_of_nat take_bit_eq_mod mult.commute)
qed

lemma unat_obj_addr:
  assumes "layout_ok c" "i < unat (num c)" "unat slabp + 4096 * 2 ^ unat (gfporder c) < 2 ^ 64"
  shows "unat (obj_addr c slabp i) = unat slabp + unat (slab_head (num c)) + i * unat (objsize c)"
proof -
  note off = unat_obj_offset [OF assms(1,2)]
  have "unat slabp + unat (slab_head (num c)) + i * unat (objsize c) < 2 ^ 64"
    using off(2) assms(3) by simp
  then show ?thesis by (simp add: obj_addr_def unat_word_ariths off(1))
qed

lemma obj_addr_nonzero:
  assumes "layout_ok c" "i < unat (num c)" "unat slabp + 4096 * 2 ^ unat (gfporder c) < 2 ^ 64"
  shows "obj_addr c slabp i \<noteq> 0"
proof -
  have "unat (obj_addr c slabp i) > 0"
    using unat_obj_addr [OF assms] slab_head_ge [of "num c"] assms(1) by (simp add: layout_ok_def)
  then show ?thesis by auto
qed

lemma avail_cases:
  assumes "layout_ok c" "slab_ok c slabp d"
  shows "avail c d = [] \<longleftrightarrow> bufctl d (unat (free d)) = BUFCTL_END"
    "avail c d = [] \<longleftrightarrow> unat (free d) = unat (num c)"
    "avail c d = i # r \<Longrightarrow> unat (free d) < unat (num c) \<and> unat (bufctl d (unat (free d))) = i \<and>
       i < unat (num c) \<and> unat (free d + 1) = unat (free d) + 1 \<and>
       avail c (d\<lparr>free := free d + 1, inuse := k\<rparr>) = r"
proof -
  have le: "unat (free d) \<le> unat (num c)" "unat (num c) \<le> 512" using assms by (simp_all add: slab_ok_def layout_ok_def)
  have cons: "avail c d = unat (bufctl d (unat (free d))) # map (\<lambda>j. unat (bufctl d j)) [unat (free d) + 1 ..< unat (num c)]"
    if "unat (free d) < unat (num c)" using that by (simp add: avail_def upt_conv_Cons)
  show empty: "avail c d = [] \<longleftrightarrow> unat (free d) = unat (num c)" using le by (auto simp: avail_def)
  show "avail c d = [] \<longleftrightarrow> bufctl d (unat (free d)) = BUFCTL_END"
  proof
    assume "avail c d = []"
    then show "bufctl d (unat (free d)) = BUFCTL_END" using empty assms(2) by (simp add: slab_ok_def)
  next
    assume e: "bufctl d (unat (free d)) = BUFCTL_END"
    show "avail c d = []"
    proof (rule ccontr)
      assume "avail c d \<noteq> []"
      then have "unat (bufctl d (unat (free d))) \<in> set (avail c d)" using cons le empty by simp
      then have "unat BUFCTL_END < unat (num c)" using assms(2) e by (auto simp: slab_ok_def)
      then show False using le by (simp add: BUFCTL_END_def)
    qed
  qed
  assume i: "avail c d = i # r"
  then have "unat (free d) < unat (num c)" using empty le by (metis list.distinct(1) nat_less_le)
  moreover have "unat (free d + 1) = unat (free d) + 1" using le by (simp add: unat_word_ariths)
  moreover have "i < unat (num c)" using assms(2) i by (simp add: slab_ok_def)
  ultimately show "unat (free d) < unat (num c) \<and> unat (bufctl d (unat (free d))) = i \<and>
       i < unat (num c) \<and> unat (free d + 1) = unat (free d) + 1 \<and>
       avail c (d\<lparr>free := free d + 1, inuse := k\<rparr>) = r"
    using i cons by (simp add: avail_def)
qed

lemma slab_alloc_full:
  assumes "slabs_ok s cachep" "sl \<in> set (slab_list (caches s cachep))"
    "avail (caches s cachep) (slabs s sl) = []"
  shows "slab_alloc cachep sl s = (0, set_cache cachep (to_full sl (caches s cachep)) s)"
proof -
  have "layout_ok (caches s cachep)" "slab_ok (caches s cachep) sl (slabs s sl)"
    using assms by (simp_all add: slabs_ok_def)
  from avail_cases(1) [OF this] assms(3) show ?thesis
    by (simp add: slab_alloc_def Let_def set_slab_def)
qed

lemma slab_alloc_got:
  assumes "slabs_ok s cachep" "sl \<in> set (slab_list (caches s cachep))"
    "avail (caches s cachep) (slabs s sl) = i # r"
  defines "d \<equiv> (slabs s sl)\<lparr>free := free (slabs s sl) + 1, inuse := inuse (slabs s sl) + 1\<rparr>"
  shows "slab_alloc cachep sl s = (obj_addr (caches s cachep) sl i,
      set_cache cachep (if r = [] then to_full sl (caches s cachep) else caches s cachep) (set_slab sl d s))"
    "obj_addr (caches s cachep) sl i \<noteq> 0" "slab_ok (caches s cachep) sl d"
    "avail (caches s cachep) d = r"
proof -
  let ?c = "caches s cachep"
  have ok: "layout_ok ?c" "slab_ok ?c sl (slabs s sl)" using assms(1,2) by (simp_all add: slabs_ok_def)
  note av = avail_cases(3) [OF ok assms(3)]
  show r: "avail ?c d = r" using av by (simp add: d_def)
  have "bufctl d = bufctl (slabs s sl)" "s_mem d = s_mem (slabs s sl)" by (simp_all add: d_def)
  moreover have "unat (free d) \<le> unat (num ?c)" "inuse d = free d"
    using av [of 0] ok by (simp_all add: d_def slab_ok_def)
  ultimately show ok': "slab_ok ?c sl d"
    using ok r assms(3) unfolding slab_ok_def by simp
  show "obj_addr ?c sl i \<noteq> 0"
    using av ok by (intro obj_addr_nonzero) (simp_all add: slab_ok_def)
  let ?b = "bufctl (slabs s sl) (unat (free (slabs s sl)))"
  have b: "?b \<noteq> BUFCTL_END" using avail_cases(1) [OF ok] assms(3) by simp
  have "unat ?b = i" using av by simp
  then have "(ucast ?b :: u32) = of_nat i" by (metis of_nat_unat)
  then have "s_mem (slabs s sl) + ucast (objsize ?c * ucast ?b) = obj_addr ?c sl i"
    using ok by (simp add: slab_ok_def obj_addr_def)
  with b avail_cases(1) [OF ok(1) ok'] r
  show "slab_alloc cachep sl s = (obj_addr ?c sl i, set_cache cachep (if r = [] then to_full sl ?c else ?c) (set_slab sl d s))"
    by (simp add: slab_alloc_def Let_def d_def set_cache_def set_slab_def)
qed

lemma free_objs_slab:
  assumes "slabs_ok s cachep" "sl \<in> set (slab_list (caches s cachep))"
    "avail (caches s cachep) (slabs s sl) = i # r"
  shows "(sl, i) \<in> free_objs s cachep"
    "(free_objs s cachep - {sl} \<times> UNIV) \<union> {sl} \<times> set r = free_objs s cachep - {(sl, i)}"
proof -
  have "distinct (i # r)" using assms by (auto simp: slabs_ok_def slab_ok_def)
  then show "(free_objs s cachep - {sl} \<times> UNIV) \<union> {sl} \<times> set r = free_objs s cachep - {(sl, i)}"
    using assms(2,3) by (auto simp: free_objs_def)
  show "(sl, i) \<in> free_objs s cachep" using assms(2,3) by (simp add: free_objs_def)
qed

definition obj_taken :: "kmem \<Rightarrow> u64 \<Rightarrow> u64 \<Rightarrow> kmem \<Rightarrow> bool" where
  "obj_taken s cachep ret s' \<longleftrightarrow> (\<exists>sl i. (sl, i) \<in> free_objs s cachep \<and>
     ret = obj_addr (caches s cachep) sl i \<and> free_objs s' cachep = free_objs s cachep - {(sl, i)})"

lemma slab_alloc_step:
  assumes ok: "slabs_ok s cachep" "sl \<in> set (slab_list (caches s cachep))"
    and eq: "slab_alloc cachep sl s = (ret, s')"
  shows "slabs_ok s' cachep \<and> same_slabs cachep s s' \<and>
    (\<forall>x. x \<noteq> sl \<longrightarrow> slabs s' x = slabs s x) \<and> free_slab (caches s' cachep) = free_slab (caches s cachep) \<and>
    (caches s' cachep = caches s cachep \<or> caches s' cachep = to_full sl (caches s cachep)) \<and>
    (if avail (caches s cachep) (slabs s sl) = []
     then ret = 0 \<and> free_objs s' cachep = free_objs s cachep
     else ret \<noteq> 0 \<and> obj_taken s cachep ret s')"
proof (cases "avail (caches s cachep) (slabs s sl)")
  case Nil
  have d: "slab_ok (caches s cachep) sl (slabs s sl)" and dis: "distinct (slab_list (caches s cachep))"
    using ok by (simp_all add: slabs_ok_def)
  have c: "num (to_full sl (caches s cachep)) = num (caches s cachep)"
    "objsize (to_full sl (caches s cachep)) = objsize (caches s cachep)"
    "gfporder (to_full sl (caches s cachep)) = gfporder (caches s cachep)" by simp_all
  have same: "set_slab sl (slabs s sl) s = s" by (simp add: set_slab_def)
  note step = cache_step [OF ok d c move_list(1) [OF dis ok(2), THEN conjunct1]
      move_list(1) [OF dis ok(2), THEN conjunct2], unfolded same]
  have "s' = set_cache cachep (to_full sl (caches s cachep)) s" "ret = 0"
    using slab_alloc_full [OF ok Nil] eq by simp_all
  moreover have "free_objs s cachep - {sl} \<times> UNIV = free_objs s cachep"
    using Nil by (auto simp: free_objs_def)
  ultimately show ?thesis using step Nil by simp
next
  case (Cons i r)
  define c where "c = (if r = [] then to_full sl (caches s cachep) else caches s cachep)"
  define d where "d = (slabs s sl)\<lparr>free := free (slabs s sl) + 1, inuse := inuse (slabs s sl) + 1\<rparr>"
  note got = slab_alloc_got [OF ok Cons, folded d_def c_def]
  have dis: "distinct (slab_list (caches s cachep))" using ok by (simp add: slabs_ok_def)
  have c: "num c = num (caches s cachep)" "objsize c = objsize (caches s cachep)"
    "gfporder c = gfporder (caches s cachep)" "distinct (slab_list c)"
    "set (slab_list c) = set (slab_list (caches s cachep))"
    using move_list(1) [OF dis ok(2)] dis by (auto simp: c_def)
  note step = cache_step [OF ok got(3) c]
  have "s' = set_cache cachep c (set_slab sl d s)" "ret = obj_addr (caches s cachep) sl i"
    using got(1) eq by simp_all
  moreover from this have "obj_taken s cachep ret s'"
    unfolding obj_taken_def using step(3) free_objs_slab [OF ok Cons] got(4) by auto
  moreover have "free_slab c = free_slab (caches s cachep)" "c = caches s cachep \<or> c = to_full sl (caches s cachep)"
    by (simp_all add: c_def)
  ultimately show ?thesis using step(1,2) got(2) Cons by simp
qed

lemma obj_taken_cong:
  assumes "same_slabs cachep s s1" "free_objs s1 cachep = free_objs s cachep"
  shows "obj_taken s1 cachep ret s' = obj_taken s cachep ret s'"
  using assms layout_cong [of "caches s1 cachep" "caches s cachep"] by (simp add: obj_taken_def same_slabs_def)

lemma alloc_from_partial:
  assumes "cache_ok s cachep" "set ls \<subseteq> set (slab_list (caches s cachep))"
    "set ls \<inter> set (slabs_free (caches s cachep)) = {}" "alloc_from cachep ls s = (ret, sl, s')"
  shows "cache_ok s' cachep \<and> same_slabs cachep s s' \<and>
    slabs_free (caches s' cachep) = slabs_free (caches s cachep) \<and>
    (if ret = 0 then free_objs s' cachep = free_objs s cachep else obj_taken s cachep ret s')"
  using assms
proof (induction ls arbitrary: s)
  case (Cons x ls)
  obtain r1 s1 where eq: "slab_alloc cachep x s = (r1, s1)" by fastforce
  have ok: "slabs_ok s cachep" "x \<in> set (slab_list (caches s cachep))" and x: "x \<notin> set (slabs_free (caches s cachep))"
    using Cons.prems by (simp_all add: cache_ok_def)
  note st = slab_alloc_step [OF ok eq]
  have fr: "slabs_free (caches s1 cachep) = slabs_free (caches s cachep)"
    using st x by (auto simp: move_defs remove1_idem)
  have ok1: "cache_ok s1 cachep"
    using st Cons.prems(1) x unfolding cache_ok_def fr by auto
  show ?case
  proof (cases "r1 = 0")
    case False
    then have "ret = r1" "s' = s1" using Cons.prems(4) eq by auto
    then show ?thesis using st ok1 fr False by (simp split: if_splits)
  next
    case True
    have objs: "same_slabs cachep s s1" "free_objs s1 cachep = free_objs s cachep"
      using st True by (simp_all split: if_splits)
    have "alloc_from cachep ls s1 = (ret, sl, s')" using Cons.prems(4) eq True by simp
    moreover have "set (slab_list (caches s1 cachep)) = set (slab_list (caches s cachep))"
      using objs(1) by (simp add: same_slabs_def)
    ultimately show ?thesis
      using Cons.IH [of s1] ok1 fr Cons.prems(2,3) objs obj_taken_cong [OF objs]
        same_slabs_trans [OF objs(1)] by auto
  qed
qed simp

lemma alloc_from_free:
  assumes "cache_ok s cachep" "slabs_free (caches s cachep) = sl # rest"
    "slab_alloc cachep sl s = (ret, s1)"
  defines "c \<equiv> to_partial sl (caches s1 cachep)"
  defines "s' \<equiv> set_cache cachep (c\<lparr>free_slab := free_slab c - 1\<rparr>) s1"
  shows "ret \<noteq> 0" "cache_ok s' cachep" "same_slabs cachep s s'" "obj_taken s cachep ret s'"
proof -
  let ?c = "caches s cachep"
  have ok: "slabs_ok s cachep" "sl \<in> set (slab_list ?c)" "distinct (slab_list ?c)"
    using assms by (auto simp: cache_ok_def slabs_ok_def slab_list_def)
  have "free (slabs s sl) = 0" using assms by (simp add: cache_ok_def)
  then have av: "avail ?c (slabs s sl) \<noteq> []" using ok by (auto simp: avail_def slabs_ok_def layout_ok_def)
  note st = slab_alloc_step [OF ok(1,2) assms(3)]
  from st av show "ret \<noteq> 0" by simp
  have ok1: "slabs_ok s1 cachep" "sl \<in> set (slab_list (caches s1 cachep))"
    "distinct (slab_list (caches s1 cachep))" "slab_ok (caches s1 cachep) sl (slabs s1 sl)"
    using st ok(2) by (auto simp: same_slabs_def slabs_ok_def)
  let ?c' = "c\<lparr>free_slab := free_slab c - 1\<rparr>"
  have c': "num ?c' = num (caches s1 cachep)" "objsize ?c' = objsize (caches s1 cachep)"
    "gfporder ?c' = gfporder (caches s1 cachep)" "distinct (slab_list ?c')"
    "set (slab_list ?c') = set (slab_list (caches s1 cachep))"
    using move_list(2) [OF ok1(3,2)] by (simp_all add: c_def)
  have same: "set_slab sl (slabs s1 sl) s1 = s1" by (simp add: set_slab_def)
  note step = cache_step [OF ok1(1,2,4) c', unfolded same, folded s'_def]
  show "same_slabs cachep s s'" using st step(2) same_slabs_trans by blast
  have "free_objs s' cachep = free_objs s1 cachep" using step(3) ok1(2) by (auto simp: free_objs_def)
  then show "obj_taken s cachep ret s'" using st av by (simp add: obj_taken_def)
  have "slabs_free c = remove1 sl (slabs_free ?c)"
    using st ok(3) assms(2) by (auto simp: c_def move_defs slab_list_def remove1_idem)
  then have "slabs_free c = rest" "sl \<notin> set rest" using assms(2) ok(3) by (simp_all add: slab_list_def)
  moreover have "free_slab c - 1 = of_nat (length rest)"
    using st assms(1,2) by (simp add: c_def cache_ok_def)
  ultimately show "cache_ok s' cachep"
    using step(1) st assms(1,2) unfolding cache_ok_def s'_def by auto
qed

lemma cache_alloc_spec:
  assumes "cache_ok s cachep" "cache_alloc cachep s = (ret, s')"
  shows "cache_ok s' cachep \<and> same_slabs cachep s s' \<and>
    (if ret = 0 then slabs_free (caches s cachep) = [] \<and> free_objs s' cachep = free_objs s cachep
     else obj_taken s cachep ret s')"
proof -
  obtain r1 sl1 s1 where eq: "alloc_from cachep (slabs_partial (caches s cachep)) s = (r1, sl1, s1)"
    by (metis prod.exhaust)
  have "distinct (slab_list (caches s cachep))" using assms(1) by (simp add: cache_ok_def slabs_ok_def)
  then have pre: "set (slabs_partial (caches s cachep)) \<subseteq> set (slab_list (caches s cachep))"
    "set (slabs_partial (caches s cachep)) \<inter> set (slabs_free (caches s cachep)) = {}"
    by (auto simp: slab_list_def)
  note p = alloc_from_partial [OF assms(1) pre eq]
  show ?thesis
  proof (cases "r1 = 0")
    case False
    then have "ret = r1" "s' = s1" using assms(2) eq by (simp_all add: cache_alloc_def)
    then show ?thesis using p False by simp
  next
    case True
    have objs: "same_slabs cachep s s1" "free_objs s1 cachep = free_objs s cachep" "cache_ok s1 cachep"
      "slabs_free (caches s1 cachep) = slabs_free (caches s cachep)" using p True by simp_all
    show ?thesis
    proof (cases "slabs_free (caches s1 cachep)")
      case Nil
      then have "ret = 0" "s' = s1" using assms(2) eq True by (simp_all add: cache_alloc_def)
      then show ?thesis using p True Nil by simp
    next
      case (Cons x rest)
      obtain r2 s2 where eq2: "slab_alloc cachep x s1 = (r2, s2)" by fastforce
      note f = alloc_from_free [OF objs(3) Cons eq2]
      have "ret = r2" "s' = set_cache cachep
          ((to_partial x (caches s2 cachep))\<lparr>free_slab := free_slab (to_partial x (caches s2 cachep)) - 1\<rparr>) s2"
        using assms(2) eq True eq2 f(1) by (simp_all add: cache_alloc_def Cons Let_def)
      then show ?thesis
        using f obj_taken_cong [OF objs(1,2)] same_slabs_trans [OF objs(1)] by simp
    qed
  qed
qed

section \<open>Freeing within one cache\<close>

definition apart :: "kmem_cache \<Rightarrow> u64 \<Rightarrow> u64 \<Rightarrow> bool" where
  "apart c sl sl' \<longleftrightarrow> unat sl + 4096 * 2 ^ unat (gfporder c) \<le> unat sl' \<or>
     unat sl' + 4096 * 2 ^ unat (gfporder c) \<le> unat sl"

lemma unat_slab_bounds:
  assumes "layout_ok c" "slab_ok c sl d"
  shows "unat (s_mem d) = unat sl + unat (slab_head (num c))"
    "unat (s_mem d + ucast ((num c - 1) * objsize c)) =
       unat sl + unat (slab_head (num c)) + (unat (num c) - 1) * unat (objsize c)"
proof -
  have n: "0 < unat (num c)" and sl: "unat sl + 4096 * 2 ^ unat (gfporder c) < 2 ^ 64"
    and mem: "s_mem d = sl + ucast (slab_head (num c))"
    using assms by (auto simp: layout_ok_def slab_ok_def)
  have "obj_addr c sl 0 = s_mem d" by (simp add: obj_addr_def mem)
  then show "unat (s_mem d) = unat sl + unat (slab_head (num c))"
    using unat_obj_addr [OF assms(1) n sl] by simp
  have "num c - 1 = of_nat (unat (num c) - 1)" using n by (simp add: of_nat_diff)
  then have "s_mem d + ucast ((num c - 1) * objsize c) = obj_addr c sl (unat (num c) - 1)"
    by (simp add: obj_addr_def mem mult.commute)
  then show "unat (s_mem d + ucast ((num c - 1) * objsize c)) =
       unat sl + unat (slab_head (num c)) + (unat (num c) - 1) * unat (objsize c)"
    using unat_obj_addr [OF assms(1) _ sl, of "unat (num c) - 1"] n by simp
qed

lemma slab_index_own:
  assumes "layout_ok c" "slab_ok c sl d" "i < unat (num c)"
  shows "slab_index c d (obj_addr c sl i) = of_nat i" "(of_nat i :: u32) \<noteq> -1"
proof -
  note b = unat_slab_bounds [OF assms(1,2)]
  have sl: "unat sl + 4096 * 2 ^ unat (gfporder c) < 2 ^ 64" using assms(2) by (simp add: slab_ok_def)
  note a = unat_obj_addr [OF assms(1,3) sl]
  have "i * unat (objsize c) \<le> (unat (num c) - 1) * unat (objsize c)"
    using assms(3) by (intro mult_right_mono) simp_all
  then have "\<not> obj_addr c sl i < s_mem d" "\<not> s_mem d + ucast ((num c - 1) * objsize c) < obj_addr c sl i"
    using a b unfolding word_less_nat_alt by linarith+
  moreover have diff: "obj_addr c sl i - s_mem d = ucast (objsize c * of_nat i)"
    using assms(2) by (simp add: slab_ok_def obj_addr_def)
  moreover have "(obj_addr c sl i - s_mem d) div ucast (objsize c) = of_nat i"
  proof (rule word_unat_eq_iff [THEN iffD2])
    have "0 < unat (objsize c)" "i < 2 ^ 64" using assms by (simp_all add: layout_ok_def)
    then show "unat ((obj_addr c sl i - s_mem d) div ucast (objsize c)) = unat (of_nat i :: u64)"
      unfolding diff by (simp add: unat_div unat_obj_offset(1) [OF assms(1,3)] unat_of_nat)
  qed
  moreover have i: "i \<le> 512" using assms(1,3) by (simp add: layout_ok_def)
  moreover have "ucast (of_nat i :: u64) = (of_nat i :: u32)" by (simp add: ucast_of_nat_narrow)
  ultimately show "slab_index c d (obj_addr c sl i) = of_nat i" by (simp add: slab_index_def)
  have "unat (-1 :: u32) = 2 ^ 32 - 1" by (simp add: unsigned_minus_1_eq_mask mask_eq_exp_minus_1)
  then have "unat (of_nat i :: u32) \<noteq> unat (-1 :: u32)" using i by (simp add: unat_of_nat)
  then show "(of_nat i :: u32) \<noteq> -1" by metis
qed

lemma slab_index_other:
  assumes "layout_ok c" "slab_ok c sl d" "i < unat (num c)" "slab_ok c sl' d'" "apart c sl sl'"
  shows "slab_index c d' (obj_addr c sl i) = -1"
proof -
  note b = unat_slab_bounds [OF assms(1,4)]
  have sl: "unat sl + 4096 * 2 ^ unat (gfporder c) < 2 ^ 64" using assms(2) by (simp add: slab_ok_def)
  note a = unat_obj_addr [OF assms(1,3) sl] unat_obj_offset(2) [OF assms(1,3)]
  have "(unat (num c) - 1) * unat (objsize c) \<le> unat (num c) * unat (objsize c)"
    by (intro mult_right_mono) simp_all
  moreover have "0 < unat (objsize c)" "unat (slab_head (num c)) > 0"
    "unat (slab_head (num c)) + unat (num c) * unat (objsize c) \<le> 4096 * 2 ^ unat (gfporder c)"
    using assms(1) slab_head_ge [of "num c"] by (auto simp: layout_ok_def)
  moreover have "(unat (num c) - 1) * unat (objsize c) + unat (objsize c) = unat (num c) * unat (objsize c)"
    using assms(3) by (cases "unat (num c)") simp_all
  moreover have "(i + 1) * unat (objsize c) = i * unat (objsize c) + unat (objsize c)" by simp
  ultimately have "unat (obj_addr c sl i) < unat (s_mem d') \<or>
      unat (s_mem d' + ucast ((num c - 1) * objsize c)) < unat (obj_addr c sl i)"
    using assms(5) a b unfolding apart_def by linarith
  then have "obj_addr c sl i < s_mem d' \<or> s_mem d' + ucast ((num c - 1) * objsize c) < obj_addr c sl i"
    unfolding word_less_nat_alt .
  then show ?thesis by (auto simp: slab_index_def)
qed

lemma find_slab_spec:
  assumes "slabs_ok s cachep" "sl \<in> set (slab_list (caches s cachep))" "i < unat (num (caches s cachep))"
    "\<forall>sl' \<in> set (slab_list (caches s cachep)). sl' \<noteq> sl \<longrightarrow> apart (caches s cachep) sl sl'"
    "set ls \<subseteq> set (slab_list (caches s cachep))"
  shows "sl \<in> set ls \<Longrightarrow>
      find_slab cachep (obj_addr (caches s cachep) sl i) ls seen s = (True, Some (sl, of_nat i))"
    "sl \<notin> set ls \<Longrightarrow> fst (find_slab cachep (obj_addr (caches s cachep) sl i) ls seen s) = False"
proof -
  let ?c = "caches s cachep"
  have ok: "layout_ok ?c" "slab_ok ?c sl (slabs s sl)" using assms(1,2) by (simp_all add: slabs_ok_def)
  have other: "slab_index ?c (slabs s x) (obj_addr ?c sl i) = -1" if "x \<in> set ls" "x \<noteq> sl" for x
    using that assms ok by (intro slab_index_other) (auto simp: slabs_ok_def)
  note own = slab_index_own [OF ok assms(3)]
  show "sl \<in> set ls \<Longrightarrow> find_slab cachep (obj_addr ?c sl i) ls seen s = (True, Some (sl, of_nat i))"
    using other own by (induction ls arbitrary: seen) (auto simp: Let_def)
  show "sl \<notin> set ls \<Longrightarrow> fst (find_slab cachep (obj_addr ?c sl i) ls seen s) = False"
    using other by (induction ls arbitrary: seen) (auto simp: Let_def)
qed

lemma avail_full:
  assumes "slab_ok c sl d" "free d = 0" shows "set (avail c d) = {..<unat (num c)}"
proof -
  have "distinct (avail c d)" "set (avail c d) \<subseteq> {..<unat (num c)}" using assms by (simp_all add: slab_ok_def)
  moreover have "length (avail c d) = unat (num c)" using assms(2) by (simp add: avail_def)
  ultimately show ?thesis by (simp add: card_subset_eq distinct_card)
qed

lemma slab_put:
  assumes "layout_ok c" "slab_ok c sl d" "i < unat (num c)" "i \<notin> set (avail c d)"
  defines "d' \<equiv> d\<lparr>free := free d - 1, bufctl := (bufctl d)(unat (free d - 1) := of_nat i), inuse := inuse d - 1\<rparr>"
  shows "free d \<noteq> 0" "avail c d' = i # avail c d" "slab_ok c sl d'"
proof -
  show nz: "free d \<noteq> 0" using avail_full [OF assms(2)] assms(3,4) by auto
  have f: "unat (free d - 1) = unat (free d) - 1" "0 < unat (free d)" "unat (free d) \<le> unat (num c)"
    using nz assms(2) by (simp_all add: unat_minus_one unat_gt_0 slab_ok_def)
  have "unat (of_nat i :: u16) = i" using assms(1,3) by (simp add: layout_ok_def unat_of_nat)
  moreover have "[unat (free d) - 1 ..< unat (num c)] = (unat (free d) - 1) # [unat (free d) ..< unat (num c)]"
    using f by (simp add: upt_conv_Cons)
  ultimately show av: "avail c d' = i # avail c d" using f by (auto simp: avail_def d'_def)
  show "slab_ok c sl d'"
    using assms(2-4) f av unfolding slab_ok_def by (auto simp: d'_def)
qed

lemma cache_free_spec:
  assumes ok: "cache_ok s cachep" and obj: "(sl, i) \<in> all_objs s cachep - free_objs s cachep"
    and apart: "\<forall>sl' \<in> set (slab_list (caches s cachep)). sl' \<noteq> sl \<longrightarrow> apart (caches s cachep) sl sl'"
  shows "\<exists>s'. cache_free cachep (obj_addr (caches s cachep) sl i) s = Some s' \<and> cache_ok s' cachep \<and>
    same_slabs cachep s s' \<and> free_objs s' cachep = insert (sl, i) (free_objs s cachep) \<and>
    (free (slabs s sl) = 1 \<longrightarrow> slabs_free (caches s' cachep) = sl # slabs_free (caches s cachep))"
proof -
  let ?c = "caches s cachep" and ?d = "slabs s sl"
  have sl: "sl \<in> set (slab_list ?c)" "i < unat (num ?c)" "i \<notin> set (avail ?c ?d)"
    using obj by (auto simp: all_objs_def free_objs_def)
  have k: "slabs_ok s cachep" "layout_ok ?c" "slab_ok ?c sl ?d" "distinct (slab_list ?c)"
    using ok sl by (simp_all add: cache_ok_def slabs_ok_def)
  define d' where "d' = ?d\<lparr>free := free ?d - 1, bufctl := (bufctl ?d)(unat (free ?d - 1) := of_nat i), inuse := inuse ?d - 1\<rparr>"
  note put = slab_put [OF k(2,3) sl(2,3), folded d'_def]
  have nf: "sl \<notin> set (slabs_free ?c)" using ok put(1) by (auto simp: cache_ok_def)
  have "set (slabs_full ?c) \<subseteq> set (slab_list ?c)" "set (slabs_partial ?c) \<subseteq> set (slab_list ?c)"
    by (auto simp: slab_list_def)
  note find = this(1) [THEN find_slab_spec(1) [OF k(1) sl(1,2) apart]]
    this(1) [THEN find_slab_spec(2) [OF k(1) sl(1,2) apart]]
    this(2) [THEN find_slab_spec(1) [OF k(1) sl(1,2) apart]]
  have found: "find_obj cachep (obj_addr ?c sl i) s = Some (sl, of_nat i)"
  proof (cases "sl \<in> set (slabs_full ?c)")
    case True
    then show ?thesis using find(1) by (simp add: find_obj_def)
  next
    case False
    then have "sl \<in> set (slabs_partial ?c)" using sl(1) nf by (simp add: slab_list_def)
    then show ?thesis using find(2,3) False by (simp add: find_obj_def split_beta)
  qed
  have "ucast (of_nat i :: u32) = (of_nat i :: u16)" by (simp add: ucast_of_nat_narrow)
  moreover have "inuse ?d = free ?d" using k(3) by (simp add: slab_ok_def)
  moreover define c' where "c' = (if free ?d - 1 = 0 then (to_free sl ?c)\<lparr>free_slab := free_slab ?c + 1\<rparr> else ?c)"
  ultimately have eq: "cache_free cachep (obj_addr ?c sl i) s = Some (set_cache cachep c' (set_slab sl d' s))"
    using put(1) by (auto simp: cache_free_def found d'_def Let_def set_cache_def set_slab_def)
  have c': "num c' = num ?c" "objsize c' = objsize ?c" "gfporder c' = gfporder ?c" "distinct (slab_list c')"
    "set (slab_list c') = set (slab_list ?c)"
    using move_list(3) [OF k(4) sl(1)] k(4) by (auto simp: c'_def)
  note step = cache_step [OF k(1) sl(1) put(3) c']
  have sf: "slabs_free c' = (if free ?d - 1 = 0 then sl # slabs_free ?c else slabs_free ?c)"
    using nf by (simp add: c'_def move_defs remove1_idem)
  then have "cache_ok (set_cache cachep c' (set_slab sl d' s)) cachep"
    using step(1) ok nf by (auto simp: cache_ok_def c'_def) (simp add: d'_def)
  moreover have "free_objs s cachep - {sl} \<times> UNIV \<union> {sl} \<times> set (i # avail ?c ?d) = insert (sl, i) (free_objs s cachep)"
    using sl(1) by (auto simp: free_objs_def)
  ultimately show ?thesis using eq step(2,3) put(2) sf by simp
qed

end
