(* ===== verification/Kmalloc.thy ===== *)
theory Kmalloc
  imports Slab
begin

text \<open>
  A set of object caches over the page allocator, and \<open>kmalloc\<close> and \<open>kfree\<close> of
  \<open>src/src/mm/kmalloc.c\<close> on top of them.  \<open>kmem_inv\<close> says that the pages of all caches and slabs
  are held, disjoint and tagged with their cache.  \<open>kmalloc\<close> interprets the weaker allocator
  contract of \<open>Allocator\<close> at the granularity of bytes, for releases that leave at most
  \<open>SLAB_MAX_FREE\<close> empty slabs; what happens beyond that is a theorem of its own.
\<close>

section \<open>The size classes\<close>

definition KMALLOC_CACHE_SIZE :: nat where "KMALLOC_CACHE_SIZE = 11"

definition kmalloc_sizes :: "u32 list" where
  "kmalloc_sizes = map (\<lambda>i. push_bit i 1) [5 ..< 16]"

fun kmalloc_class :: "u64 \<Rightarrow> u32 list \<Rightarrow> nat \<Rightarrow> nat" where
  "kmalloc_class sz [] i = i"
| "kmalloc_class sz (k # ks) i = (if sz > ucast k then kmalloc_class sz ks (i + 1) else i)"

text \<open>
  \<open>kc\<close> is the array of cache pointers that \<open>kmalloc_cache_init\<close> fills.  A class whose cache could
  not be created has a null pointer there, which the code then dereferences: \<open>None\<close>.
\<close>

definition kmalloc :: "u64 list \<Rightarrow> u64 \<Rightarrow> u32 \<Rightarrow> kmem \<Rightarrow> (u64 \<times> kmem) option" where
  "kmalloc kc sz gm s =
     (let i = kmalloc_class sz kmalloc_sizes 0
      in if i \<ge> KMALLOC_CACHE_SIZE then Some (0, s)
         else if kc ! i = 0 then None
         else kmem_cache_alloc (kc ! i) GFP_KERNEL s)"

definition kfree :: "u64 \<Rightarrow> kmem \<Rightarrow> kmem option" where
  "kfree addr s =
     (if addr = 0 then Some s
      else let phy = to_phy addr; ind = phy div PAGE_SIZE; cachep = slab (mem_map (mm s) (unat ind))
        in if cachep = 0 then None else kmem_cache_free cachep addr s)"

text \<open>\<open>panic\<close> prints and returns, so a null pointer is stored as well.\<close>

fun kmalloc_cache_init_from :: "u32 list \<Rightarrow> kmem \<Rightarrow> (u64 list \<times> kmem) option" where
  "kmalloc_cache_init_from [] s = Some ([], s)"
| "kmalloc_cache_init_from (k # ks) s =
     Option.bind (kmem_cache_create (ucast k) 0 s) (\<lambda>(cachep, s).
     Option.bind (kmalloc_cache_init_from ks s) (\<lambda>(kc, s). Some (cachep # kc, s)))"

definition kmalloc_cache_init :: "kmem \<Rightarrow> (u64 list \<times> kmem) option" where
  "kmalloc_cache_init s = kmalloc_cache_init_from kmalloc_sizes s"

section \<open>The invariant of all caches\<close>

definition kmem_blocks :: "u64 set \<Rightarrow> kmem \<Rightarrow> (u64 \<times> nat) set" where
  "kmem_blocks cs s = (\<Union>c \<in> cs. insert (c, 0)
     ((\<lambda>sl. (sl, unat (gfporder (caches s c)))) ` set (slab_list (caches s c))))"

definition tags_ok :: "u64 set \<Rightarrow> kmem \<Rightarrow> bool" where
  "tags_ok cs s \<longleftrightarrow> (\<forall>c \<in> cs. \<forall>sl \<in> set (slab_list (caches s c)). sl \<notin> cs \<and>
     (\<forall>i \<in> page_extent (sl, unat (gfporder (caches s c))). slab (mem_map (mm s) i) = c))"

definition disjoint_blocks :: "(u64 \<times> nat) set \<Rightarrow> bool" where
  "disjoint_blocks B \<longleftrightarrow> (\<forall>b \<in> B. \<forall>b' \<in> B. b \<noteq> b' \<longrightarrow> page_extent b \<inter> page_extent b' = {})"

definition kmem_inv :: "nat \<Rightarrow> u64 set \<Rightarrow> kmem \<Rightarrow> bool" where
  "kmem_inv n cs s \<longleftrightarrow> mm_inv n (mm s) \<and> (\<forall>c \<in> cs. cache_ok s c) \<and>
     (\<forall>b \<in> kmem_blocks cs s. page_held n (mm s) b \<and> page_extent b \<inter> free_set (buddy (mm s)) = {}) \<and>
     disjoint_blocks (kmem_blocks cs s) \<and> tags_ok cs s"

lemma slab_block:
  assumes "c \<in> cs" "sl \<in> set (slab_list (caches s c))"
  shows "(sl, unat (gfporder (caches s c))) \<in> kmem_blocks cs s"
  using assms by (auto simp: kmem_blocks_def)

lemma page_of_extent [simp]: "page_of a \<in> page_extent (a, k)"
  by (simp add: page_extent_def)

lemma blocks_disjoint:
  assumes "kmem_inv n cs s" "b \<in> kmem_blocks cs s" "b' \<in> kmem_blocks cs s" "b \<noteq> b'"
  shows "page_extent b \<inter> page_extent b' = {}"
  using assms unfolding kmem_inv_def disjoint_blocks_def by blast

lemma slab_owner:
  assumes "kmem_inv n cs s" "c \<in> cs" "c' \<in> cs" "sl \<in> set (slab_list (caches s c))"
    "sl \<in> set (slab_list (caches s c'))"
  shows "c = c'"
  using assms page_of_extent unfolding kmem_inv_def tags_ok_def by metis

lemma slab_not_cache:
  assumes "kmem_inv n cs s" "c \<in> cs" "sl \<in> set (slab_list (caches s c))" shows "sl \<notin> cs"
  using assms by (simp add: kmem_inv_def tags_ok_def)

lemma slab_addr:
  assumes "kmem_inv n cs s" "c \<in> cs" "sl \<in> set (slab_list (caches s c))"
  obtains p where "sl = page_addr p" "p + 2 ^ unat (gfporder (caches s c)) \<le> n" "n < 2 ^ 32" "page_of sl = p"
    "unat sl = 0xffff800000000000 + p * 4096"
proof -
  have "page_held n (mm s) (sl, unat (gfporder (caches s c)))" "n < 2 ^ 32"
    using assms slab_block [OF assms(2,3)] by (auto simp: kmem_inv_def mm_inv_def)
  then have "sl = page_addr (page_of sl)" "page_of sl + 2 ^ unat (gfporder (caches s c)) \<le> n" "page_of sl < 2 ^ 32"
    by (auto simp: page_held_def)
  then show ?thesis using that [of "page_of sl"] unat_page_addr [of "page_of sl"] \<open>n < 2 ^ 32\<close> by simp
qed

lemma same_slabs_frame:
  assumes inv: "kmem_inv n cs s" and c: "c \<in> cs" and same: "same_slabs c s s'" and c': "c' \<in> cs" "c' \<noteq> c"
  shows "caches s' c' = caches s c'" "cache_ok s' c' = cache_ok s c'" "free_objs s' c' = free_objs s c'"
proof -
  show eq: "caches s' c' = caches s c'" using same c'(2) by (simp add: same_slabs_def)
  have sl: "slabs s' sl = slabs s sl" if "sl \<in> set (slab_list (caches s c'))" for sl
    using that same slab_owner [OF inv c'(1) c that] c'(2) by (auto simp: same_slabs_def)
  then show "free_objs s' c' = free_objs s c'" by (auto simp: free_objs_def eq)
  have "set (slabs_free (caches s c')) \<subseteq> set (slab_list (caches s c'))" by (auto simp: slab_list_def)
  then show "cache_ok s' c' = cache_ok s c'"
    using sl by (auto simp: cache_ok_def slabs_ok_def eq subset_iff)
qed

lemma same_slabs_objs:
  assumes "same_slabs c s s'"
  shows "all_objs s' c' = all_objs s c'" "obj_addr (caches s' c') = obj_addr (caches s c')"
    "objsize (caches s' c') = objsize (caches s c')" "gfporder (caches s' c') = gfporder (caches s c')"
    "kmem_blocks cs s' = kmem_blocks cs s" "mm s' = mm s" "tags_ok cs s' = tags_ok cs s"
proof -
  have c: "set (slab_list (caches s' c)) = set (slab_list (caches s c))" "num (caches s' c) = num (caches s c)"
    "objsize (caches s' c) = objsize (caches s c)" "gfporder (caches s' c) = gfporder (caches s c)"
    and o: "\<And>c'. c' \<noteq> c \<Longrightarrow> caches s' c' = caches s c'" and "mm s' = mm s"
    using assms by (auto simp: same_slabs_def)
  note a = layout_cong(4) [OF c(2-4)]
  have l: "set (slab_list (caches s' c')) = set (slab_list (caches s c'))" for c' using c(1) o by metis
  show g: "gfporder (caches s' c') = gfporder (caches s c')" for c' using c o by metis
  show "all_objs s' c' = all_objs s c'" using c o by (cases "c' = c") (simp_all add: all_objs_def)
  show "obj_addr (caches s' c') = obj_addr (caches s c')" using a o by metis
  show "objsize (caches s' c') = objsize (caches s c')" using c o by metis
  show "kmem_blocks cs s' = kmem_blocks cs s" unfolding kmem_blocks_def l g ..
  show m: "mm s' = mm s" by fact
  show "tags_ok cs s' = tags_ok cs s" unfolding tags_ok_def l g m ..
qed

lemma kmem_inv_same:
  assumes "kmem_inv n cs s" "c \<in> cs" "same_slabs c s s'" "cache_ok s' c"
  shows "kmem_inv n cs s'"
proof -
  have "cache_ok s' c'" if "c' \<in> cs" for c'
    using that assms same_slabs_frame(2) [OF assms(1-3) that] by (cases "c' = c") (auto simp: kmem_inv_def)
  then show ?thesis
    using assms(1) unfolding kmem_inv_def same_slabs_objs(5-7) [OF assms(3)] by blast
qed

section \<open>Growing a cache\<close>

lemma mark_busy_slab [simp]: "slab (mem_map (mark_busy r m) i) = slab (mem_map m i)"
  by (auto simp: mark_busy_def split: option.splits)

lemma alloc_pages_cases:
  assumes "mm_inv n m"
  obtains "alloc_pages gm k m = Some (None, m)" "k = 0 \<Longrightarrow> free_set (buddy m) = {}"
  | p m' where "alloc_pages gm k m = Some (Some p, m')" "p + 2 ^ k \<le> n" "k < 8" "2 ^ k dvd p"
      "span p k \<subseteq> free_set (buddy m)" "free_set (buddy m') = free_set (buddy m) - span p k"
      "activate (buddy m') = p # activate (buddy m)" "mm_inv n m'"
      "\<forall>i. slab (mem_map m' i) = slab (mem_map m i)"
proof -
  note inv = assms [unfolded mm_inv_def]
  have b: "buddy_inv (buddy m)" using inv by blast
  obtain a m' where a: "get_free_pages gm k m = Some (a, m')" "a = 0 \<longrightarrow> m' = m"
    "a = 0 \<longleftrightarrow> k \<ge> 8 \<or> (\<forall>l. k \<le> l \<and> l < 8 \<longrightarrow> block (buddy m) l = [])"
    using get_free_pages_total [OF assms, of gm k] by blast
  show ?thesis
  proof (cases "a = 0")
    case True
    obtain r m1 where r: "alloc_pages gm k m = Some (r, m1)" "m1 = m'"
      "a = (case r of None \<Rightarrow> 0 | Some p \<Rightarrow> virtual (mem_map m1 p))"
      using a(1) by (auto simp: get_free_pages_def split: bind_splits option.splits)
    have "r = None"
    proof (rule ccontr)
      assume "r \<noteq> None"
      then obtain p where p: "r = Some p" by auto
      obtain b' where raw: "alloc_pages_raw k (buddy m) = Some (Some p, b')"
        using r(1) p by (auto simp: alloc_pages_eq split: bind_splits)
      have "p \<in> free_set (buddy m)" using alloc_pages_raw_got(3) [OF b raw] by auto
      then have "p < n" "n < 2 ^ 32" "mem_map m1 = mem_map m" using inv a(2) True r(2) by auto
      then show False using inv r(3) p True by simp
    qed
    moreover have "free_set (buddy m) = {}" if "k = 0"
      using a(3) True that by (simp add: free_set_def cover_def blocks_def)
    ultimately show ?thesis using that(1) r a(2) True by simp
  next
    case False
    from get_free_pages_got [OF assms a(1) False] obtain p where p: "a = page_addr p" "p + 2 ^ k \<le> n"
      "k < 8" "2 ^ k dvd p" "span p k \<subseteq> free_set (buddy m)"
      "free_set (buddy m') = free_set (buddy m) - span p k" "activate (buddy m') = p # activate (buddy m)"
      "mm_inv n m'" by auto
    obtain q b' where q: "alloc_pages_raw k (buddy m) = Some (Some q, b')"
      "m' = mark_busy (Some q) (m\<lparr>buddy := b'\<rparr>)" "alloc_pages gm k m = Some (Some q, m')"
      using a(1) False by (auto simp: get_free_pages_def alloc_pages_eq split: option.splits bind_splits)
    then have "q = p" using alloc_pages_raw_got [OF b q(1)] p(7) by simp
    moreover have "\<forall>i. slab (mem_map m' i) = slab (mem_map m i)" using q(2) by simp
    ultimately show ?thesis using that(2) p q(3) by blast
  qed
qed

lemma tag_pages_spec:
  "tag_pages p k c pm i = (if p \<le> i \<and> i < p + k then (pm i)\<lparr>slab := c\<rparr> else pm i)"
  by (induction k) (auto simp: Let_def less_Suc_eq)

lemma init_bufctl_spec: "init_bufctl k a j = (if j < k then of_nat j else a j)"
  by (induction k) (auto simp: less_Suc_eq)

lemma mm_inv_tags:
  "(\<forall>i. virtual (pm i) = virtual (mem_map m i)) \<Longrightarrow> mm_inv n (m\<lparr>mem_map := pm\<rparr>) = mm_inv n m"
  by (simp add: mm_inv_def)

lemma page_held_mem_map [simp]: "page_held n (m\<lparr>mem_map := pm\<rparr>) = page_held n m"
  by (simp add: page_held_def fun_eq_iff)

definition fresh_slab :: "kmem_cache \<Rightarrow> u64 \<Rightarrow> slab_struct \<Rightarrow> bool" where
  "fresh_slab c slabp d \<longleftrightarrow> free d = 0 \<and> slab_ok c slabp d"

lemma fresh_slab_init:
  assumes "layout_ok c" "unat slabp + 4096 * 2 ^ unat (gfporder c) < 2 ^ 64"
  shows "fresh_slab c slabp \<lparr>s_mem = slabp + ucast (slab_head (num c)), inuse = 0, free = 0,
           bufctl = (init_bufctl (unat (num c)) a)(unat (num c) := BUFCTL_END)\<rparr>"
proof -
  have "avail c \<lparr>s_mem = slabp + ucast (slab_head (num c)), inuse = 0, free = 0,
           bufctl = (init_bufctl (unat (num c)) a)(unat (num c) := BUFCTL_END)\<rparr> = [0 ..< unat (num c)]"
    using assms(1) by (auto simp: avail_def init_bufctl_spec layout_ok_def unat_of_nat intro!: nth_equalityI)
  then show ?thesis using assms(2) by (auto simp: fresh_slab_def slab_ok_def)
qed

definition add_slab :: "u64 \<Rightarrow> u64 \<Rightarrow> mm_state \<Rightarrow> slab_struct \<Rightarrow> kmem \<Rightarrow> kmem" where
  "add_slab cachep slabp m d s =
     (let c = caches s cachep
      in set_cache cachep (c\<lparr>total_slab := total_slab c + 1, free_slab := free_slab c + 1,
           slabs_free := slabp # slabs_free c\<rparr>) (set_slab slabp d (s\<lparr>mm := m\<rparr>)))"

text \<open>What growing the cache by the slab at \<open>slabp\<close> does.\<close>

definition grown_by :: "nat \<Rightarrow> u64 \<Rightarrow> u64 \<Rightarrow> kmem \<Rightarrow> kmem \<Rightarrow> bool" where
  "grown_by n cachep slabp s s' \<longleftrightarrow> (\<exists>m d p. s' = add_slab cachep slabp m d s \<and> slabp = page_addr p \<and>
     fresh_slab (caches s cachep) slabp d \<and> mm_inv n m \<and> p + 2 ^ unat (gfporder (caches s cachep)) \<le> n \<and>
     2 ^ unat (gfporder (caches s cachep)) dvd p \<and>
     span p (unat (gfporder (caches s cachep))) \<subseteq> free_set (buddy (mm s)) \<and>
     free_set (buddy m) = free_set (buddy (mm s)) - span p (unat (gfporder (caches s cachep))) \<and>
     activate (buddy m) = p # activate (buddy (mm s)) \<and>
     (\<forall>i. slab (mem_map m i) =
        (if i \<in> span p (unat (gfporder (caches s cachep))) then cachep else slab (mem_map (mm s) i))))"

lemma span_iff: "i \<in> span p k \<longleftrightarrow> p \<le> i \<and> i < p + 2 ^ k"
  by (auto simp: span_def)

lemma kmem_eq_mm [simp]: "s\<lparr>mm := mm s\<rparr> = s"
  by (cases s) simp

lemma cache_grow_cases:
  assumes inv: "mm_inv n (mm s)" and lay: "layout_ok (caches s cachep)"
  obtains "cache_grow cachep s = Some (-1, s)" "gfporder (caches s cachep) = 0 \<Longrightarrow> free_set (buddy (mm s)) = {}"
  | slabp s' where "cache_grow cachep s = Some (0, s')" "grown_by n cachep slabp s s'"
proof -
  let ?c = "caches s cachep"
  let ?k = "unat (gfporder ?c)"
  show ?thesis
  proof (rule alloc_pages_cases [OF inv, of "0 OR gfpflags ?c" ?k])
    assume "alloc_pages (0 OR gfpflags ?c) ?k (mm s) = Some (None, mm s)"
      "?k = 0 \<Longrightarrow> free_set (buddy (mm s)) = {}"
    then show ?thesis using that(1) by (simp add: cache_grow_def kmem_getpages_def Let_def)
  next
    fix p m
    assume eq: "alloc_pages (0 OR gfpflags ?c) ?k (mm s) = Some (Some p, m)" and p: "p + 2 ^ ?k \<le> n"
      "2 ^ ?k dvd p" "span p ?k \<subseteq> free_set (buddy (mm s))"
      "free_set (buddy m) = free_set (buddy (mm s)) - span p ?k"
      "activate (buddy m) = p # activate (buddy (mm s))" "mm_inv n m"
      "\<forall>i. slab (mem_map m i) = slab (mem_map (mm s) i)"
    define m' where "m' = m\<lparr>mem_map := tag_pages p (2 ^ ?k) cachep (mem_map m)\<rparr>"
    have "(0::nat) < 2 ^ ?k" by simp
    then have "p < n" "n < 2 ^ 32" using p(1,6) by (linarith, simp add: mm_inv_def)
    then have virt: "virtual (tag_pages p (2 ^ ?k) cachep (mem_map m) p) = page_addr p"
      using p(6) by (simp add: tag_pages_spec mm_inv_def)
    define d where "d = \<lparr>s_mem = page_addr p + ucast (slab_head (num ?c)), inuse = 0, free = 0,
      bufctl = (init_bufctl (unat (num ?c)) (bufctl (slabs s (page_addr p))))(unat (num ?c) := BUFCTL_END)\<rparr>"
    have grow: "cache_grow cachep s = Some (0, add_slab cachep (page_addr p) m' d s)"
      using eq virt \<open>p < n\<close> \<open>n < 2 ^ 32\<close>
      by (simp add: cache_grow_def kmem_getpages_def Let_def add_slab_def m'_def [symmetric] d_def set_slab_def)
    have "unat (page_addr p) + 4096 * 2 ^ ?k < 2 ^ 64"
    proof -
      have "p * 4096 + 4096 * 2 ^ ?k \<le> n * 4096" using mult_right_mono [OF p(1), of 4096] by (simp add: algebra_simps)
      then show ?thesis using unat_page_addr [of p] \<open>p < n\<close> \<open>n < 2 ^ 32\<close> by simp
    qed
    then have "fresh_slab ?c (page_addr p) d" unfolding d_def by (rule fresh_slab_init [OF lay])
    moreover have "mm_inv n m'" using p(6) unfolding m'_def by (subst mm_inv_tags) (simp_all add: tag_pages_spec)
    moreover have "\<forall>i. slab (mem_map m' i) = (if i \<in> span p ?k then cachep else slab (mem_map (mm s) i))"
      using p(7) by (simp add: m'_def tag_pages_spec span_iff)
    ultimately have "grown_by n cachep (page_addr p) s (add_slab cachep (page_addr p) m' d s)"
      unfolding grown_by_def using p by (intro exI [of _ m'] exI [of _ d] exI [of _ p]) (simp add: m'_def)
    with grow show ?thesis by (rule that(2))
  qed
qed

lemma add_slab_sel [simp]:
  "mm (add_slab c sl m d s) = m" "slabs (add_slab c sl m d s) = (slabs s)(sl := d)"
  "c' \<noteq> c \<Longrightarrow> caches (add_slab c sl m d s) c' = caches s c'"
  "num (caches (add_slab c sl m d s) c') = num (caches s c')"
  "objsize (caches (add_slab c sl m d s) c') = objsize (caches s c')"
  "gfporder (caches (add_slab c sl m d s) c') = gfporder (caches s c')"
  "slabs_free (caches (add_slab c sl m d s) c) = sl # slabs_free (caches s c)"
  "slabs_partial (caches (add_slab c sl m d s) c) = slabs_partial (caches s c)"
  "slabs_full (caches (add_slab c sl m d s) c) = slabs_full (caches s c)"
  "free_slab (caches (add_slab c sl m d s) c) = free_slab (caches s c) + 1"
  "slab_list (caches (add_slab c sl m d s) c) =
     slabs_partial (caches s c) @ slabs_full (caches s c) @ sl # slabs_free (caches s c)"
  by (simp_all add: add_slab_def Let_def slab_list_def)

lemma grown_slab_fresh:
  assumes "kmem_inv n cs s" "grown_by n c sl s s'" "c' \<in> cs"
  shows "sl \<notin> set (slab_list (caches s c'))" "(sl, k) \<notin> kmem_blocks cs s"
proof -
  obtain p where p: "sl = page_addr p" "p < 2 ^ 32" "p \<in> free_set (buddy (mm s))"
    using assms(2) by (auto simp: grown_by_def mm_inv_def span_iff subset_iff)
  have *: "(sl, k) \<notin> kmem_blocks cs s" for k
  proof
    assume "(sl, k) \<in> kmem_blocks cs s"
    then have "page_extent (sl, k) \<inter> free_set (buddy (mm s)) = {}" using assms(1) by (simp add: kmem_inv_def)
    then show False using p page_of_extent [of sl k] by auto
  qed
  show "(sl, k) \<notin> kmem_blocks cs s" by (rule *)
  show "sl \<notin> set (slab_list (caches s c'))" using * slab_block [OF assms(3)] by blast
qed

lemma grown_blocks:
  assumes "c \<in> cs" "grown_by n c sl s s'"
  shows "kmem_blocks cs s' = insert (sl, unat (gfporder (caches s c))) (kmem_blocks cs s)"
proof -
  obtain m d where s': "s' = add_slab c sl m d s" using assms(2) by (auto simp: grown_by_def)
  have "set (slab_list (caches s' c')) = (if c' = c then {sl} else {}) \<union> set (slab_list (caches s c'))" for c'
    by (auto simp: s') (auto simp: slab_list_def)
  then show ?thesis using assms(1) unfolding kmem_blocks_def s' by (auto split: if_splits)
qed

lemma grown_cache_ok:
  assumes inv: "kmem_inv n cs s" "c \<in> cs" "grown_by n c sl s s'" and c': "c' \<in> cs"
  shows "cache_ok s' c'"
proof -
  obtain m d where s': "s' = add_slab c sl m d s" and d: "fresh_slab (caches s c) sl d"
    using inv(3) by (auto simp: grown_by_def)
  note new = grown_slab_fresh(1) [OF inv(1,3)]
  have ok: "cache_ok s c'" using inv(1) c' by (simp add: kmem_inv_def)
  show ?thesis
  proof (cases "c' = c")
    case False
    have "set (slabs_free (caches s c')) \<subseteq> set (slab_list (caches s c'))" by (auto simp: slab_list_def)
    then show ?thesis
      using False ok new [OF c'] by (auto simp: cache_ok_def slabs_ok_def s')
  next
    case True
    note cong = layout_cong [of "caches s' c" "caches s c"]
    have "sl \<notin> set (slab_list (caches s c))" by (rule new [OF inv(2)])
    then show ?thesis
      using ok d cong unfolding True cache_ok_def slabs_ok_def fresh_slab_def s'
      by (auto simp: slab_list_def)
  qed
qed

lemma kmem_inv_grown:
  assumes inv: "kmem_inv n cs s" "c \<in> cs" "grown_by n c sl s s'"
  shows "kmem_inv n cs s'"
proof -
  let ?k = "unat (gfporder (caches s c))"
  obtain m d p where s': "s' = add_slab c sl m d s" and sl: "sl = page_addr p" and m: "mm_inv n m"
    and p: "p + 2 ^ ?k \<le> n" "2 ^ ?k dvd p" "span p ?k \<subseteq> free_set (buddy (mm s))"
      "free_set (buddy m) = free_set (buddy (mm s)) - span p ?k" "activate (buddy m) = p # activate (buddy (mm s))"
    and tag: "\<forall>i. slab (mem_map m i) = (if i \<in> span p ?k then c else slab (mem_map (mm s) i))"
    using inv(3) by (auto simp: grown_by_def)
  have "p < n" using p(1) zero_less_power [of "2::nat" ?k] by linarith
  moreover have "n < 2 ^ 32" using m by (simp add: mm_inv_def)
  ultimately have po: "page_of sl = p" "page_extent (sl, ?k) = span p ?k" by (simp_all add: sl page_extent_def)
  have k8: "?k < 8" using inv(1,2) by (auto simp: kmem_inv_def cache_ok_def slabs_ok_def layout_ok_def)
  note blocks = grown_blocks [OF inv(2,3)]
  have old: "page_held n m b" "page_extent b \<inter> free_set (buddy m) = {}" "page_extent b \<inter> span p ?k = {}"
    if "b \<in> kmem_blocks cs s" for b
  proof -
    have b: "page_held n (mm s) b" "page_extent b \<inter> free_set (buddy (mm s)) = {}"
      using that inv(1) by (simp_all add: kmem_inv_def)
    show "page_extent b \<inter> free_set (buddy m) = {}" "page_extent b \<inter> span p ?k = {}" using b(2) p(3,4) by blast+
    show "page_held n m b" using b(1) p(5) by (auto simp: page_held_def)
  qed
  have new: "page_held n m (sl, ?k)" "page_extent (sl, ?k) \<inter> free_set (buddy m) = {}"
    using p k8 po sl unfolding page_held_def by auto
  have held: "\<forall>b \<in> kmem_blocks cs s'. page_held n m b \<and> page_extent b \<inter> free_set (buddy m) = {}"
    using old new unfolding blocks by blast
  have disj: "disjoint_blocks (kmem_blocks cs s')"
    using inv(1) old(3) po(2) unfolding blocks kmem_inv_def disjoint_blocks_def by (auto simp: Int_commute)
  have "tags_ok cs s'"
    unfolding tags_ok_def
  proof (intro ballI conjI)
    fix c' x assume a: "c' \<in> cs" "x \<in> set (slab_list (caches s' c'))"
    show "x \<notin> cs"
    proof (cases "x = sl")
      case True
      then show ?thesis using grown_slab_fresh(2) [OF inv(1,3) a(1), of 0] by (auto simp: kmem_blocks_def)
    next
      case False
      then have "x \<in> set (slab_list (caches s c'))"
        using a(2) by (cases "c' = c") (auto simp: s' slab_list_def)
      then show ?thesis using inv(1) a(1) by (simp add: kmem_inv_def tags_ok_def)
    qed
  next
    fix c' x i assume a: "c' \<in> cs" "x \<in> set (slab_list (caches s' c'))"
      "i \<in> page_extent (x, unat (gfporder (caches s' c')))"
    show "slab (mem_map (mm s') i) = c'"
    proof (cases "c' = c \<and> x = sl")
      case True
      then show ?thesis using a(3) po(2) tag by (simp add: s')
    next
      case False
      then have x: "x \<in> set (slab_list (caches s c'))"
        using a(2) by (cases "c' = c") (auto simp: s' slab_list_def)
      then have "i \<notin> span p ?k" using old(3) [OF slab_block [OF a(1) x]] a(3) by (auto simp: s')
      then show ?thesis using inv(1) a x tag by (auto simp: kmem_inv_def tags_ok_def s')
    qed
  qed
  then show ?thesis
    using m held disj grown_cache_ok [OF inv] by (simp add: kmem_inv_def s')
qed

lemma grown_objs:
  assumes inv: "kmem_inv n cs s" "c \<in> cs" "grown_by n c sl s s'" and c': "c' \<in> cs"
  defines "new \<equiv> (if c' = c then {sl} \<times> {..<unat (num (caches s c))} else {})"
  shows "all_objs s' c' = all_objs s c' \<union> new" "free_objs s' c' = free_objs s c' \<union> new"
    "obj_addr (caches s' c') = obj_addr (caches s c')" "objsize (caches s' c') = objsize (caches s c')"
proof -
  obtain m d where s': "s' = add_slab c sl m d s" and d: "fresh_slab (caches s c) sl d"
    using inv(3) by (auto simp: grown_by_def)
  have cong: "avail (caches s' c') = avail (caches s c')" "obj_addr (caches s' c') = obj_addr (caches s c')"
    using layout_cong [of "caches s' c'" "caches s c'"] by (simp_all add: s')
  show "obj_addr (caches s' c') = obj_addr (caches s c')" "objsize (caches s' c') = objsize (caches s c')"
    using cong by (simp_all add: s')
  have l: "set (slab_list (caches s' c')) = (if c' = c then {sl} else {}) \<union> set (slab_list (caches s c'))"
    by (auto simp: s') (auto simp: slab_list_def)
  then show "all_objs s' c' = all_objs s c' \<union> new" by (auto simp: all_objs_def new_def s' split: if_splits)
  have nsl: "sl \<notin> set (slab_list (caches s c'))" by (rule grown_slab_fresh(1) [OF inv(1,3) c'])
  have av: "set (avail (caches s c) d) = {..<unat (num (caches s c))}"
    using d avail_full unfolding fresh_slab_def by blast
  show "free_objs s' c' = free_objs s c' \<union> new"
  proof (cases "c' = c")
    case True
    then show ?thesis using nsl av l cong(1) unfolding free_objs_def new_def s' by (auto split: if_splits)
  next
    case False
    then show ?thesis using nsl unfolding free_objs_def new_def s' by (auto split: if_splits)
  qed
qed

section \<open>Objects as byte ranges\<close>

definition bytes :: "u64 \<times> nat \<Rightarrow> nat set" where
  "bytes = (\<lambda>(a, k). {unat a ..< unat a + k})"

definition obj :: "kmem_cache \<Rightarrow> u64 \<Rightarrow> nat \<Rightarrow> u64 \<times> nat" where
  "obj c sl i = (obj_addr c sl i, unat (objsize c))"

definition page_bytes :: "nat set \<Rightarrow> nat set" where
  "page_bytes P = {a. 0xffff800000000000 \<le> a \<and> (a - 0xffff800000000000) div 4096 \<in> P}"

lemma page_bytes_disjoint: "P \<inter> Q = {} \<Longrightarrow> page_bytes P \<inter> page_bytes Q = {}"
  by (auto simp: page_bytes_def)

lemma page_bytes_mono: "P \<subseteq> Q \<Longrightarrow> page_bytes P \<subseteq> page_bytes Q"
  by (auto simp: page_bytes_def)

lemma page_bytes_diff: "page_bytes (P - Q) = page_bytes P - page_bytes Q"
  by (auto simp: page_bytes_def)

lemma kmem_inv_slab:
  assumes "kmem_inv n cs s" "c \<in> cs" "(sl, i) \<in> all_objs s c"
  shows "layout_ok (caches s c)" "i < unat (num (caches s c))" "sl \<in> set (slab_list (caches s c))"
    "slab_ok (caches s c) sl (slabs s sl)"
    "unat sl + 4096 * 2 ^ unat (gfporder (caches s c)) < 2 ^ 64"
  using assms by (auto simp: kmem_inv_def cache_ok_def slabs_ok_def all_objs_def slab_ok_def)

text \<open>An object lies behind its slab's header and index array and inside its slab's pages.\<close>

lemma obj_in_slab:
  assumes "kmem_inv n cs s" "c \<in> cs" "(sl, i) \<in> all_objs s c"
  shows "bytes (obj (caches s c) sl i) \<subseteq> page_bytes (page_extent (sl, unat (gfporder (caches s c))))"
    "unat sl + 32 + (unat (num (caches s c)) + 1) * 2 \<le> unat (obj_addr (caches s c) sl i)"
proof -
  let ?c = "caches s c"
  let ?k = "unat (gfporder ?c)"
  note k = kmem_inv_slab [OF assms]
  obtain p where p: "unat sl = 0xffff800000000000 + p * 4096" "page_of sl = p"
    using slab_addr [OF assms(1,2) k(3)] by metis
  note a = unat_obj_addr [OF k(1,2,5)] and off = unat_obj_offset(2) [OF k(1,2)]
  show "unat sl + 32 + (unat (num ?c) + 1) * 2 \<le> unat (obj_addr ?c sl i)"
    using slab_head_ge [of "num ?c"] k(1) a by (simp add: layout_ok_def)
  show "bytes (obj ?c sl i) \<subseteq> page_bytes (page_extent (sl, ?k))"
  proof
    fix x assume "x \<in> bytes (obj ?c sl i)"
    then have x: "unat sl \<le> x" "x < unat sl + 4096 * 2 ^ ?k" using a off by (auto simp: bytes_def obj_def)
    define y where "y = x - 0xffff800000000000"
    have y: "p * 4096 \<le> y" "y < (p + 2 ^ ?k) * 4096" "0xffff800000000000 \<le> x"
      using x p(1) by (simp_all add: y_def algebra_simps)
    then have "p \<le> y div 4096" "y div 4096 < p + 2 ^ ?k"
      by (simp_all add: less_eq_div_iff_mult_less_eq div_less_iff_less_mult)
    then show "x \<in> page_bytes (page_extent (sl, ?k))"
      using y(3) by (simp add: page_bytes_def page_extent_def p(2) span_iff flip: y_def)
  qed
qed

lemma objs_disjoint:
  assumes inv: "kmem_inv n cs s" and c: "c \<in> cs" "(sl, i) \<in> all_objs s c" "c' \<in> cs" "(sl', i') \<in> all_objs s c'"
    and ne: "(sl, i) \<noteq> (sl', i')"
  shows "bytes (obj (caches s c) sl i) \<inter> bytes (obj (caches s c') sl' i') = {}"
proof (cases "sl = sl'")
  case True
  note k = kmem_inv_slab [OF inv c(1,2)] and k' = kmem_inv_slab [OF inv c(3,4)]
  have cc: "c' = c" using slab_owner [OF inv c(3,1) k'(3)] k(3) True by simp
  note a = unat_obj_addr [OF k(1,2,5)] and a' = unat_obj_addr [OF k(1) k'(2) [unfolded cc] k(5)]
  consider "i + 1 \<le> i'" | "i' + 1 \<le> i" using ne True by fastforce
  then have "(i + 1) * unat (objsize (caches s c)) \<le> i' * unat (objsize (caches s c)) \<or>
      (i' + 1) * unat (objsize (caches s c)) \<le> i * unat (objsize (caches s c))"
    using mult_le_mono1 by blast
  then show ?thesis using a a' True by (auto simp: cc bytes_def obj_def)
next
  case False
  let ?b = "(sl, unat (gfporder (caches s c)))" and ?b' = "(sl', unat (gfporder (caches s c')))"
  have "?b \<in> kmem_blocks cs s" "?b' \<in> kmem_blocks cs s" "?b \<noteq> ?b'"
    using slab_block [OF c(1) kmem_inv_slab(3) [OF inv c(1,2)]] slab_block [OF c(3) kmem_inv_slab(3) [OF inv c(3,4)]] False
    by simp_all
  then have "page_extent ?b \<inter> page_extent ?b' = {}" by (rule blocks_disjoint [OF inv])
  from page_bytes_disjoint [OF this] obj_in_slab(1) [OF inv c(1,2)] obj_in_slab(1) [OF inv c(3,4)]
  show ?thesis by blast
qed

lemma obj_not_free_page:
  assumes inv: "kmem_inv n cs s" and c: "c \<in> cs" "(sl, i) \<in> all_objs s c"
  shows "bytes (obj (caches s c) sl i) \<inter> page_bytes (free_set (buddy (mm s))) = {}"
proof -
  have "page_extent (sl, unat (gfporder (caches s c))) \<inter> free_set (buddy (mm s)) = {}"
    using inv slab_block [OF c(1) kmem_inv_slab(3) [OF inv c]] by (simp add: kmem_inv_def)
  from page_bytes_disjoint [OF this] obj_in_slab(1) [OF inv c] show ?thesis by blast
qed

lemma free_objs_all: "cache_ok s c \<Longrightarrow> free_objs s c \<subseteq> all_objs s c"
  by (auto simp: free_objs_def all_objs_def cache_ok_def slabs_ok_def slab_ok_def)

lemma slabs_apart:
  assumes inv: "kmem_inv n cs s" and c: "c \<in> cs" "sl \<in> set (slab_list (caches s c))" "sl' \<in> set (slab_list (caches s c))"
    and ne: "sl' \<noteq> sl"
  shows "apart (caches s c) sl sl'"
proof -
  let ?k = "unat (gfporder (caches s c))"
  obtain p where p: "unat sl = 0xffff800000000000 + p * 4096" "page_of sl = p"
    using slab_addr [OF inv c(1,2)] by metis
  obtain p' where p': "unat sl' = 0xffff800000000000 + p' * 4096" "page_of sl' = p'"
    using slab_addr [OF inv c(1,3)] by metis
  have "page_extent (sl, ?k) \<inter> page_extent (sl', ?k) = {}"
    by (rule blocks_disjoint [OF inv slab_block [OF c(1,2)] slab_block [OF c(1,3)]]) (use ne in simp)
  then have "span p ?k \<inter> span p' ?k = {}" by (simp add: page_extent_def p(2) p'(2))
  moreover have "p \<in> span p ?k" "p' \<in> span p' ?k" by simp_all
  ultimately have "p \<notin> span p' ?k" "p' \<notin> span p ?k" by blast+
  then have "p + 2 ^ ?k \<le> p' \<or> p' + 2 ^ ?k \<le> p" by (auto simp: span_iff)
  then show ?thesis unfolding apart_def p(1) p'(1) by linarith
qed

section \<open>The contract of kmalloc and kfree\<close>

definition free_bytes :: "u64 set \<Rightarrow> kmem \<Rightarrow> nat set" where
  "free_bytes cs s = page_bytes (free_set (buddy (mm s))) \<union>
     (\<Union>c \<in> cs. \<Union>(sl, i) \<in> free_objs s c. bytes (obj (caches s c) sl i))"

definition obj_held :: "u64 set \<Rightarrow> kmem \<Rightarrow> u64 \<times> nat \<Rightarrow> bool" where
  "obj_held cs s x \<longleftrightarrow> (\<exists>c \<in> cs. \<exists>sl i. (sl, i) \<in> all_objs s c - free_objs s c \<and> x = obj (caches s c) sl i)"

lemma same_slabs_obj:
  assumes "same_slabs c s s'" shows "obj (caches s' c') = obj (caches s c')"
  using same_slabs_objs(2,3) [OF assms] by (simp add: obj_def fun_eq_iff)

lemma same_slabs_free_bytes:
  assumes inv: "kmem_inv n cs s" "c \<in> cs" "same_slabs c s s'"
  shows "free_bytes cs s' = page_bytes (free_set (buddy (mm s))) \<union>
     (\<Union>(sl, i) \<in> free_objs s' c. bytes (obj (caches s c) sl i)) \<union>
     (\<Union>c' \<in> cs - {c}. \<Union>(sl, i) \<in> free_objs s c'. bytes (obj (caches s c') sl i))"
proof -
  have split: "(\<Union>c' \<in> cs. F c') = F c \<union> (\<Union>c' \<in> cs - {c}. F c')" for F :: "u64 \<Rightarrow> nat set"
    using inv(2) by blast
  have "(\<Union>c' \<in> cs - {c}. \<Union>(sl, i) \<in> free_objs s' c'. bytes (obj (caches s c') sl i)) =
      (\<Union>c' \<in> cs - {c}. \<Union>(sl, i) \<in> free_objs s c'. bytes (obj (caches s c') sl i))"
    using same_slabs_frame(3) [OF inv] by (intro SUP_cong) simp_all
  then show ?thesis
    unfolding free_bytes_def same_slabs_obj [OF inv(3)] same_slabs_objs(6) [OF inv(3)] split Un_assoc by simp
qed

lemma same_slabs_held:
  assumes inv: "kmem_inv n cs s" "c \<in> cs" "same_slabs c s s'"
  shows "obj_held cs s' x \<longleftrightarrow> (\<exists>sl i. (sl, i) \<in> all_objs s c - free_objs s' c \<and> x = obj (caches s c) sl i) \<or>
     (\<exists>c' \<in> cs - {c}. \<exists>sl i. (sl, i) \<in> all_objs s c' - free_objs s c' \<and> x = obj (caches s c') sl i)"
proof -
  have split: "(\<exists>c' \<in> cs. P c') \<longleftrightarrow> P c \<or> (\<exists>c' \<in> cs - {c}. P c')" for P using inv(2) by blast
  have "(\<exists>c' \<in> cs - {c}. \<exists>sl i. (sl, i) \<in> all_objs s c' - free_objs s' c' \<and> x = obj (caches s c') sl i) \<longleftrightarrow>
      (\<exists>c' \<in> cs - {c}. \<exists>sl i. (sl, i) \<in> all_objs s c' - free_objs s c' \<and> x = obj (caches s c') sl i)"
    using same_slabs_frame(3) [OF inv] by (intro bex_cong) simp_all
  then show ?thesis
    unfolding obj_held_def same_slabs_objs(1) [OF inv(3)] same_slabs_obj [OF inv(3)] split by simp
qed

lemma take_step:
  assumes inv: "kmem_inv n cs s" "c \<in> cs" "same_slabs c s s'" and ok: "cache_ok s' c" and t: "obj_taken s c ret s'"
  defines "x \<equiv> (ret, unat (objsize (caches s c)))"
  shows "kmem_inv n cs s'" "bytes x \<subseteq> free_bytes cs s" "free_bytes cs s' \<subseteq> free_bytes cs s - bytes x"
    "obj_held cs s' x" "obj_held cs s y \<Longrightarrow> obj_held cs s' y"
proof -
  obtain sl i where o: "(sl, i) \<in> free_objs s c" "ret = obj_addr (caches s c) sl i"
    "free_objs s' c = free_objs s c - {(sl, i)}" using t by (auto simp: obj_taken_def)
  have x: "x = obj (caches s c) sl i" by (simp add: x_def obj_def o(2))
  have all: "free_objs s c' \<subseteq> all_objs s c'" if "c' \<in> cs" for c'
    using that inv(1) free_objs_all by (simp add: kmem_inv_def)
  have xa: "(sl, i) \<in> all_objs s c" using all [OF inv(2)] o(1) by blast
  show "kmem_inv n cs s'" by (rule kmem_inv_same [OF inv ok])
  show "bytes x \<subseteq> free_bytes cs s" using o(1) inv(2) x by (auto simp: free_bytes_def)
  have "bytes (obj (caches s c') sl' i') \<inter> bytes x = {}"
    if "c' \<in> cs" "(sl', i') \<in> free_objs s c'" "(sl', i') \<noteq> (sl, i)" for c' sl' i'
    unfolding x by (rule objs_disjoint [OF inv(1) that(1) _ inv(2) xa that(3)]) (use that all in blast)
  moreover have "(sl', i') \<noteq> (sl, i)" if "c' \<in> cs - {c}" "(sl', i') \<in> free_objs s c'" for c' sl' i'
    using that slab_owner [OF inv(1) _ inv(2), of c' sl] o(1) by (auto simp: free_objs_def)
  ultimately have dis: "bytes (obj (caches s c') sl' i') \<inter> bytes x = {}"
    if "c' = c \<and> (sl', i') \<in> free_objs s' c \<or> c' \<in> cs - {c} \<and> (sl', i') \<in> free_objs s c'" for c' sl' i'
    using that o(3) inv(2) by blast
  have "page_bytes (free_set (buddy (mm s))) \<inter> bytes x = {}"
    using obj_not_free_page [OF inv(1,2) xa] x by blast
  then have "free_bytes cs s' \<inter> bytes x = {}"
    using dis unfolding same_slabs_free_bytes [OF inv] by blast
  moreover have "free_bytes cs s' \<subseteq> free_bytes cs s"
    using o(3) unfolding same_slabs_free_bytes [OF inv] same_slabs_free_bytes [OF inv(1,2) same_slabs_refl]
    by (intro Un_mono UN_mono) simp_all
  ultimately show "free_bytes cs s' \<subseteq> free_bytes cs s - bytes x" by blast
  show "obj_held cs s' x" unfolding same_slabs_held [OF inv] using xa o(3) x by blast
  show "obj_held cs s' y" if "obj_held cs s y"
    using that o(3) unfolding same_slabs_held [OF inv] same_slabs_held [OF inv(1,2) same_slabs_refl] by blast
qed

lemma stay_step:
  assumes inv: "kmem_inv n cs s" "c \<in> cs" "same_slabs c s s'" and ok: "cache_ok s' c"
    and f: "free_objs s' c = free_objs s c"
  shows "kmem_inv n cs s'" "free_bytes cs s' = free_bytes cs s" "obj_held cs s' = obj_held cs s"
proof -
  show "kmem_inv n cs s'" by (rule kmem_inv_same [OF inv ok])
  show "free_bytes cs s' = free_bytes cs s"
    using same_slabs_free_bytes [OF inv] same_slabs_free_bytes [OF inv(1,2) same_slabs_refl] f by simp
  show "obj_held cs s' = obj_held cs s"
    using same_slabs_held [OF inv] same_slabs_held [OF inv(1,2) same_slabs_refl] f by (simp add: fun_eq_iff)
qed

lemma grow_step:
  assumes inv: "kmem_inv n cs s" "c \<in> cs" "grown_by n c sl s s'"
  shows "kmem_inv n cs s'" "free_bytes cs s' \<subseteq> free_bytes cs s" "obj_held cs s x \<Longrightarrow> obj_held cs s' x"
proof -
  show inv': "kmem_inv n cs s'" by (rule kmem_inv_grown [OF inv])
  note objs = grown_objs [OF inv]
  have o: "obj (caches s' c') = obj (caches s c')" if "c' \<in> cs" for c'
    using objs(3,4) [OF that] by (simp add: obj_def fun_eq_iff)
  obtain p m where p: "page_extent (sl, unat (gfporder (caches s c))) = span p (unat (gfporder (caches s c)))"
    "span p (unat (gfporder (caches s c))) \<subseteq> free_set (buddy (mm s))" "mm s' = m"
    "free_set (buddy m) \<subseteq> free_set (buddy (mm s))"
    "gfporder (caches s' c) = gfporder (caches s c)"
    using inv(3) unfolding grown_by_def by (auto simp: page_extent_def mm_inv_def)
  show "free_bytes cs s' \<subseteq> free_bytes cs s"
  proof -
    have pg: "page_bytes (free_set (buddy (mm s'))) \<subseteq> page_bytes (free_set (buddy (mm s)))"
      using p(3,4) page_bytes_mono by blast
    have "bytes (obj (caches s' c') x i) \<subseteq> free_bytes cs s" if "c' \<in> cs" "(x, i) \<in> free_objs s' c'" for c' x i
    proof (cases "(x, i) \<in> free_objs s c'")
      case True
      then show ?thesis using that(1) o by (auto simp: free_bytes_def)
    next
      case False
      then have x: "c' = c" "x = sl" using objs(2) [OF that(1)] that(2) by (auto split: if_splits)
      have "(x, i) \<in> all_objs s' c'"
        using that inv' free_objs_all unfolding kmem_inv_def by blast
      from obj_in_slab(1) [OF inv' that(1) this] have "bytes (obj (caches s' c') x i) \<subseteq>
          page_bytes (free_set (buddy (mm s)))"
        using page_bytes_mono [OF p(2)] p(1,5) x by auto
      then show ?thesis by (auto simp: free_bytes_def)
    qed
    then show ?thesis using pg unfolding free_bytes_def [of cs s'] by (auto simp: free_bytes_def)
  qed
  show "obj_held cs s' x" if "obj_held cs s x"
  proof -
    obtain c' y i where y: "c' \<in> cs" "(y, i) \<in> all_objs s c' - free_objs s c'" "x = obj (caches s c') y i"
      using \<open>obj_held cs s x\<close> by (auto simp: obj_held_def)
    have "y \<in> set (slab_list (caches s c'))" using y(2) by (auto simp: all_objs_def)
    then have "y \<noteq> sl" using grown_slab_fresh(1) [OF inv(1,3) y(1)] by blast
    then have "(y, i) \<in> all_objs s' c' - free_objs s' c'" using y(2) objs(1,2) [OF y(1)] by (auto split: if_splits)
    then show ?thesis using y(1,3) o unfolding obj_held_def by metis
  qed
qed

lemma grown_layout:
  assumes "grown_by n c sl s s'" shows "objsize (caches s' c') = objsize (caches s c')"
  using assms by (auto simp: grown_by_def)

text \<open>The outcome of an allocation from cache \<open>c\<close>.\<close>

definition alloc_outcome :: "nat \<Rightarrow> u64 set \<Rightarrow> u64 \<Rightarrow> kmem \<Rightarrow> u64 \<Rightarrow> kmem \<Rightarrow> bool" where
  "alloc_outcome n cs c s ret s' \<longleftrightarrow> kmem_inv n cs s' \<and> (\<forall>y. obj_held cs s y \<longrightarrow> obj_held cs s' y) \<and>
     (\<forall>c'. objsize (caches s' c') = objsize (caches s c')) \<and>
     (if ret = 0 then free_bytes cs s' \<subseteq> free_bytes cs s
      else let x = (ret, unat (objsize (caches s c))) in
        bytes x \<subseteq> free_bytes cs s \<and> free_bytes cs s' \<subseteq> free_bytes cs s - bytes x \<and> obj_held cs s' x)"

lemma cache_alloc_outcome:
  assumes inv: "kmem_inv n cs s" "c \<in> cs" and eq: "cache_alloc c s = (ret, s')"
  shows "alloc_outcome n cs c s ret s'"
proof -
  have ok: "cache_ok s c" using inv by (simp add: kmem_inv_def)
  note spec = cache_alloc_spec [OF ok eq]
  have same: "same_slabs c s s'" "cache_ok s' c" using spec by simp_all
  note sz = same_slabs_objs(3) [OF same(1)]
  show ?thesis
  proof (cases "ret = 0")
    case True
    then have "free_objs s' c = free_objs s c" using spec by simp
    from stay_step [OF inv same this] True sz show ?thesis by (simp add: alloc_outcome_def)
  next
    case False
    then have t: "obj_taken s c ret s'" using spec by simp
    from take_step [OF inv same t] False sz show ?thesis by (simp add: alloc_outcome_def Let_def)
  qed
qed

lemma alloc_outcome_trans:
  assumes "alloc_outcome n cs c s 0 s1" "alloc_outcome n cs c s1 ret s'"
  shows "alloc_outcome n cs c s ret s'"
  using assms unfolding alloc_outcome_def Let_def by (auto split: if_splits)

lemma kmem_cache_alloc_outcome:
  assumes inv: "kmem_inv n cs s" "c \<in> cs"
  shows "\<exists>ret s'. kmem_cache_alloc c fl s = Some (ret, s') \<and> alloc_outcome n cs c s ret s'"
proof -
  obtain r1 s1 where eq: "cache_alloc c s = (r1, s1)" by fastforce
  note out1 = cache_alloc_outcome [OF inv eq]
  show ?thesis
  proof (cases "r1 = 0")
    case False
    then show ?thesis using out1 eq by (simp add: kmem_cache_alloc_def)
  next
    case True
    have inv1: "kmem_inv n cs s1" using out1 by (simp add: alloc_outcome_def)
    then have "mm_inv n (mm s1)" "layout_ok (caches s1 c)"
      using inv(2) by (auto simp: kmem_inv_def cache_ok_def slabs_ok_def)
    then show ?thesis
    proof (cases rule: cache_grow_cases)
      case 1
      then show ?thesis using out1 eq True by (simp add: kmem_cache_alloc_def)
    next
      case (2 sl s2)
      note g = grow_step [OF inv1 inv(2) 2(2)]
      have out2: "alloc_outcome n cs c s1 0 s2"
        using g grown_layout [OF 2(2)] by (simp add: alloc_outcome_def)
      obtain r3 s3 where eq3: "cache_alloc c s2 = (r3, s3)" by fastforce
      have "alloc_outcome n cs c s r3 s3"
        using alloc_outcome_trans [OF out1 [unfolded True]] alloc_outcome_trans [OF out2]
          cache_alloc_outcome [OF g(1) inv(2) eq3] by blast
      then show ?thesis using eq True 2(1) eq3 by (simp add: kmem_cache_alloc_def)
    qed
  qed
qed

lemma free_step:
  assumes inv: "kmem_inv n cs s" "c \<in> cs" and o: "(sl, i) \<in> all_objs s c - free_objs s c"
  defines "x \<equiv> obj (caches s c) sl i"
  shows "\<exists>s'. cache_free c (fst x) s = Some s' \<and> same_slabs c s s' \<and> kmem_inv n cs s' \<and>
    free_bytes cs s' \<subseteq> free_bytes cs s \<union> bytes x \<and>
    free_objs s' c = insert (sl, i) (free_objs s c) \<and>
    (\<forall>y. obj_held cs s y \<and> bytes x \<inter> bytes y = {} \<longrightarrow> obj_held cs s' y)"
proof -
  have ok: "cache_ok s c" and oa: "(sl, i) \<in> all_objs s c" using inv o by (auto simp: kmem_inv_def)
  have sl: "sl \<in> set (slab_list (caches s c))" using oa by (auto simp: all_objs_def)
  have apart: "\<forall>sl' \<in> set (slab_list (caches s c)). sl' \<noteq> sl \<longrightarrow> apart (caches s c) sl sl'"
    using slabs_apart [OF inv sl] by blast
  from cache_free_spec [OF ok o apart] obtain s' where s': "cache_free c (obj_addr (caches s c) sl i) s = Some s'"
    "cache_ok s' c" "same_slabs c s s'" "free_objs s' c = insert (sl, i) (free_objs s c)" by blast
  note inv3 = inv s'(3)
  have fst: "fst x = obj_addr (caches s c) sl i" by (simp add: x_def obj_def)
  have "bytes x \<noteq> {}"
    using kmem_inv_slab(1) [OF inv oa] by (auto simp: x_def bytes_def obj_def layout_ok_def)
  have "free_bytes cs s' \<subseteq> free_bytes cs s \<union> bytes x"
    unfolding same_slabs_free_bytes [OF inv3] same_slabs_free_bytes [OF inv same_slabs_refl] s'(4) x_def
    by blast
  moreover have "obj_held cs s' y" if "obj_held cs s y" "bytes x \<inter> bytes y = {}" for y
  proof -
    have "y \<noteq> x" using that(2) \<open>bytes x \<noteq> {}\<close> by blast
    then show ?thesis
      using that(1) unfolding same_slabs_held [OF inv3] same_slabs_held [OF inv same_slabs_refl] s'(4) x_def
      by blast
  qed
  ultimately show ?thesis
    using s' kmem_inv_same [OF inv3 s'(2)] unfolding fst by blast
qed

lemma kmem_cache_nonzero:
  assumes "kmem_inv n cs s" "c \<in> cs" shows "c \<noteq> 0"
proof -
  have "(c, 0) \<in> kmem_blocks cs s" using assms(2) by (auto simp: kmem_blocks_def)
  then have "page_held n (mm s) (c, 0)" "n < 2 ^ 32" using assms(1) by (auto simp: kmem_inv_def mm_inv_def)
  then show ?thesis using page_addr_nonzero [of "page_of c"] by (auto simp: page_held_def)
qed

text \<open>\<open>kfree\<close> finds the cache an object came from through the tag of its page.\<close>

lemma kfree_cache:
  assumes inv: "kmem_inv n cs s" "c \<in> cs" and o: "(sl, i) \<in> all_objs s c"
  defines "a \<equiv> obj_addr (caches s c) sl i"
  shows "slab (mem_map (mm s) (unat (to_phy a div PAGE_SIZE))) = c" "a \<noteq> 0"
proof -
  note k = kmem_inv_slab [OF inv o]
  show "a \<noteq> 0" unfolding a_def by (rule obj_addr_nonzero [OF k(1,2,5)])
  have "unat a \<in> bytes (obj (caches s c) sl i)"
    using k(1) by (auto simp: a_def bytes_def obj_def layout_ok_def)
  then have a: "unat a \<in> page_bytes (page_extent (sl, unat (gfporder (caches s c))))"
    using obj_in_slab(1) [OF inv o] by blast
  then have "KERNEL_OFFSET \<le> a" by (simp add: word_le_nat_alt page_bytes_def KERNEL_OFFSET_def)
  then have "unat (to_phy a div PAGE_SIZE) = (unat a - 0xffff800000000000) div 4096"
    by (simp add: to_phy_def unat_div unat_sub page_simps) (simp add: KERNEL_OFFSET_def)
  then show "slab (mem_map (mm s) (unat (to_phy a div PAGE_SIZE))) = c"
    using a inv k(3) by (simp add: page_bytes_def kmem_inv_def tags_ok_def)
qed

text \<open>
  Whether freeing \<open>addr\<close> leaves more than \<open>SLAB_MAX_FREE\<close> empty slabs in its cache, in which
  case \<open>kmem_cache_free\<close> gives pages back.
\<close>

definition trims :: "u64 \<Rightarrow> kmem \<Rightarrow> bool" where
  "trims addr s =
     (let cachep = slab (mem_map (mm s) (unat (to_phy addr div PAGE_SIZE)))
      in case cache_free cachep addr s of None \<Rightarrow> True
         | Some s' \<Rightarrow> free_slab (caches s' cachep) > SLAB_MAX_FREE)"

definition kmalloc_request :: "u64 list \<Rightarrow> u64 \<Rightarrow> kmem \<Rightarrow> ((u64 \<times> nat) option \<times> kmem) option" where
  "kmalloc_request kc sz s =
     Option.bind (kmalloc kc sz 0 s) (\<lambda>(a, s').
       Some (if a = 0 then None else Some (a, 2 ^ (5 + kmalloc_class sz kmalloc_sizes 0)), s'))"

definition kmalloc_release :: "u64 \<times> nat \<Rightarrow> kmem \<Rightarrow> kmem option" where
  "kmalloc_release x s = (if trims (fst x) s then None else kfree (fst x) s)"

definition kmalloc_inv :: "nat \<Rightarrow> u64 set \<Rightarrow> u64 list \<Rightarrow> kmem \<Rightarrow> bool" where
  "kmalloc_inv n cs kc s \<longleftrightarrow> kmem_inv n cs s \<and>
     (\<forall>i < KMALLOC_CACHE_SIZE. kc ! i = 0 \<or> kc ! i \<in> cs \<and> unat (objsize (caches s (kc ! i))) = 2 ^ (5 + i))"

definition kmalloc_fits :: "u64 \<Rightarrow> u64 \<times> nat \<Rightarrow> bool" where
  "kmalloc_fits sz x \<longleftrightarrow> unat sz \<le> snd x"

lemma kmalloc_class_le:
  "i \<le> kmalloc_class sz ks i \<and> kmalloc_class sz ks i \<le> i + length ks \<and>
   (kmalloc_class sz ks i < i + length ks \<longrightarrow> unat sz \<le> unat (ks ! (kmalloc_class sz ks i - i)))"
proof (induction ks arbitrary: i)
  case (Cons k ks)
  show ?case
    using Cons [of "i + 1"] unat_ucast_widen [of k, where 'b = 64]
    by (auto simp: word_less_nat_alt nth_Cons' not_less)
qed simp

lemma kmalloc_sizes_nth: "i < 11 \<Longrightarrow> unat (kmalloc_sizes ! i) = 2 ^ (5 + i)"
proof -
  assume "i < 11"
  then have "i \<in> set [0 ..< 11]" by simp
  then show ?thesis by (auto simp: kmalloc_sizes_def upt_rec)
qed

lemma kmalloc_class_fits:
  assumes "kmalloc_class sz kmalloc_sizes 0 < 11"
  shows "unat sz \<le> 2 ^ (5 + kmalloc_class sz kmalloc_sizes 0)"
proof -
  have "length kmalloc_sizes = 11" by (simp add: kmalloc_sizes_def)
  then show ?thesis
    using kmalloc_class_le [of 0 sz kmalloc_sizes] kmalloc_sizes_nth [OF assms] assms by simp
qed

lemma kfree_held:
  assumes inv: "kmem_inv n cs s" and held: "obj_held cs s x" and rel: "kmalloc_release x s = Some s'"
  shows "kmem_inv n cs s' \<and> free_bytes cs s' \<subseteq> free_bytes cs s \<union> bytes x \<and>
    (\<forall>y. obj_held cs s y \<and> bytes x \<inter> bytes y = {} \<longrightarrow> obj_held cs s' y) \<and>
    (\<forall>c. objsize (caches s' c) = objsize (caches s c))"
proof -
  obtain c sl i where c: "c \<in> cs" "(sl, i) \<in> all_objs s c - free_objs s c" "x = obj (caches s c) sl i"
    using held by (auto simp: obj_held_def)
  have oa: "(sl, i) \<in> all_objs s c" and fst: "fst x = obj_addr (caches s c) sl i"
    using c by (simp_all add: obj_def)
  note tag = kfree_cache [OF inv c(1) oa, folded fst]
  from free_step [OF inv c(1,2), folded c(3)] obtain s1 where s1: "cache_free c (fst x) s = Some s1"
    "same_slabs c s s1" "kmem_inv n cs s1" "free_bytes cs s1 \<subseteq> free_bytes cs s \<union> bytes x"
    "\<forall>y. obj_held cs s y \<and> bytes x \<inter> bytes y = {} \<longrightarrow> obj_held cs s1 y" by blast
  have nt: "\<not> free_slab (caches s1 c) > SLAB_MAX_FREE" and kf: "kfree (fst x) s = Some s'"
    using rel s1(1) tag by (simp_all add: kmalloc_release_def trims_def split: if_splits)
  have "kmem_cache_free c (fst x) s = Some s1"
    using s1(1) nt by (simp add: kmem_cache_free_def trim_free.simps)
  then have "s' = s1" using kf tag kmem_cache_nonzero [OF inv c(1)] by (simp add: kfree_def Let_def)
  then show ?thesis using s1 same_slabs_objs(3) by blast
qed

interpretation kmalloc: arena "kmalloc_inv n cs kc" "free_bytes cs" "obj_held cs" bytes kmalloc_fits
  "kmalloc_request kc" kmalloc_release for n cs kc
proof
  fix s s' x q assume inv: "kmalloc_inv n cs kc s" and "kmalloc_request kc q s = Some (Some x, s')"
  then obtain a where a: "kmalloc kc q 0 s = Some (a, s')" "a \<noteq> 0"
    "x = (a, 2 ^ (5 + kmalloc_class q kmalloc_sizes 0))"
    by (auto simp: kmalloc_request_def split: bind_splits if_splits)
  let ?i = "kmalloc_class q kmalloc_sizes 0"
  have i: "?i < 11" "kc ! ?i \<noteq> 0" "kmem_cache_alloc (kc ! ?i) GFP_KERNEL s = Some (a, s')"
    using a(1,2) by (simp_all add: kmalloc_def KMALLOC_CACHE_SIZE_def Let_def split: if_splits)
  have c: "kc ! ?i \<in> cs" "unat (objsize (caches s (kc ! ?i))) = 2 ^ (5 + ?i)" "kmem_inv n cs s"
    using inv i(1,2) by (auto simp: kmalloc_inv_def KMALLOC_CACHE_SIZE_def)
  have "alloc_outcome n cs (kc ! ?i) s a s'"
    using kmem_cache_alloc_outcome [OF c(3,1), of GFP_KERNEL] i(3) by simp
  then show "kmalloc_inv n cs kc s' \<and> kmalloc_fits q x \<and> bytes x \<subseteq> free_bytes cs s \<and>
      free_bytes cs s' \<subseteq> free_bytes cs s - bytes x \<and> obj_held cs s' x \<and>
      (\<forall>y. obj_held cs s y \<longrightarrow> obj_held cs s' y)"
    using inv a(2,3) c(2) kmalloc_class_fits [OF i(1)]
    by (simp add: alloc_outcome_def kmalloc_inv_def kmalloc_fits_def Let_def)
next
  fix s s' q assume inv: "kmalloc_inv n cs kc s" and "kmalloc_request kc q s = Some (None, s')"
  then have a: "kmalloc kc q 0 s = Some (0, s')"
    by (auto simp: kmalloc_request_def split: bind_splits if_splits)
  let ?i = "kmalloc_class q kmalloc_sizes 0"
  show "kmalloc_inv n cs kc s' \<and> free_bytes cs s' \<subseteq> free_bytes cs s \<and> (\<forall>y. obj_held cs s y \<longrightarrow> obj_held cs s' y)"
  proof (cases "?i < 11")
    case False
    then show ?thesis using a inv by (simp add: kmalloc_def KMALLOC_CACHE_SIZE_def Let_def)
  next
    case True
    then have i: "kc ! ?i \<noteq> 0" "kmem_cache_alloc (kc ! ?i) GFP_KERNEL s = Some (0, s')"
      using a by (simp_all add: kmalloc_def KMALLOC_CACHE_SIZE_def Let_def split: if_splits)
    then have c: "kc ! ?i \<in> cs" "kmem_inv n cs s"
      using inv True by (auto simp: kmalloc_inv_def KMALLOC_CACHE_SIZE_def)
    have "alloc_outcome n cs (kc ! ?i) s 0 s'"
      using kmem_cache_alloc_outcome [OF c(2,1), of GFP_KERNEL] i(2) by simp
    then show ?thesis using inv by (simp add: alloc_outcome_def kmalloc_inv_def)
  qed
next
  fix s s' x assume "kmalloc_inv n cs kc s" "obj_held cs s x" "kmalloc_release x s = Some s'"
  then show "kmalloc_inv n cs kc s' \<and> free_bytes cs s' \<subseteq> free_bytes cs s \<union> bytes x \<and>
      (\<forall>y. obj_held cs s y \<and> bytes x \<inter> bytes y = {} \<longrightarrow> obj_held cs s' y)"
    using kfree_held [of n cs s x s'] by (simp add: kmalloc_inv_def)
qed

end
