(* ===== verification/CacheLife.thy ===== *)
theory CacheLife
  imports Kmalloc
begin

text \<open>
  The life of an object cache: \<open>kmem_cache_create\<close> and \<open>kmem_cache_destroy\<close> of
  \<open>src/src/mm/slab.c\<close> and the boot-time loop \<open>kmalloc_cache_init\<close> keep the invariant
  of the caches, with what each takes from and gives back to the page allocator, and the
  properties of \<open>kmalloc\<close> and \<open>kfree\<close> along every sequence of calls.
\<close>

section \<open>Creating a cache\<close>

lemma get_free_page_cases:
  assumes "mm_inv n m"
  obtains "get_free_page gm m = Some (0, m)" "free_set (buddy m) = {}"
  | p m' where "get_free_page gm m = Some (page_addr p, m')" "p < n" "p < 2 ^ 32" "p \<in> free_set (buddy m)"
      "free_set (buddy m') = free_set (buddy m) - {p}" "activate (buddy m') = p # activate (buddy m)"
      "mm_inv n m'" "\<forall>i. slab (mem_map m' i) = slab (mem_map m i)"
proof (rule alloc_pages_cases [OF assms, of gm 0])
  assume "alloc_pages gm 0 m = Some (None, m)" "0 = (0::nat) \<Longrightarrow> free_set (buddy m) = {}"
  then show ?thesis using that(1) by (simp add: get_free_page_def alloc_page_def)
next
  fix p m' assume p: "alloc_pages gm 0 m = Some (Some p, m')" "p + 2 ^ 0 \<le> n" "span p 0 \<subseteq> free_set (buddy m)"
    "free_set (buddy m') = free_set (buddy m) - span p 0" "activate (buddy m') = p # activate (buddy m)"
    "mm_inv n m'" "\<forall>i. slab (mem_map m' i) = slab (mem_map m i)"
  then have "p < n" "p < 2 ^ 32" "virtual (mem_map m' p) = page_addr p" by (auto simp: mm_inv_def)
  then show ?thesis using that(2) [of p m'] p by (simp add: get_free_page_def alloc_page_def span_def)
qed

text \<open>Taking one page for the descriptor of a new cache that has no slabs yet.\<close>

lemma new_cache_inv:
  assumes inv: "kmem_inv n cs s" and p: "p < n" "p \<in> free_set (buddy (mm s))"
    "free_set (buddy m) = free_set (buddy (mm s)) - {p}" "activate (buddy m) = p # activate (buddy (mm s))"
    "mm_inv n m" "\<forall>i. slab (mem_map m i) = slab (mem_map (mm s) i)"
    and c: "layout_ok c" "slab_list c = []" "free_slab c = 0"
  shows "page_addr p \<notin> cs" "kmem_inv n (insert (page_addr p) cs) (set_cache (page_addr p) c (s\<lparr>mm := m\<rparr>))"
proof -
  let ?a = "page_addr p" and ?s = "set_cache (page_addr p) c (s\<lparr>mm := m\<rparr>)"
  have "n < 2 ^ 32" using p(5) by (simp add: mm_inv_def)
  then have po: "page_of ?a = p" "page_extent (?a, 0) = {p}" using p(1) by (simp_all add: page_extent_def span_def)
  have old: "page_held n m b" "page_extent b \<inter> free_set (buddy m) = {}" "p \<notin> page_extent b"
    if "b \<in> kmem_blocks cs s" for b
  proof -
    have b: "page_held n (mm s) b" "page_extent b \<inter> free_set (buddy (mm s)) = {}"
      using that inv by (simp_all add: kmem_inv_def)
    show "page_extent b \<inter> free_set (buddy m) = {}" "p \<notin> page_extent b" using b(2) p(2,3) by blast+
    show "page_held n m b" using b(1) p(4) by (auto simp: page_held_def)
  qed
  show nin: "?a \<notin> cs"
  proof
    assume "?a \<in> cs"
    then have "(?a, 0) \<in> kmem_blocks cs s" by (auto simp: kmem_blocks_def)
    from old(3) [OF this] po(2) show False by simp
  qed
  have same: "caches ?s c' = caches s c'" if "c' \<in> cs" for c' using that nin by auto
  have blocks: "kmem_blocks (insert ?a cs) ?s = insert (?a, 0) (kmem_blocks cs s)"
    using same c(2) by (auto simp: kmem_blocks_def)
  have "page_held n m (?a, 0)" using p(1,4) po(1) by (simp add: page_held_def)
  then have held: "\<forall>b \<in> kmem_blocks (insert ?a cs) ?s. page_held n (mm ?s) b \<and> page_extent b \<inter> free_set (buddy (mm ?s)) = {}"
    using old(1,2) po(2) p(3) unfolding blocks by simp
  have dis: "disjoint_blocks (kmem_blocks (insert ?a cs) ?s)"
    using inv old(3) po(2) unfolding blocks kmem_inv_def disjoint_blocks_def by (simp add: Int_commute)
  have "?a \<noteq> sl" if "c' \<in> cs" "sl \<in> set (slab_list (caches s c'))" for c' sl
    using old(3) [OF slab_block [OF that]] po(1) page_of_extent [of sl] by metis
  then have "tags_ok (insert ?a cs) ?s"
    using inv same c(2) p(6) by (auto simp: tags_ok_def kmem_inv_def)
  moreover have "cache_ok ?s c'" if "c' \<in> cs" for c'
    using that inv same [OF that] by (simp add: kmem_inv_def cache_ok_def slabs_ok_def)
  moreover have "slabs_free c = []" using c(2) by (simp add: slab_list_def)
  then have "cache_ok ?s ?a" using c by (simp add: cache_ok_def slabs_ok_def)
  ultimately show "kmem_inv n (insert ?a cs) ?s"
    using held dis p(5) by (simp add: kmem_inv_def)
qed

section \<open>Destroying a cache\<close>

lemma free_pages_mem_map: "free_pages a k m = Some m' \<Longrightarrow> mem_map m' = mem_map m"
  by (auto simp: free_pages_def Let_def split: if_splits option.splits bind_splits)

lemma free_slabs_append:
  "free_slabs (xs @ ys) k m = Option.bind (free_slabs xs k m) (free_slabs ys k)"
proof (induction xs arbitrary: m)
  case (Cons x xs)
  then show ?case by (cases "free_pages x (unat k) m") simp_all
qed simp

lemma free_slabs_spec:
  assumes "mm_inv n m" "distinct ls"
    "\<forall>sl \<in> set ls. page_held n m (sl, unat k) \<and> page_extent (sl, unat k) \<inter> free_set (buddy m) = {}"
    "\<forall>sl \<in> set ls. \<forall>sl' \<in> set ls. sl \<noteq> sl' \<longrightarrow> page_extent (sl, unat k) \<inter> page_extent (sl', unat k) = {}"
  shows "\<exists>m'. free_slabs ls k m = Some m' \<and> mm_inv n m' \<and> mem_map m' = mem_map m \<and>
    free_set (buddy m') = free_set (buddy m) \<union> (\<Union>sl \<in> set ls. page_extent (sl, unat k)) \<and>
    (\<forall>b. page_held n m b \<and> (\<forall>sl \<in> set ls. page_extent (sl, unat k) \<inter> page_extent b = {}) \<longrightarrow> page_held n m' b)"
  using assms
proof (induction ls arbitrary: m)
  case (Cons x ls)
  have x: "page_held n m (x, unat k)" "page_extent (x, unat k) \<inter> free_set (buddy m) = {}"
    using Cons.prems(3) by simp_all
  from page_release_held [OF Cons.prems(1) this] obtain m1 where m1: "free_pages x (unat k) m = Some m1"
    "mm_inv n m1" "free_set (buddy m1) = free_set (buddy m) \<union> page_extent (x, unat k)"
    "\<forall>y. page_held n m y \<and> page_extent (x, unat k) \<inter> page_extent y = {} \<longrightarrow> page_held n m1 y"
    by (auto simp: page_release_def)
  have dis: "page_extent (x, unat k) \<inter> page_extent (sl, unat k) = {}" if "sl \<in> set ls" for sl
    using that Cons.prems(2,4) by auto
  have pre: "\<forall>sl \<in> set ls. page_held n m1 (sl, unat k) \<and> page_extent (sl, unat k) \<inter> free_set (buddy m1) = {}"
    using m1(3,4) dis Cons.prems(3) by (auto simp: Int_Un_distrib Int_commute)
  from Cons.IH [OF m1(2) _ this] Cons.prems(2,4) obtain m2 where m2: "free_slabs ls k m1 = Some m2" "mm_inv n m2"
    "mem_map m2 = mem_map m1"
    "free_set (buddy m2) = free_set (buddy m1) \<union> (\<Union>sl \<in> set ls. page_extent (sl, unat k))"
    "\<forall>b. page_held n m1 b \<and> (\<forall>sl \<in> set ls. page_extent (sl, unat k) \<inter> page_extent b = {}) \<longrightarrow> page_held n m2 b"
    by auto
  show ?case
  proof (intro exI [of _ m2] conjI allI impI)
    show "free_slabs (x # ls) k m = Some m2" using m1(1) m2(1) by simp
    show "mm_inv n m2" by fact
    show "mem_map m2 = mem_map m" using m2(3) free_pages_mem_map [OF m1(1)] by simp
    show "free_set (buddy m2) = free_set (buddy m) \<union> (\<Union>sl \<in> set (x # ls). page_extent (sl, unat k))"
      using m1(3) m2(4) by auto
    fix b assume "page_held n m b \<and> (\<forall>sl \<in> set (x # ls). page_extent (sl, unat k) \<inter> page_extent b = {})"
    then show "page_held n m2 b" using m1(4) m2(5) by (cases b) simp
  qed
qed simp

lemma kmem_inv_drop:
  assumes inv: "kmem_inv n cs s" "c \<in> cs" and m: "mm_inv n m" "mem_map m = mem_map (mm s)"
    and free: "free_set (buddy m) = free_set (buddy (mm s)) \<union> (\<Union>b \<in> kmem_blocks {c} s. page_extent b)"
    and held: "\<forall>b. page_held n (mm s) b \<and> (\<forall>b' \<in> kmem_blocks {c} s. page_extent b' \<inter> page_extent b = {}) \<longrightarrow> page_held n m b"
  shows "kmem_inv n (cs - {c}) (s\<lparr>mm := m\<rparr>)"
proof -
  have blocks: "kmem_blocks (cs - {c}) (s\<lparr>mm := m\<rparr>) = kmem_blocks (cs - {c}) s" by (simp add: kmem_blocks_def)
  have sub: "kmem_blocks (cs - {c}) s \<subseteq> kmem_blocks cs s" "kmem_blocks {c} s \<subseteq> kmem_blocks cs s"
    using inv(2) by (auto simp: kmem_blocks_def)
  have ne: "b \<noteq> b'" if b: "b \<in> kmem_blocks (cs - {c}) s" "b' \<in> kmem_blocks {c} s" for b b'
  proof
    assume "b = b'"
    from b(1) obtain c1 where c1: "c1 \<in> cs" "c1 \<noteq> c"
      "b = (c1, 0) \<or> (\<exists>sl \<in> set (slab_list (caches s c1)). b = (sl, unat (gfporder (caches s c1))))"
      by (auto simp: kmem_blocks_def)
    from b(2) have c2: "b' = (c, 0) \<or> (\<exists>sl \<in> set (slab_list (caches s c)). b' = (sl, unat (gfporder (caches s c))))"
      by (auto simp: kmem_blocks_def)
    show False
      using c1 c2 \<open>b = b'\<close> slab_not_cache [OF inv(1)] slab_owner [OF inv(1) c1(1) inv(2)] inv(2) by auto
  qed
  have dis: "page_extent b' \<inter> page_extent b = {}" if "b \<in> kmem_blocks (cs - {c}) s" "b' \<in> kmem_blocks {c} s" for b b'
    using that sub ne [OF that] by (intro blocks_disjoint [OF inv(1)]) auto
  have "page_held n m b \<and> page_extent b \<inter> free_set (buddy m) = {}" if "b \<in> kmem_blocks (cs - {c}) s" for b
  proof
    have "b \<in> kmem_blocks cs s" using that sub by blast
    then have b: "page_held n (mm s) b" "page_extent b \<inter> free_set (buddy (mm s)) = {}"
      using inv(1) by (simp_all add: kmem_inv_def)
    show "page_held n m b" using held b(1) dis [OF that] by blast
    show "page_extent b \<inter> free_set (buddy m) = {}" using b(2) dis [OF that] unfolding free by blast
  qed
  moreover have "disjoint_blocks (kmem_blocks (cs - {c}) s)"
    using inv(1) sub(1) unfolding kmem_inv_def disjoint_blocks_def by blast
  moreover have "tags_ok (cs - {c}) (s\<lparr>mm := m\<rparr>)"
    using inv(1) m(2) by (auto simp: kmem_inv_def tags_ok_def)
  moreover have "cache_ok (s\<lparr>mm := m\<rparr>) c'" if "c' \<in> cs" for c'
    using that inv(1) by (simp add: kmem_inv_def cache_ok_def slabs_ok_def)
  ultimately show ?thesis using m(1) unfolding kmem_inv_def blocks by simp
qed

lemma release_cache:
  assumes inv: "kmem_inv n cs s" "c \<in> cs"
  shows "\<exists>m. Option.bind (free_slabs (slab_list (caches s c)) (gfporder (caches s c)) (mm s)) (free_page c) = Some m \<and>
    free_set (buddy m) = free_set (buddy (mm s)) \<union> (\<Union>b \<in> kmem_blocks {c} s. page_extent b) \<and>
    kmem_inv n (cs - {c}) (s\<lparr>mm := m\<rparr>)"
proof -
  let ?ls = "slab_list (caches s c)" and ?k = "gfporder (caches s c)"
  have mm: "mm_inv n (mm s)" and d: "distinct ?ls"
    using inv by (auto simp: kmem_inv_def cache_ok_def slabs_ok_def)
  have cb: "(c, 0) \<in> kmem_blocks cs s" using inv(2) by (auto simp: kmem_blocks_def)
  have held: "page_held n (mm s) b" "page_extent b \<inter> free_set (buddy (mm s)) = {}" if "b \<in> kmem_blocks cs s" for b
    using inv(1) that by (simp_all add: kmem_inv_def)
  have cd: "page_extent (sl, unat ?k) \<inter> page_extent (c, 0) = {}" if "sl \<in> set ?ls" for sl
    using slab_not_cache [OF inv that] inv(2)
    by (intro blocks_disjoint [OF inv(1) slab_block [OF inv(2) that] cb]) auto
  have "\<exists>m'. free_slabs ?ls ?k (mm s) = Some m' \<and> mm_inv n m' \<and> mem_map m' = mem_map (mm s) \<and>
    free_set (buddy m') = free_set (buddy (mm s)) \<union> (\<Union>sl \<in> set ?ls. page_extent (sl, unat ?k)) \<and>
    (\<forall>b. page_held n (mm s) b \<and> (\<forall>sl \<in> set ?ls. page_extent (sl, unat ?k) \<inter> page_extent b = {}) \<longrightarrow> page_held n m' b)"
  proof (rule free_slabs_spec [OF mm d]; intro ballI impI)
    fix sl assume sl: "sl \<in> set ?ls"
    show "page_held n (mm s) (sl, unat ?k) \<and> page_extent (sl, unat ?k) \<inter> free_set (buddy (mm s)) = {}"
      using held [OF slab_block [OF inv(2) sl]] by simp
    fix sl' assume sl': "sl' \<in> set ?ls" "sl \<noteq> sl'"
    show "page_extent (sl, unat ?k) \<inter> page_extent (sl', unat ?k) = {}"
      by (rule blocks_disjoint [OF inv(1) slab_block [OF inv(2) sl] slab_block [OF inv(2) sl'(1)]]) (use sl'(2) in simp)
  qed
  then obtain m1 where m1: "free_slabs ?ls ?k (mm s) = Some m1" "mm_inv n m1" "mem_map m1 = mem_map (mm s)"
    "free_set (buddy m1) = free_set (buddy (mm s)) \<union> (\<Union>sl \<in> set ?ls. page_extent (sl, unat ?k))"
    "\<forall>b. page_held n (mm s) b \<and> (\<forall>sl \<in> set ?ls. page_extent (sl, unat ?k) \<inter> page_extent b = {}) \<longrightarrow> page_held n m1 b"
    by (elim exE conjE) (rule that)
  have c1: "page_held n m1 (c, 0)"
    by (rule m1(5) [THEN spec, THEN mp]) (use held(1) [OF cb] cd in simp)
  have c2: "page_extent (c, 0) \<inter> free_set (buddy m1) = {}"
    unfolding m1(4) using held(2) [OF cb] cd by blast
  from page_release_held [OF m1(2) c1 c2] obtain m where m: "page_release (c, 0) m1 = Some m" "mm_inv n m"
    "free_set (buddy m) = free_set (buddy m1) \<union> page_extent (c, 0)"
    "\<forall>y. page_held n m1 y \<and> page_extent (c, 0) \<inter> page_extent y = {} \<longrightarrow> page_held n m y"
    by (elim exE conjE) (rule that)
  have fp: "free_page c m1 = Some m" using m(1) by (simp add: page_release_def free_page_def)
  have blocks: "kmem_blocks {c} s = insert (c, 0) ((\<lambda>sl. (sl, unat ?k)) ` set ?ls)" by (simp add: kmem_blocks_def)
  have "kmem_inv n (cs - {c}) (s\<lparr>mm := m\<rparr>)"
  proof (rule kmem_inv_drop [OF inv m(2)])
    show "mem_map m = mem_map (mm s)" using m1(3) free_pages_mem_map fp by (metis free_page_def)
    show "free_set (buddy m) = free_set (buddy (mm s)) \<union> (\<Union>b \<in> kmem_blocks {c} s. page_extent b)"
      unfolding blocks m(3) m1(4) by auto
    show "\<forall>b. page_held n (mm s) b \<and> (\<forall>b' \<in> kmem_blocks {c} s. page_extent b' \<inter> page_extent b = {}) \<longrightarrow> page_held n m b"
    proof (intro allI impI)
      fix b assume "page_held n (mm s) b \<and> (\<forall>b' \<in> kmem_blocks {c} s. page_extent b' \<inter> page_extent b = {})"
      then have "page_held n m1 b" "page_extent (c, 0) \<inter> page_extent b = {}"
        using m1(5) unfolding blocks by (cases b, simp)+
      then show "page_held n m b" using m(4) by (cases b) simp
    qed
  qed
  moreover have "free_set (buddy m) = free_set (buddy (mm s)) \<union> (\<Union>b \<in> kmem_blocks {c} s. page_extent b)"
    unfolding blocks m(3) m1(4) by auto
  ultimately show ?thesis using m1(1) fp by simp
qed

lemma cache_layout:
  assumes "0 < sz" "sz < 0x20000"
  defines "k \<equiv> kmem_align (ucast (sz :: u64))"
  defines "i \<equiv> cache_order k 0"
  shows "unat k = upper_div (unat sz) 8 * 8" "unat sz \<le> unat k" "k \<noteq> 0" "i \<le> 7" "3 \<le> unat (cache_num i k)"
    "layout_ok \<lparr>cflags = fl, total_slab = t, free_slab = f, num = cache_num i k, objsize = k,
       gfporder = of_nat i, gfpflags = g, slabs_partial = p, slabs_full = u, slabs_free = e\<rparr>"
proof -
  have sz: "0 < unat sz" "unat sz < 0x20000"
    using assms(1,2) by (simp_all add: word_less_nat_alt unat_gt_0)
  then have "unat (ucast sz :: u32) = unat sz" by (simp add: unsigned_ucast_eq take_bit_eq_mod)
  then show k: "unat k = upper_div (unat sz) 8 * 8" unfolding k_def using sz by (subst unat_kmem_align) simp_all
  have "unat sz \<le> upper_div (unat sz) 8 * 8" by (rule upper_div_nat_ge) simp
  moreover have "upper_div (unat sz) 8 \<le> 0x4000" using sz by (intro upper_div_le) simp_all
  ultimately have kb: "unat sz \<le> unat k" "unat k \<le> 131072" "unat k mod 8 = 0" by (simp_all add: k)
  show "unat sz \<le> unat k" "k \<noteq> 0" using kb sz by auto
  have "8 \<le> unat k" using kb(1,3) sz(1) by presburger
  have ord: "i \<le> 7" "unat k * 4 \<le> 4096 * 2 ^ i" "i = 0 \<or> 4096 * 2 ^ (i - 1) < unat k * 4"
    unfolding i_def using cache_order_spec [OF kb(2), of 0] by simp_all
  show "i \<le> 7" by fact
  note fits = cache_num_fits [OF \<open>8 \<le> unat k\<close> ord kb(3)]
  show "3 \<le> unat (cache_num i k)" using fits by simp
  show "layout_ok \<lparr>cflags = fl, total_slab = t, free_slab = f, num = cache_num i k, objsize = k,
       gfporder = of_nat i, gfpflags = g, slabs_partial = p, slabs_full = u, slabs_free = e\<rparr>"
    using fits ord(1) \<open>8 \<le> unat k\<close> by (simp add: layout_ok_def unat_of_nat)
qed

text \<open>What a successful creation gives: a cache of its own, with room for at least three objects.\<close>

definition created :: "nat \<Rightarrow> u64 set \<Rightarrow> u64 \<Rightarrow> kmem \<Rightarrow> u64 \<Rightarrow> kmem \<Rightarrow> bool" where
  "created n cs sz s c s' \<longleftrightarrow> c \<notin> cs \<and> kmem_inv n (insert c cs) s' \<and> slabs_free (caches s' c) \<noteq> [] \<and>
     unat (objsize (caches s' c)) = upper_div (unat sz) 8 * 8 \<and> 3 \<le> unat (num (caches s' c)) \<and>
     unat (slab_head (num (caches s' c))) + unat (num (caches s' c)) * unat (objsize (caches s' c))
       \<le> 4096 * 2 ^ unat (gfporder (caches s' c))"

lemma create_cases:
  assumes inv: "kmem_inv n cs s" and sz: "0 < sz" "sz < 0x20000"
  shows "\<exists>c s'. kmem_cache_create sz fl s = Some (c, s') \<and> (\<forall>c' \<in> cs. caches s' c' = caches s c') \<and>
    (if c = 0 then kmem_inv n cs s' \<and> free_set (buddy (mm s')) = free_set (buddy (mm s)) \<and>
        (sz > 1024 \<or> (\<exists>p. free_set (buddy (mm s)) \<subseteq> {p}))
     else created n cs sz s c s')"
proof -
  have small: "\<not> sz \<ge> PAGE_SIZE * push_bit (MAX_ORDER - 3) 1" using sz(2) by (simp add: PAGE_SIZE_def)
  define k where "k = kmem_align (ucast sz)"
  define i where "i = cache_order k 0"
  define c where "c = \<lparr>cflags = fl, total_slab = 0, free_slab = 0, num = cache_num i k, objsize = k,
    gfporder = of_nat i, gfpflags = GFP_KERNEL, slabs_partial = [], slabs_full = [], slabs_free = []\<rparr>"
  note lay = cache_layout [OF sz, folded k_def, folded i_def]
  have "layout_ok c" unfolding c_def by (rule lay(6))
  have mm: "mm_inv n (mm s)" using inv by (simp add: kmem_inv_def)
  show ?thesis
  proof (rule get_free_page_cases [OF mm, of GFP_KERNEL])
    assume "get_free_page GFP_KERNEL (mm s) = Some (0, mm s)" "free_set (buddy (mm s)) = {}"
    then show ?thesis using small inv by (simp add: kmem_cache_create_def)
  next
    fix p m assume p: "get_free_page GFP_KERNEL (mm s) = Some (page_addr p, m)" "p < n" "p < 2 ^ 32"
      "p \<in> free_set (buddy (mm s))" "free_set (buddy m) = free_set (buddy (mm s)) - {p}"
      "activate (buddy m) = p # activate (buddy (mm s))" "mm_inv n m"
      "\<forall>i. slab (mem_map m i) = slab (mem_map (mm s) i)"
    let ?a = "page_addr p" and ?s = "set_cache (page_addr p) c (s\<lparr>mm := m\<rparr>)"
    have new: "?a \<notin> cs" "kmem_inv n (insert ?a cs) ?s"
      using new_cache_inv [OF inv p(2,4-8) \<open>layout_ok c\<close>] by (simp_all add: c_def slab_list_def)
    have a: "?a \<noteq> 0" using p(3) by simp
    have eq: "kmem_cache_create sz fl s = Option.bind (cache_grow ?a ?s)
        (\<lambda>(r, s). if r \<noteq> 0 then Option.bind (free_page ?a (mm s)) (\<lambda>m. Some (0, s\<lparr>mm := m\<rparr>)) else Some (?a, s))"
      using small p(1) a lay(3,4)
      by (simp add: kmem_cache_create_def Let_def k_def [symmetric] i_def [symmetric] c_def)
    have "mm_inv n (mm ?s)" "layout_ok (caches ?s ?a)" using p(7) \<open>layout_ok c\<close> by simp_all
    then show ?thesis
    proof (rule cache_grow_cases)
      assume 2: "cache_grow ?a ?s = Some (-1, ?s)" "gfporder (caches ?s ?a) = 0 \<Longrightarrow> free_set (buddy (mm ?s)) = {}"
      from release_cache [OF new(2) insertI1] obtain m' where m': "free_page ?a m = Some m'"
        "free_set (buddy m') = free_set (buddy m) \<union> page_extent (?a, 0)"
        "kmem_inv n (insert ?a cs - {?a}) (?s\<lparr>mm := m'\<rparr>)"
        by (auto simp: c_def slab_list_def kmem_blocks_def)
      have "page_extent (?a, 0) = {p}" using p(3) by (simp add: page_extent_def span_def)
      moreover have "sz > 1024 \<or> (\<exists>p. free_set (buddy (mm s)) \<subseteq> {p})"
      proof (cases "sz > 1024")
        case False
        then have "unat sz \<le> 1024" by (simp add: word_less_nat_alt)
        then have "upper_div (unat sz) 8 \<le> 128" by (intro upper_div_le) simp_all
        then have "\<not> k * SLAB_MIN_NUM > ucast PAGE_SIZE * push_bit 0 1"
          using lay(1) by (simp add: word_less_nat_alt SLAB_MIN_NUM_def PAGE_SIZE_def unat_word_ariths)
        then have "i = 0" unfolding i_def by (subst cache_order.simps) simp
        then have "free_set (buddy m) = {}" using 2(2) by (simp add: c_def)
        then show ?thesis using p(5) by auto
      qed simp
      ultimately show ?thesis using 2(1) eq m' new(1) p(4,5) by auto
    next
      fix sl s' assume 3: "cache_grow ?a ?s = Some (0, s')" "grown_by n ?a sl ?s s'"
      from grow_step(1) [OF new(2) insertI1 3(2)] have "kmem_inv n (insert ?a cs) s'" .
      moreover obtain m'' d where s': "s' = add_slab ?a sl m'' d ?s" using 3(2) by (auto simp: grown_by_def)
      moreover have "caches s' c' = caches s c'" if "c' \<in> cs" for c'
      proof -
        have "c' \<noteq> ?a" using that new(1) by blast
        then show ?thesis by (simp add: s')
      qed
      moreover have "num c = cache_num i k" "unat (objsize c) = upper_div (unat sz) 8 * 8"
        using lay(1) by (simp_all add: c_def)
      ultimately show ?thesis
        using 3(1) eq a new(1) lay(5) \<open>layout_ok c\<close> by (simp add: created_def layout_ok_def)
    qed
  qed
qed

text \<open>
  C13.  \<open>kmem_cache_destroy\<close> returns 0 and gives exactly the pages of the cache back to the page
  allocator: those of all its slabs, on whatever ring they are, and that of its descriptor.  The
  remaining caches are untouched and still well formed.
\<close>

theorem kmem_cache_destroy_correct:
  assumes "kmem_inv n cs s" "c \<in> cs"
  shows "\<exists>s'. kmem_cache_destroy c s = Some (0, s') \<and> kmem_inv n (cs - {c}) s' \<and>
    caches s' = caches s \<and> slabs s' = slabs s \<and>
    free_set (buddy (mm s')) = free_set (buddy (mm s)) \<union> page_extent (c, 0) \<union>
      (\<Union>sl \<in> set (slabs_partial (caches s c) @ slabs_full (caches s c) @ slabs_free (caches s c)).
         page_extent (sl, unat (gfporder (caches s c))))"
proof -
  let ?c = "caches s c"
  from release_cache [OF assms] obtain m where m:
    "Option.bind (free_slabs (slab_list ?c) (gfporder ?c) (mm s)) (free_page c) = Some m"
    "free_set (buddy m) = free_set (buddy (mm s)) \<union> (\<Union>b \<in> kmem_blocks {c} s. page_extent b)"
    "kmem_inv n (cs - {c}) (s\<lparr>mm := m\<rparr>)" by blast
  have "kmem_cache_destroy c s = Option.bind
      (Option.bind (free_slabs (slab_list ?c) (gfporder ?c) (mm s)) (free_page c)) (\<lambda>m. Some (0, s\<lparr>mm := m\<rparr>))"
    by (simp add: kmem_cache_destroy_def Let_def slab_list_def free_slabs_append Option.bind_assoc)
  then have "kmem_cache_destroy c s = Some (0, s\<lparr>mm := m\<rparr>)" unfolding m(1) by simp
  then show ?thesis
    using m(2,3) by (intro exI [of _ "s\<lparr>mm := m\<rparr>"]) (auto simp: kmem_blocks_def slab_list_def)
qed


definition example_kmem :: kmem where
  "example_kmem = \<lparr>mm = example_mm, slabs = (\<lambda>_. \<lparr>s_mem = 0, inuse = 0, free = 0, bufctl = (\<lambda>_. 0)\<rparr>),
     caches = (\<lambda>_. \<lparr>cflags = 0, total_slab = 0, free_slab = 0, num = 0, objsize = 0, gfporder = 0,
       gfpflags = 0, slabs_partial = [], slabs_full = [], slabs_free = []\<rparr>)\<rparr>"

lemma example_kmem_inv: "kmem_inv 16 {} example_kmem"
  by (simp add: kmem_inv_def example_kmem_def example_mm_inv kmem_blocks_def disjoint_blocks_def tags_ok_def)

lemma example_cache:
  "\<exists>c s. kmem_cache_create 32 0 example_kmem = Some (c, s) \<and> c \<noteq> 0 \<and> created 16 {} 32 example_kmem c s"
proof -
  have sz: "0 < (32::u64)" "(32::u64) < 0x20000" by simp_all
  have "8 \<in> free_set (buddy (mm example_kmem))" "9 \<in> free_set (buddy (mm example_kmem))"
    by (simp_all add: example_kmem_def example_mm_def example_free_set span_def)
  note pages = this
  have two: "\<not> free_set (buddy (mm example_kmem)) \<subseteq> {p}" for p
  proof (rule notI)
    assume sub: "free_set (buddy (mm example_kmem)) \<subseteq> {p}"
    have "8 = p" using subsetD [OF sub pages(1)] by simp
    moreover have "9 = p" using subsetD [OF sub pages(2)] by simp
    ultimately show False by simp
  qed
  from create_cases [OF example_kmem_inv sz, of 0] obtain c s where
    c: "kmem_cache_create 32 0 example_kmem = Some (c, s)"
      "if c = 0 then kmem_inv 16 {} s \<and> free_set (buddy (mm s)) = free_set (buddy (mm example_kmem)) \<and>
          ((32::u64) > 1024 \<or> (\<exists>p. free_set (buddy (mm example_kmem)) \<subseteq> {p}))
       else created 16 {} 32 example_kmem c s"
    by (elim exE conjE) (rule that)
  from c(2) two have "c \<noteq> 0" by auto
  with c show ?thesis by simp
qed


theorem kmem_cache_destroy_correct_witness:
  "\<exists>c s s'. kmem_cache_create 32 0 example_kmem = Some (c, s) \<and> kmem_inv 16 {c} s \<and>
     kmem_cache_destroy c s = Some (0, s') \<and> kmem_inv 16 {} s'"
proof -
  obtain c s where c: "kmem_cache_create 32 0 example_kmem = Some (c, s)" "kmem_inv 16 {c} s"
    using example_cache by (auto simp: created_def)
  from kmem_cache_destroy_correct [OF c(2) singletonI] show ?thesis using c by auto
qed

section \<open>The caches of kmalloc at boot\<close>

lemma unat_kmalloc_size: "k \<in> set kmalloc_sizes \<Longrightarrow> 0 < (ucast k :: u64) \<and> (ucast k :: u64) < 0x20000 \<and> 8 dvd unat k"
  by (auto simp: kmalloc_sizes_def upt_rec)

lemma kmalloc_cache_init_from_spec:
  assumes "kmem_inv n cs s" "set ks \<subseteq> set kmalloc_sizes"
  shows "\<exists>kc s'. kmalloc_cache_init_from ks s = Some (kc, s') \<and> length kc = length ks \<and>
    kmem_inv n (cs \<union> (set kc - {0})) s' \<and> (\<forall>c \<in> cs. caches s' c = caches s c) \<and>
    (\<forall>i < length ks. kc ! i \<noteq> 0 \<longrightarrow> objsize (caches s' (kc ! i)) = ks ! i)"
  using assms
proof (induction ks arbitrary: cs s)
  case (Cons k ks)
  have k: "0 < (ucast k :: u64)" "(ucast k :: u64) < 0x20000" "8 dvd unat k" using Cons.prems(2) unat_kmalloc_size by auto
  from create_cases [OF Cons.prems(1) k(1,2), of 0] obtain c s1 where
    c: "kmem_cache_create (ucast k) 0 s = Some (c, s1)" "\<forall>c' \<in> cs. caches s1 c' = caches s c'"
      "if c = 0 then kmem_inv n cs s1 \<and> free_set (buddy (mm s1)) = free_set (buddy (mm s)) \<and>
          ((ucast k :: u64) > 1024 \<or> (\<exists>p. free_set (buddy (mm s)) \<subseteq> {p})) else created n cs (ucast k) s c s1"
    by (elim exE conjE) (rule that)
  define cs1 where "cs1 = cs \<union> ({c} - {0})"
  have inv1: "kmem_inv n cs1 s1"
    using c(3) by (cases "c = 0") (simp_all add: cs1_def created_def)
  have sz: "objsize (caches s1 c) = k" if "c \<noteq> 0"
    using c(3) that k(3) by (simp add: created_def upper_div_nat_eq word_unat_eq_iff)
  from Cons.IH [OF inv1] Cons.prems(2) obtain kc s2 where
    kc: "kmalloc_cache_init_from ks s1 = Some (kc, s2)" "length kc = length ks"
      "kmem_inv n (cs1 \<union> (set kc - {0})) s2" "\<forall>c \<in> cs1. caches s2 c = caches s1 c"
      "\<forall>i < length ks. kc ! i \<noteq> 0 \<longrightarrow> objsize (caches s2 (kc ! i)) = ks ! i"
    by auto
  have un: "cs1 \<union> (set kc - {0}) = cs \<union> (set (c # kc) - {0})" by (auto simp: cs1_def)
  have "objsize (caches s2 ((c # kc) ! i)) = (k # ks) ! i" if "i < length (k # ks)" "(c # kc) ! i \<noteq> 0" for i
    using that kc(4,5) sz by (cases i) (auto simp: cs1_def)
  moreover have "\<forall>c \<in> cs. caches s2 c = caches s c" using kc(4) c(2) by (simp add: cs1_def)
  ultimately show ?case
    using c(1) kc(1,2,3) unfolding un by (intro exI [of _ "c # kc"] exI [of _ s2]) simp
qed simp

text \<open>
  C14.  \<open>kmalloc_cache_init\<close> always returns and leaves well-formed, disjoint caches: the array has
  one entry per size class, and every entry that is not null is a cache of exactly its class's
  size, so that \<open>kmalloc\<close> can run on it.
\<close>

theorem kmalloc_cache_init_correct:
  assumes "mm_inv n (mm s)"
  shows "\<exists>kc s'. kmalloc_cache_init s = Some (kc, s') \<and> length kc = KMALLOC_CACHE_SIZE \<and>
    kmalloc_inv n (set kc - {0}) kc s'"
proof -
  have "kmem_inv n {} s" using assms by (simp add: kmem_inv_def kmem_blocks_def disjoint_blocks_def tags_ok_def)
  moreover have len: "length kmalloc_sizes = 11" by (simp add: kmalloc_sizes_def)
  ultimately obtain kc s' where kc: "kmalloc_cache_init s = Some (kc, s')" "length kc = 11"
    "kmem_inv n (set kc - {0}) s'"
    "\<forall>i < 11. kc ! i \<noteq> 0 \<longrightarrow> objsize (caches s' (kc ! i)) = kmalloc_sizes ! i"
    using kmalloc_cache_init_from_spec [of n "{}" s kmalloc_sizes] by (auto simp: kmalloc_cache_init_def)
  have "kc ! i = 0 \<or> kc ! i \<in> set kc - {0} \<and> unat (objsize (caches s' (kc ! i))) = 2 ^ (5 + i)" if "i < 11" for i
    using that kc(2,4) kmalloc_sizes_nth [OF that] by (cases "kc ! i = 0") simp_all
  then show ?thesis using kc by (auto simp: kmalloc_inv_def KMALLOC_CACHE_SIZE_def)
qed

theorem kmalloc_cache_init_correct_witness:
  "\<exists>kc s'. kmalloc_cache_init example_kmem = Some (kc, s') \<and> length kc = 11 \<and> kmalloc_inv 16 (set kc - {0}) kc s'"
  using kmalloc_cache_init_correct [of 16 example_kmem] example_mm_inv
  by (simp add: example_kmem_def KMALLOC_CACHE_SIZE_def)

section \<open>Every sequence of kmalloc and kfree\<close>

text \<open>
  C11.  Along every sequence of \<open>kmalloc\<close> and \<open>kfree\<close> calls in which each object is freed once
  and no \<open>kfree\<close> leaves more than \<open>SLAB_MAX_FREE\<close> empty slabs in its cache, the objects held are
  pairwise disjoint byte ranges, none of them overlaps a free object or a free page, and the
  caches and the page allocator stay well formed.
\<close>

theorem kmalloc_trace_safe:
  assumes "kmalloc_inv n cs kc s0" "alloc_trace (kmalloc_request kc) kmalloc_release s0 s live"
  shows "kmalloc_inv n cs kc s \<and> disjoint_extents bytes live \<and>
    (\<forall>x \<in> set live. obj_held cs s x \<and> bytes x \<inter> free_bytes cs s = {} \<and>
       bytes x \<inter> page_bytes (free_set (buddy (mm s))) = {})"
  using kmalloc.trace_inv [OF assms(2,1)] by (auto simp: free_bytes_def)

theorem kmalloc_trace_safe_witness:
  "\<exists>c s0 x s. kmem_cache_create 32 0 example_kmem = Some (c, s0) \<and>
     alloc_trace (kmalloc_request (c # replicate 10 0)) kmalloc_release s0 s [x] \<and>
     snd x = 32 \<and> bytes x \<inter> page_bytes (free_set (buddy (mm s))) = {}"
proof -
  obtain c s0 where c: "kmem_cache_create 32 0 example_kmem = Some (c, s0)" "c \<noteq> 0" "kmem_inv 16 {c} s0"
    "slabs_free (caches s0 c) \<noteq> []" "unat (objsize (caches s0 c)) = 32"
    using example_cache by (auto simp: created_def upper_div_def)
  let ?kc = "c # replicate 10 0"
  have inv: "kmalloc_inv 16 {c} ?kc s0"
    using c by (auto simp: kmalloc_inv_def KMALLOC_CACHE_SIZE_def nth_Cons')
  obtain a s where a: "cache_alloc c s0 = (a, s)" by fastforce
  have "cache_ok s0 c" using c(3) by (simp add: kmem_inv_def)
  from cache_alloc_spec [OF this a] c(4) have "a \<noteq> 0" by (auto split: if_splits)
  have cls: "kmalloc_class 20 kmalloc_sizes 0 = 0" by (simp add: kmalloc_sizes_def upt_rec)
  have "kmalloc_request ?kc 20 s0 = Some (Some (a, 32), s)"
    using a \<open>a \<noteq> 0\<close> c(2)
    by (simp add: kmalloc_request_def kmalloc_def cls KMALLOC_CACHE_SIZE_def kmem_cache_alloc_def)
  then have t: "alloc_trace (kmalloc_request ?kc) kmalloc_release s0 s [(a, 32)]"
    using alloc_trace.got [OF alloc_trace.start] by fastforce
  from kmalloc_trace_safe [OF inv t] show ?thesis using c(1) t by auto
qed

text \<open>
  C15.  What \<open>kmem_cache_free\<close> does when the object it frees is the last one of its slab and the
  cache already has \<open>SLAB_MAX_FREE\<close> empty slabs: it gives the slab's pages back to the page
  allocator and leaves the slab on the ring of empty slabs, from which \<open>kmem_cache_alloc\<close> takes
  objects.
\<close>

theorem kmem_cache_free_dangling:
  assumes "kmem_inv n cs s" "c \<in> cs" "(sl, i) \<in> all_objs s c - free_objs s c"
    "free (slabs s sl) = 1" "free_slab (caches s c) = SLAB_MAX_FREE"
  shows "\<exists>s'. kmem_cache_free c (obj_addr (caches s c) sl i) s = Some s' \<and>
    sl \<in> set (slabs_free (caches s' c)) \<and>
    page_extent (sl, unat (gfporder (caches s' c))) \<subseteq> free_set (buddy (mm s'))"
proof -
  have ok: "cache_ok s c" and oa: "(sl, i) \<in> all_objs s c" using assms by (auto simp: kmem_inv_def)
  have sl: "sl \<in> set (slab_list (caches s c))" using oa by (auto simp: all_objs_def)
  have apart: "\<forall>sl' \<in> set (slab_list (caches s c)). sl' \<noteq> sl \<longrightarrow> apart (caches s c) sl sl'"
    using slabs_apart [OF assms(1,2) sl] by blast
  from cache_free_spec [OF ok assms(3) apart] assms(4) obtain s1 where
    s1: "cache_free c (obj_addr (caches s c) sl i) s = Some s1" "cache_ok s1 c" "same_slabs c s s1"
      "slabs_free (caches s1 c) = sl # slabs_free (caches s c)" by auto
  have inv1: "kmem_inv n cs s1" by (rule kmem_inv_same [OF assms(1,2) s1(3,2)])
  have five: "free_slab (caches s1 c) = 5"
    using s1(2,4) ok assms(5) by (simp add: cache_ok_def SLAB_MAX_FREE_def)
  let ?k = "unat (gfporder (caches s1 c))"
  have sl1: "sl \<in> set (slab_list (caches s1 c))" using s1(4) by (simp add: slab_list_def)
  have held: "mm_inv n (mm s1)" "page_held n (mm s1) (sl, ?k)" "page_extent (sl, ?k) \<inter> free_set (buddy (mm s1)) = {}"
    using inv1 slab_block [OF assms(2) sl1] by (simp_all add: kmem_inv_def)
  from page_release_held [OF this] obtain m where m: "free_pages sl ?k (mm s1) = Some m"
    "free_set (buddy m) = free_set (buddy (mm s1)) \<union> page_extent (sl, ?k)" by (auto simp: page_release_def)
  let ?c' = "(caches s1 c)\<lparr>free_slab := 4\<rparr>"
  have first: "first_free c (caches s1 c) = sl" using s1(4) by (simp add: first_free_def)
  have "trim_free c s1 = trim_free c (set_cache c ?c' (s1\<lparr>mm := m\<rparr>))"
    using five m(1) first by (subst trim_free.simps) (simp add: SLAB_MAX_FREE_def Let_def)
  also have "\<dots> = Some (set_cache c ?c' (s1\<lparr>mm := m\<rparr>))"
    by (subst trim_free.simps) (simp add: SLAB_MAX_FREE_def Let_def)
  finally have "kmem_cache_free c (obj_addr (caches s c) sl i) s = Some (set_cache c ?c' (s1\<lparr>mm := m\<rparr>))"
    using s1(1) by (simp add: kmem_cache_free_def)
  then show ?thesis using s1(4) m(2) by simp
qed

text \<open>A cache of 1 KiB objects with four empty slabs and one slab that has one object in use.\<close>

definition worn_mm :: mm_state where
  "worn_mm = \<lparr>mem_map = \<lambda>i. \<lparr>flags = 0, page_count = 0, slab = page_addr 1, virtual = page_addr i\<rparr>,
     buddy = example_buddy\<lparr>activate := [1, 2, 3, 4, 5, 6]\<rparr>\<rparr>"

definition worn_kmem :: kmem where
  "worn_kmem = \<lparr>mm = worn_mm,
     slabs = (\<lambda>sl. \<lparr>s_mem = sl + 40, inuse = if sl = page_addr 2 then 1 else 0,
       free = if sl = page_addr 2 then 1 else 0, bufctl = (\<lambda>j. if j < 3 then of_nat j else BUFCTL_END)\<rparr>),
     caches = (\<lambda>_. \<lparr>cflags = 0, total_slab = 5, free_slab = 4, num = 3, objsize = 1024, gfporder = 0,
       gfpflags = 1, slabs_partial = [page_addr 2], slabs_full = [],
       slabs_free = [page_addr 3, page_addr 4, page_addr 5, page_addr 6]\<rparr>)\<rparr>"

lemma worn_slab_list:
  "slab_list (caches worn_kmem c) = map page_addr [2, 3, 4, 5, 6]" "num (caches worn_kmem c) = 3"
  "gfporder (caches worn_kmem c) = 0" "objsize (caches worn_kmem c) = 1024"
  by (simp_all add: worn_kmem_def slab_list_def)

lemma worn_head: "slab_head 3 = 40"
  by (simp add: slab_head_def kmem_align_def sizeof_slab_def)

lemma worn_cache_ok: "cache_ok worn_kmem c"
proof -
  have d: "distinct (map page_addr [2, 3, 4, 5, 6])" by (simp add: page_addr_inj)
  have "unat (page_addr i) + 4096 < 2 ^ 64" if "i < 16" for i using that by (simp add: unat_page_addr)
  then have "slab_ok (caches worn_kmem c) (page_addr i) (slabs worn_kmem (page_addr i))" if "i < 16" for i
    using that by (auto simp: slab_ok_def worn_kmem_def avail_def worn_head upt_rec)
  then show ?thesis
    using d unfolding cache_ok_def slabs_ok_def worn_slab_list
    by (auto simp: layout_ok_def worn_slab_list worn_head) (auto simp: worn_kmem_def page_addr_inj)
qed

lemma worn_inv: "kmem_inv 16 {page_addr 1} worn_kmem"
proof -
  have mm: "mm worn_kmem = worn_mm" by (simp add: worn_kmem_def)
  have free: "free_set (buddy worn_mm) = span 8 3" by (simp add: worn_mm_def example_free_set)
  have inv: "mm_inv 16 worn_mm"
    unfolding mm_inv_def free by (auto simp: worn_mm_def example_buddy_inv span_def)
  have blocks: "kmem_blocks {page_addr 1} worn_kmem = (\<lambda>i. (page_addr i, 0)) ` {1, 2, 3, 4, 5, 6}"
    by (simp add: kmem_blocks_def worn_slab_list)
  have ext: "page_extent (page_addr i, 0) = {i}" if "i < 16" for i using that by (simp add: page_extent_def)
  have "page_held 16 worn_mm (page_addr i, 0)" if "i \<in> {1, 2, 3, 4, 5, 6}" for i
    using that by (auto simp: page_held_def worn_mm_def)
  moreover have "page_extent (page_addr i, 0) \<inter> span 8 3 = {}" if "i \<in> {1, 2, 3, 4, 5, 6}" for i
    using that by (auto simp: ext span_def)
  moreover have "disjoint_blocks ((\<lambda>i. (page_addr i, 0)) ` {1, 2, 3, 4, 5, 6})"
    by (simp add: disjoint_blocks_def ext)
  moreover have "tags_ok {page_addr 1} worn_kmem"
    unfolding tags_ok_def worn_slab_list by (auto simp: page_addr_inj) (simp_all add: worn_kmem_def worn_mm_def)
  ultimately have "\<forall>b \<in> (\<lambda>i. (page_addr i, 0)) ` {1, 2, 3, 4, 5, 6}.
      page_held 16 worn_mm b \<and> page_extent b \<inter> span 8 3 = {}"
    "disjoint_blocks ((\<lambda>i. (page_addr i, 0)) ` {1, 2, 3, 4, 5, 6})" "tags_ok {page_addr 1} worn_kmem"
    by simp_all
  then show ?thesis
    unfolding kmem_inv_def mm blocks free using inv worn_cache_ok by (intro conjI) simp_all
qed

theorem kmem_cache_free_dangling_witness:
  "\<exists>s'. kmem_cache_free (page_addr 1) (page_addr 2 + 40) worn_kmem = Some s' \<and>
     page_addr 2 \<in> set (slabs_free (caches s' (page_addr 1))) \<and> 2 \<in> free_set (buddy (mm s'))"
proof -
  have o: "(page_addr 2, 0) \<in> all_objs worn_kmem (page_addr 1) - free_objs worn_kmem (page_addr 1)"
    by (auto simp: all_objs_def free_objs_def worn_slab_list) (auto simp: worn_kmem_def avail_def upt_rec)
  have a: "obj_addr (caches worn_kmem (page_addr 1)) (page_addr 2) 0 = page_addr 2 + 40"
    by (simp add: obj_addr_def worn_slab_list worn_head)
  have fr: "free (slabs worn_kmem (page_addr 2)) = 1" "free_slab (caches worn_kmem (page_addr 1)) = SLAB_MAX_FREE"
    by (simp_all add: worn_kmem_def SLAB_MAX_FREE_def)
  have "2 \<in> page_extent (page_addr 2, k)" for k using page_of_extent [of "page_addr 2" k] by simp
  with kmem_cache_free_dangling [OF worn_inv singletonI o fr] show ?thesis unfolding a by blast
qed

end
