(* ===== verification/HashMap.thy ===== *)
theory HashMap
  imports Prelude
begin

text \<open>
  Hash tables with chained buckets.  The kernel's process table, the file table of the file
  system server and the inode table of the ext2 server have the same shape: an array of rings,
  an entry appended to the ring of its key's remainder, a search of that ring.  The locale
  \<open>registry\<close> states what their clients rely on.
\<close>

section \<open>What a client relies on\<close>

locale registry =
  fixes inv :: "'t \<Rightarrow> bool"
    and lookup :: "'t \<Rightarrow> 'k \<Rightarrow> 'p option"
    and fresh :: "'t \<Rightarrow> 'k \<Rightarrow> 'p \<Rightarrow> bool"
    and enter :: "'k \<Rightarrow> 'p \<Rightarrow> 't \<Rightarrow> 't"
    and leave :: "'k \<Rightarrow> 't \<Rightarrow> 't"
  assumes enter_inv: "inv t \<Longrightarrow> lookup t k = None \<Longrightarrow> fresh t k p \<Longrightarrow> inv (enter k p t)"
    and leave_inv: "inv t \<Longrightarrow> inv (leave k t)"
    and lookup_enter: "inv t \<Longrightarrow> lookup t k = None \<Longrightarrow> fresh t k p \<Longrightarrow>
          lookup (enter k p t) j = (if j = k then Some p else lookup t j)"
    and lookup_leave: "inv t \<Longrightarrow> lookup (leave k t) j = (if j = k then None else lookup t j)"
begin

lemma enter_leave:
  assumes "inv t" "lookup t k = None" "fresh t k p"
  shows "lookup (leave k (enter k p t)) = lookup t"
  using assms enter_inv [OF assms] by (auto simp: lookup_leave lookup_enter fun_eq_iff)

text \<open>A sequence of legal registrations and of removals does what it does to a finite map.\<close>

fun run :: "('k \<times> 'p option) list \<Rightarrow> 't \<Rightarrow> 't option" where
  "run [] t = Some t"
| "run ((k, None) # ops) t = run ops (leave k t)"
| "run ((k, Some p) # ops) t = (if lookup t k = None \<and> fresh t k p then run ops (enter k p t) else None)"

lemma run_refines:
  "inv t \<Longrightarrow> run ops t = Some t' \<Longrightarrow>
     inv t' \<and> lookup t' = fold (\<lambda>(k, v) m. m(k := v)) ops (lookup t)"
proof (induction ops t rule: run.induct)
  case (2 k ops t)
  have "lookup (leave k t) = (lookup t)(k := None)" using lookup_leave [OF 2(2)] by (simp add: fun_eq_iff)
  then show ?case using 2(1) [OF leave_inv [OF 2(2)]] 2(3) by simp
next
  case (3 k p ops t)
  then have c: "lookup t k = None" "fresh t k p" "run ops (enter k p t) = Some t'" by (auto split: if_splits)
  have "lookup (enter k p t) = (lookup t)(k := Some p)"
    using lookup_enter [OF 3(2) c(1,2)] by (simp add: fun_eq_iff)
  then show ?case using 3(1) [OF _ enter_inv [OF 3(2) c(1,2)] c(3)] c by simp
qed simp

end

section \<open>Chained buckets\<close>

type_synonym 'p buckets = "nat \<Rightarrow> 'p list"

definition bucket_find :: "('p \<Rightarrow> 'k) \<Rightarrow> 'k \<Rightarrow> 'p list \<Rightarrow> 'p option" where
  "bucket_find key k ps = List.find (\<lambda>p. key p = k) ps"

definition buckets_ok :: "('p \<Rightarrow> 'k) \<Rightarrow> ('k \<Rightarrow> nat) \<Rightarrow> 'p buckets \<Rightarrow> bool" where
  "buckets_ok key h t \<longleftrightarrow> (\<forall>i. distinct (map key (t i)) \<and> (\<forall>p \<in> set (t i). h (key p) = i))"

lemma bucket_find_append:
  "bucket_find key k (ps @ [p]) =
     (case bucket_find key k ps of Some q \<Rightarrow> Some q | None \<Rightarrow> if key p = k then Some p else None)"
  by (induction ps) (auto simp: bucket_find_def)

lemma bucket_find_None: "bucket_find key k ps = None \<longleftrightarrow> k \<notin> key ` set ps"
  by (auto simp: bucket_find_def find_None_iff)

lemma bucket_find_Some:
  "bucket_find key k ps = Some p \<Longrightarrow> p \<in> set ps \<and> key p = k"
  by (auto simp: bucket_find_def find_Some_iff)

lemma bucket_find_distinct:
  "distinct (map key ps) \<Longrightarrow> p \<in> set ps \<Longrightarrow> bucket_find key (key p) ps = Some p"
  by (induction ps) (auto simp: bucket_find_def)

lemma bucket_find_remove:
  assumes "distinct (map key ps)" "p \<in> set ps"
  shows "bucket_find key k (remove1 p ps) = (if k = key p then None else bucket_find key k ps)"
  using assms
proof (induction ps)
  case (Cons a ps)
  then have "\<forall>x \<in> set ps. key x \<noteq> key a" by (metis distinct.simps(2) imageI list.set_map list.simps(9))
  then show ?case
    using Cons by (cases "a = p") (auto simp: bucket_find_def find_None_iff)
qed simp

lemma buckets_ok_add:
  assumes "buckets_ok key h t" "bucket_find key (key p) (t (h (key p))) = None"
  shows "buckets_ok key h (t(h (key p) := t (h (key p)) @ [p]))"
  using assms by (auto simp: buckets_ok_def bucket_find_None)

lemma buckets_ok_remove:
  assumes "buckets_ok key h t" shows "buckets_ok key h (t(i := remove1 p (t i)))"
proof -
  have "distinct (map key (remove1 p xs))" if "distinct (map key xs)" for xs
    using that set_remove1_subset [of p xs] by (auto simp: distinct_map intro: inj_on_subset)
  then show ?thesis using assms set_remove1_subset [of p "t i"] by (auto simp: buckets_ok_def)
qed

lemma buckets_cong:
  assumes "\<And>i p. p \<in> set (t i) \<Longrightarrow> key' p = key p"
  shows "buckets_ok key' h t = buckets_ok key h t" "bucket_find key' k (t i) = bucket_find key k (t i)"
proof -
  have m: "map key' (t i) = map key (t i)" for i using assms by simp
  show "buckets_ok key' h t = buckets_ok key h t"
    unfolding buckets_ok_def m using assms by metis
  have "List.find (\<lambda>p. key' p = k) xs = List.find (\<lambda>p. key p = k) xs" if "\<forall>p \<in> set xs. key' p = key p" for xs
    using that by (induction xs) auto
  then show "bucket_find key' k (t i) = bucket_find key k (t i)" using assms by (simp add: bucket_find_def)
qed

end
