(* ===== verification/Msg.thy ===== *)
theory Msg
  imports Prelude
begin

text \<open>
  Messages (\<open>src/src/include/libc/sys/ipc.h\<close> and \<open>src/src/include/kernel/ipc.h\<close>, which declare the
  same layouts).  The union of request structures is five 8-byte words; a structure's fields are
  the words and half words its C layout gives them.  \<open>put_\<dots>\<close> stores the fields of a structure,
  \<open>get_\<dots>\<close> reads them; a field that is not stored keeps what the message held.
\<close>

section \<open>Layout\<close>

type_synonym cint = u32

record message =
  msrc :: int
  mtype :: int
  w0 :: u64
  w1 :: u64
  w2 :: u64
  w3 :: u64
  w4 :: u64

text \<open>A message cleared by \<open>memset\<close>.\<close>

definition zero_message :: message where
  "zero_message = \<lparr>msrc = 0, mtype = 0, w0 = 0, w1 = 0, w2 = 0, w3 = 0, w4 = 0\<rparr>"

definition lo :: "u64 \<Rightarrow> u32" where "lo w = ucast w"

definition hi :: "u64 \<Rightarrow> u32" where "hi w = ucast (drop_bit 32 w)"

definition set_lo :: "u32 \<Rightarrow> u64 \<Rightarrow> u64" where
  "set_lo v w = push_bit 32 (drop_bit 32 w) OR ucast v"

definition set_hi :: "u32 \<Rightarrow> u64 \<Rightarrow> u64" where
  "set_hi v w = take_bit 32 w OR push_bit 32 (ucast v)"

lemma halves [simp]:
  "lo (set_lo v w) = v" "hi (set_hi v w) = v" "lo (set_hi v w) = lo w" "hi (set_lo v w) = hi w"
  by (rule bit_word_eqI; auto simp: lo_def hi_def set_lo_def set_hi_def bit_simps dest: bit_imp_le_length)+

text \<open>A \<open>long\<close> returned as an \<open>int\<close>.\<close>

definition to_int :: "int \<Rightarrow> int" where
  "to_int r = sint (word_of_int r :: u32)"

section \<open>Numbers of processes and requests\<close>

definition IPC_NOWAIT :: int where "IPC_NOWAIT = 0"

definition IPC_INIT :: int where "IPC_INIT = 1"

definition IPC_VFS :: int where "IPC_VFS = 2"

definition IPC_DISK :: int where "IPC_DISK = 3"

definition IPC_KB :: int where "IPC_KB = 4"

definition IPC_VIDEO :: int where "IPC_VIDEO = 5"

definition IPC_MM :: int where "IPC_MM = 6"

definition IPC_EXT2 :: int where "IPC_EXT2 = 7"

definition IPC_SIGNAL :: int where "IPC_SIGNAL = 0x0ffffffc"

definition IPC_INTR :: int where "IPC_INTR = 0x0ffffffd"

definition IPC_ALL :: int where "IPC_ALL = 0x0ffffffe"

definition IPC_KERNEL :: int where "IPC_KERNEL = 0x0fffffff"

definition MSG_READ :: int where "MSG_READ = 1"

definition MSG_WRITE :: int where "MSG_WRITE = 2"

definition MSG_OPEN :: int where "MSG_OPEN = 3"

definition MSG_CLOSE :: int where "MSG_CLOSE = 4"

definition MSG_FORK :: int where "MSG_FORK = 5"

definition MSG_EXECVE :: int where "MSG_EXECVE = 6"

definition MSG_LSEEK :: int where "MSG_LSEEK = 7"

definition MSG_EXIT :: int where "MSG_EXIT = 8"

definition MSG_WAIT :: int where "MSG_WAIT = 9"

definition MSG_BRK :: int where "MSG_BRK = 10"

definition MSG_GETPID :: int where "MSG_GETPID = 11"

definition MSG_GETCWD :: int where "MSG_GETCWD = 12"

definition MSG_CHDIR :: int where "MSG_CHDIR = 13"

definition MSG_STAT :: int where "MSG_STAT = 14"

definition MSG_GETDENTS :: int where "MSG_GETDENTS = 15"

definition MSG_MKDIR :: int where "MSG_MKDIR = 16"

definition MSG_BDEV_TRANSFER :: int where "MSG_BDEV_TRANSFER = 257"

definition MSG_IRQ :: int where "MSG_IRQ = 258"

definition MSG_INTR :: int where "MSG_INTR = 259"

definition MSG_FSMNT :: int where "MSG_FSMNT = 260"

definition MSG_FSREAD :: int where "MSG_FSREAD = 261"

definition MSG_FSWRITE :: int where "MSG_FSWRITE = 262"

definition MSG_FSLOOKUP :: int where "MSG_FSLOOKUP = 263"

definition MSG_FORKFS :: int where "MSG_FORKFS = 264"

definition MSG_FREEFS :: int where "MSG_FREEFS = 265"

definition MSG_EXECFS :: int where "MSG_EXECFS = 266"

definition MSG_KMAP :: int where "MSG_KMAP = 267"

definition MSG_FSSTAT :: int where "MSG_FSSTAT = 268"

definition MSG_BDEV_PART :: int where "MSG_BDEV_PART = 269"

definition MSG_FSGETDENTS :: int where "MSG_FSGETDENTS = 230"

lemmas msg_numbers = MSG_READ_def MSG_WRITE_def MSG_OPEN_def MSG_CLOSE_def MSG_FORK_def MSG_EXECVE_def
  MSG_LSEEK_def MSG_EXIT_def MSG_WAIT_def MSG_BRK_def MSG_GETPID_def MSG_GETCWD_def MSG_CHDIR_def MSG_STAT_def
  MSG_GETDENTS_def MSG_MKDIR_def MSG_BDEV_TRANSFER_def MSG_IRQ_def MSG_INTR_def MSG_FSMNT_def MSG_FSREAD_def
  MSG_FSWRITE_def MSG_FSLOOKUP_def MSG_FORKFS_def MSG_FREEFS_def MSG_EXECFS_def MSG_KMAP_def MSG_FSSTAT_def
  MSG_BDEV_PART_def MSG_FSGETDENTS_def

definition IRQ_REGISTER :: u32 where "IRQ_REGISTER = 1"

definition IRQ_UNREGISTER :: u32 where "IRQ_UNREGISTER = 2"

definition INTR_OK :: u32 where "INTR_OK = 1"

section \<open>Requests of user programs\<close>

definition put_read :: "cint \<Rightarrow> u64 \<Rightarrow> u64 \<Rightarrow> message \<Rightarrow> message" where
  "put_read fd buf sz m = m\<lparr>w0 := set_lo fd (w0 m), w1 := buf, w2 := sz\<rparr>"

definition get_read :: "message \<Rightarrow> cint \<times> u64 \<times> u64" where
  "get_read m = (lo (w0 m), w1 m, w2 m)"

definition put_write :: "cint \<Rightarrow> u64 \<Rightarrow> u64 \<Rightarrow> message \<Rightarrow> message" where
  "put_write fd buf sz m = m\<lparr>w0 := set_lo fd (w0 m), w1 := buf, w2 := sz\<rparr>"

definition put_open :: "u64 \<Rightarrow> cint \<Rightarrow> u32 option \<Rightarrow> message \<Rightarrow> message" where
  "put_open filepath oflag mode m =
     m\<lparr>w0 := filepath, w1 := (case mode of None \<Rightarrow> set_lo oflag (w1 m) | Some md \<Rightarrow> set_hi md (set_lo oflag (w1 m)))\<rparr>"

definition get_open :: "message \<Rightarrow> u64 \<times> cint \<times> u32" where
  "get_open m = (w0 m, lo (w1 m), hi (w1 m))"

definition put_close :: "cint \<Rightarrow> message \<Rightarrow> message" where
  "put_close fd m = m\<lparr>w0 := set_lo fd (w0 m)\<rparr>"

definition get_close :: "message \<Rightarrow> cint" where
  "get_close m = lo (w0 m)"

definition put_lseek :: "cint \<Rightarrow> u64 \<Rightarrow> cint \<Rightarrow> message \<Rightarrow> message" where
  "put_lseek fd offset whence m = m\<lparr>w0 := set_lo fd (w0 m), w1 := offset, w2 := set_lo whence (w2 m)\<rparr>"

definition get_lseek :: "message \<Rightarrow> cint \<times> u64 \<times> cint" where
  "get_lseek m = (lo (w0 m), w1 m, lo (w2 m))"

definition put_execve :: "u64 \<Rightarrow> u64 \<Rightarrow> u64 \<Rightarrow> message \<Rightarrow> message" where
  "put_execve pathname argv envp m = m\<lparr>w0 := pathname, w1 := argv, w2 := envp\<rparr>"

definition get_execve :: "message \<Rightarrow> u64 \<times> u64 \<times> u64" where
  "get_execve m = (w0 m, w1 m, w2 m)"

definition put_exit :: "cint \<Rightarrow> message \<Rightarrow> message" where
  "put_exit status m = m\<lparr>w0 := set_lo status (w0 m)\<rparr>"

definition get_exit :: "message \<Rightarrow> cint" where
  "get_exit m = lo (w0 m)"

definition put_wait :: "cint \<Rightarrow> message \<Rightarrow> message" where
  "put_wait statloc m = m\<lparr>w0 := set_lo statloc (w0 m)\<rparr>"

definition get_wait :: "message \<Rightarrow> cint" where
  "get_wait m = lo (w0 m)"

definition put_brk :: "u64 \<Rightarrow> message \<Rightarrow> message" where
  "put_brk addr m = m\<lparr>w0 := addr\<rparr>"

definition get_brk :: "message \<Rightarrow> u64" where
  "get_brk m = w0 m"

definition put_getcwd :: "u64 \<Rightarrow> u64 \<Rightarrow> message \<Rightarrow> message" where
  "put_getcwd buf sz m = m\<lparr>w0 := buf, w1 := sz\<rparr>"

definition get_getcwd :: "message \<Rightarrow> u64 \<times> u64" where
  "get_getcwd m = (w0 m, w1 m)"

definition put_chdir :: "u64 \<Rightarrow> message \<Rightarrow> message" where
  "put_chdir pathname m = m\<lparr>w0 := pathname\<rparr>"

definition get_chdir :: "message \<Rightarrow> u64" where
  "get_chdir m = w0 m"

definition put_stat :: "u64 \<Rightarrow> u64 \<Rightarrow> message \<Rightarrow> message" where
  "put_stat pathname buf m = m\<lparr>w0 := pathname, w1 := buf\<rparr>"

definition get_stat :: "message \<Rightarrow> u64 \<times> u64" where
  "get_stat m = (w0 m, w1 m)"

definition put_getdents :: "cint \<Rightarrow> u64 \<Rightarrow> u64 \<Rightarrow> message \<Rightarrow> message" where
  "put_getdents fd dirp count m = m\<lparr>w0 := set_lo fd (w0 m), w1 := dirp, w2 := count\<rparr>"

definition get_getdents :: "message \<Rightarrow> cint \<times> u64 \<times> u64" where
  "get_getdents m = (lo (w0 m), w1 m, w2 m)"

definition put_mkdir :: "u64 \<Rightarrow> u32 \<Rightarrow> message \<Rightarrow> message" where
  "put_mkdir name mode m = m\<lparr>w0 := name, w1 := set_lo mode (w1 m)\<rparr>"

definition get_mkdir :: "message \<Rightarrow> u64 \<times> u32" where
  "get_mkdir m = (w0 m, lo (w1 m))"

section \<open>Requests of servers and to the kernel\<close>

definition put_bdev_transfer :: "u64 \<Rightarrow> u64 \<Rightarrow> u64 \<Rightarrow> cint \<Rightarrow> message \<Rightarrow> message" where
  "put_bdev_transfer pos buffer sz write m = m\<lparr>w0 := pos, w1 := buffer, w2 := sz, w3 := set_lo write (w3 m)\<rparr>"

definition get_bdev_transfer :: "message \<Rightarrow> u64 \<times> u64 \<times> u64 \<times> cint" where
  "get_bdev_transfer m = (w0 m, w1 m, w2 m, lo (w3 m))"

definition put_bdev_part :: "cint \<Rightarrow> u64 \<Rightarrow> u64 \<Rightarrow> u64 \<Rightarrow> message \<Rightarrow> message" where
  "put_bdev_part part pos buffer sz m = m\<lparr>w0 := set_lo part (w0 m), w1 := pos, w2 := buffer, w3 := sz\<rparr>"

definition get_bdev_part :: "message \<Rightarrow> cint \<times> u64 \<times> u64 \<times> u64" where
  "get_bdev_part m = (lo (w0 m), w1 m, w2 m, w3 m)"

definition put_irq :: "u32 \<Rightarrow> cint \<Rightarrow> message \<Rightarrow> message" where
  "put_irq type irq_no m = m\<lparr>w0 := set_hi irq_no (set_lo type (w0 m))\<rparr>"

definition get_irq :: "message \<Rightarrow> u32 \<times> cint" where
  "get_irq m = (lo (w0 m), hi (w0 m))"

definition put_intr :: "u32 \<Rightarrow> message \<Rightarrow> message" where
  "put_intr type m = m\<lparr>w0 := set_lo type (w0 m)\<rparr>"

definition get_intr :: "message \<Rightarrow> u32" where
  "get_intr m = lo (w0 m)"

definition put_fs_mnt :: "cint \<Rightarrow> u64 \<Rightarrow> message \<Rightarrow> message" where
  "put_fs_mnt part dentry m = m\<lparr>w0 := set_lo part (w0 m), w1 := dentry\<rparr>"

definition get_fs_mnt :: "message \<Rightarrow> cint \<times> u64" where
  "get_fs_mnt m = (lo (w0 m), w1 m)"

definition put_fs_read :: "u64 \<Rightarrow> u64 \<Rightarrow> u64 \<Rightarrow> u64 \<Rightarrow> u64 \<Rightarrow> message \<Rightarrow> message" where
  "put_fs_read inode fsize offset buf sz m = m\<lparr>w0 := inode, w1 := fsize, w2 := offset, w3 := buf, w4 := sz\<rparr>"

definition get_fs_read :: "message \<Rightarrow> u64 \<times> u64 \<times> u64 \<times> u64 \<times> u64" where
  "get_fs_read m = (w0 m, w1 m, w2 m, w3 m, w4 m)"

definition put_fs_write :: "u64 \<Rightarrow> u64 \<Rightarrow> u64 \<Rightarrow> u64 \<Rightarrow> u64 \<Rightarrow> message \<Rightarrow> message" where
  "put_fs_write inode fsize offset buf sz m = m\<lparr>w0 := inode, w1 := fsize, w2 := offset, w3 := buf, w4 := sz\<rparr>"

definition get_fs_write :: "message \<Rightarrow> u64 \<times> u64 \<times> u64 \<times> u64 \<times> u64" where
  "get_fs_write m = (w0 m, w1 m, w2 m, w3 m, w4 m)"

definition put_fs_lookup :: "u64 \<Rightarrow> u64 \<Rightarrow> u64 \<Rightarrow> message \<Rightarrow> message" where
  "put_fs_lookup pino filename dentry m = m\<lparr>w0 := pino, w1 := filename, w2 := dentry\<rparr>"

definition get_fs_lookup :: "message \<Rightarrow> u64 \<times> u64 \<times> u64" where
  "get_fs_lookup m = (w0 m, w1 m, w2 m)"

definition put_fs_stat :: "u64 \<Rightarrow> u64 \<Rightarrow> message \<Rightarrow> message" where
  "put_fs_stat inode buf m = m\<lparr>w0 := inode, w1 := buf\<rparr>"

definition get_fs_stat :: "message \<Rightarrow> u64 \<times> u64" where
  "get_fs_stat m = (w0 m, w1 m)"

definition put_fs_getdents :: "u64 \<Rightarrow> u64 \<Rightarrow> u64 \<Rightarrow> u64 \<Rightarrow> message \<Rightarrow> message" where
  "put_fs_getdents inode nbytes offset buf m = m\<lparr>w0 := inode, w1 := nbytes, w2 := offset, w3 := buf\<rparr>"

definition get_fs_getdents :: "message \<Rightarrow> u64 \<times> u64 \<times> u64 \<times> u64" where
  "get_fs_getdents m = (w0 m, w1 m, w2 m, w3 m)"

definition put_fs_mkdir :: "u64 \<Rightarrow> u64 \<Rightarrow> u32 \<Rightarrow> message \<Rightarrow> message" where
  "put_fs_mkdir ino name mode m = m\<lparr>w0 := ino, w1 := name, w2 := set_lo mode (w2 m)\<rparr>"

definition get_fs_mkdir :: "message \<Rightarrow> u64 \<times> u64 \<times> u32" where
  "get_fs_mkdir m = (w0 m, w1 m, lo (w2 m))"

definition put_forkfs :: "cint \<Rightarrow> message \<Rightarrow> message" where
  "put_forkfs pid m = m\<lparr>w0 := set_lo pid (w0 m)\<rparr>"

definition get_forkfs :: "message \<Rightarrow> cint" where
  "get_forkfs m = lo (w0 m)"

definition put_kmap :: "u64 \<Rightarrow> u64 \<Rightarrow> u64 \<Rightarrow> message \<Rightarrow> message" where
  "put_kmap addr1 addr2 addr3 m = m\<lparr>w0 := addr1, w1 := addr2, w2 := addr3\<rparr>"

definition get_kmap :: "message \<Rightarrow> u64 \<times> u64 \<times> u64" where
  "get_kmap m = (w0 m, w1 m, w2 m)"

lemmas put_defs = put_read_def put_write_def put_open_def put_close_def put_lseek_def put_execve_def put_exit_def
  put_wait_def put_brk_def put_getcwd_def put_chdir_def put_stat_def put_getdents_def put_mkdir_def
  put_bdev_transfer_def put_bdev_part_def put_irq_def put_intr_def put_fs_mnt_def put_fs_read_def put_fs_write_def
  put_fs_lookup_def put_fs_stat_def put_fs_getdents_def put_fs_mkdir_def put_forkfs_def put_kmap_def

lemmas get_defs = get_read_def get_open_def get_close_def get_lseek_def get_execve_def get_exit_def
  get_wait_def get_brk_def get_getcwd_def get_chdir_def get_stat_def get_getdents_def get_mkdir_def
  get_bdev_transfer_def get_bdev_part_def get_irq_def get_intr_def get_fs_mnt_def get_fs_read_def get_fs_write_def
  get_fs_lookup_def get_fs_stat_def get_fs_getdents_def get_fs_mkdir_def get_forkfs_def get_kmap_def

text \<open>Storing a structure leaves the sender and the type of the message alone.\<close>

lemma put_header [simp]:
  "mtype (put_read a b c m) = mtype m" "mtype (put_write a b c m) = mtype m" "mtype (put_open b a d m) = mtype m"
  "mtype (put_close a m) = mtype m" "mtype (put_lseek a b a' m) = mtype m"
  "msrc (put_read a b c m) = msrc m" "msrc (put_write a b c m) = msrc m" "msrc (put_open b a d m) = msrc m"
  "msrc (put_close a m) = msrc m" "msrc (put_lseek a b a' m) = msrc m"
  by (simp_all add: put_defs)

lemma get_put [simp]:
  "get_read (put_read fd buf sz m) = (fd, buf, sz)" "get_read (put_write fd buf sz m) = (fd, buf, sz)"
  "get_open (put_open filepath oflag (Some mode) m) = (filepath, oflag, mode)"
  "get_open (put_open filepath oflag None m) = (filepath, oflag, hi (w1 m))"
  "get_close (put_close fd m) = fd" "get_lseek (put_lseek fd offset whence m) = (fd, offset, whence)"
  "get_execve (put_execve pathname argv envp m) = (pathname, argv, envp)" "get_exit (put_exit status m) = status"
  "get_wait (put_wait status m) = status" "get_brk (put_brk addr m) = addr" "get_getcwd (put_getcwd buf sz m) = (buf, sz)"
  "get_chdir (put_chdir pathname m) = pathname" "get_stat (put_stat pathname buf m) = (pathname, buf)"
  "get_getdents (put_getdents fd buf sz m) = (fd, buf, sz)" "get_mkdir (put_mkdir name mode m) = (name, mode)"
  "get_bdev_transfer (put_bdev_transfer pos buf sz wr m) = (pos, buf, sz, wr)"
  "get_bdev_part (put_bdev_part part pos buf sz m) = (part, pos, buf, sz)"
  "get_irq (put_irq type no m) = (type, no)" "get_intr (put_intr type m) = type"
  "get_fs_mnt (put_fs_mnt part buf m) = (part, buf)"
  "get_fs_read (put_fs_read ino fsize offset buf sz m) = (ino, fsize, offset, buf, sz)"
  "get_fs_write (put_fs_write ino fsize offset buf sz m) = (ino, fsize, offset, buf, sz)"
  "get_fs_lookup (put_fs_lookup ino name buf m) = (ino, name, buf)" "get_fs_stat (put_fs_stat ino buf m) = (ino, buf)"
  "get_fs_getdents (put_fs_getdents ino sz offset buf m) = (ino, sz, offset, buf)"
  "get_fs_mkdir (put_fs_mkdir ino name mode m) = (ino, name, mode)" "get_forkfs (put_forkfs fd m) = fd"
  "get_kmap (put_kmap addr1 addr2 addr3 m) = (addr1, addr2, addr3)"
  by (simp_all add: put_defs get_defs)

end
