(* ===== verification/Proc.thy ===== *)
theory Proc
  imports HashMap CList Msg
begin

text \<open>
  Processes and the scheduler of \<open>src/src/core/sched.c\<close>.  A process is named by the address of its
  descriptor; the rings of descriptors (\<open>proc_head\<close>, the buckets of the process table, the queue
  of waiting senders, the children) are lists of these addresses.  One processor is modelled.  A
  process that gives up the processor inside the kernel continues there when it is switched to
  again; the field \<open>kont\<close> says where.  Address-space fields of a descriptor are in \<open>Fork\<close>.
\<close>

section \<open>Data\<close>

type_synonym pptr = u64

text \<open>The bits of \<open>state\<close> are only ever assigned and compared as a whole.\<close>

datatype proc_state = PROC_RUNNABLE | PROC_RUNNING | PROC_SENDING | PROC_RECEIVING | PROC_STOPPED

definition NEED_SCHEDULE :: u64 where "NEED_SCHEDULE = 2"

definition PF_IDLE :: u64 where "PF_IDLE = 4"

definition HZ :: u64 where "HZ = 100"

datatype kont = User | KSend | KSendRecv int | KRecvAll | KRecvIntr | KRecvFrom pptr | KWait

record proc =
  state :: proc_state
  pflags :: u64
  pid :: int
  counter :: u64
  alarm :: u64
  signal :: int
  exit_status :: int
  parent :: pptr
  children :: "pptr list"
  wait :: int
  wait_proc :: "pptr list"
  has_intr :: bool
  msg :: message
  buf :: message
  kont :: kont

record ksys =
  procs :: "pptr \<Rightarrow> proc"
  proc_head :: "pptr list"
  proc_hash_map :: "pptr buckets"
  current :: pptr
  idle :: pptr
  ticks :: u64

definition upd :: "pptr \<Rightarrow> (proc \<Rightarrow> proc) \<Rightarrow> ksys \<Rightarrow> ksys" where
  "upd p f s = s\<lparr>procs := (procs s)(p := f (procs s p))\<rparr>"

lemma upd_sel [simp]:
  "procs (upd p f s) = (procs s)(p := f (procs s p))" "proc_head (upd p f s) = proc_head s"
  "proc_hash_map (upd p f s) = proc_hash_map s" "current (upd p f s) = current s"
  "idle (upd p f s) = idle s" "ticks (upd p f s) = ticks s"
  by (simp_all add: upd_def)

section \<open>The process table\<close>

definition PROC_HASH_MAP_SIZE :: int where "PROC_HASH_MAP_SIZE = 256"

definition proc_bucket :: "int \<Rightarrow> nat" where
  "proc_bucket pid' = nat (pid' mod PROC_HASH_MAP_SIZE)"

text \<open>
  A negative pid makes the C code index in front of the table.  Its callers dereference what they
  read there, as they dereference the null pointer of an unknown pid: both are \<open>None\<close>.
\<close>

definition map_proc :: "int \<Rightarrow> ksys \<Rightarrow> pptr option" where
  "map_proc pid' s =
     (if pid' < 0 then None
      else bucket_find (\<lambda>p. pid (procs s p)) pid' (proc_hash_map s (proc_bucket pid')))"

definition hash_proc :: "pptr \<Rightarrow> ksys \<Rightarrow> ksys" where
  "hash_proc p s =
     (let i = proc_bucket (pid (procs s p))
      in s\<lparr>proc_hash_map := (proc_hash_map s)(i := proc_hash_map s i @ [p])\<rparr>)"

definition unmap_proc :: "int \<Rightarrow> ksys \<Rightarrow> ksys" where
  "unmap_proc pid' s =
     (case map_proc pid' s of
        None \<Rightarrow> s
      | Some p \<Rightarrow>
          let i = proc_bucket pid'
          in s\<lparr>proc_hash_map := (proc_hash_map s)(i := remove1 p (proc_hash_map s i))\<rparr>)"

section \<open>Time\<close>

definition ticks_plus :: "ksys \<Rightarrow> ksys" where
  "ticks_plus s = s\<lparr>ticks := ticks s + 1\<rparr>"

definition tick_alarm :: "proc \<Rightarrow> proc" where
  "tick_alarm p =
     (if alarm p = 0 then p
      else let p = p\<lparr>alarm := alarm p - 1\<rparr>
        in if alarm p = 0 then p\<lparr>state := PROC_RUNNING\<rparr> else p)"

definition update_alarm :: "ksys \<Rightarrow> ksys" where
  "update_alarm s = fold (\<lambda>p. upd p tick_alarm) (proc_head s) s"

text \<open>\<open>do_timer\<close> of \<open>src/src/boot/irq.c\<close>, once \<open>boot_finished\<close> is set.\<close>

definition do_timer :: "ksys \<Rightarrow> ksys" where
  "do_timer s =
     (let s = update_alarm (ticks_plus s)
      in upd (current s) (\<lambda>p. p\<lparr>pflags := pflags p OR NEED_SCHEDULE\<rparr>) s)"

section \<open>The scheduler\<close>

definition sched_prev :: "ksys \<Rightarrow> ksys" where
  "sched_prev s =
     (let prev = current s;
          s = upd prev (\<lambda>p. p\<lparr>pflags := pflags p AND NOT NEED_SCHEDULE\<rparr>) s;
          s = (if state (procs s prev) = PROC_RUNNING
               then upd prev (\<lambda>p. p\<lparr>state := PROC_RUNNABLE\<rparr>) s else s)
      in if pflags (procs s prev) AND PF_IDLE = 0
         then s\<lparr>proc_head := remove1 prev (proc_head s) @ [prev]\<rparr> else s)"

definition find_runnable :: "ksys \<Rightarrow> pptr option" where
  "find_runnable s = List.find (\<lambda>p. state (procs s p) = PROC_RUNNABLE) (proc_head s)"

text \<open>\<open>switch_to\<close> makes \<open>next\<close> the current process.\<close>

definition schedule :: "ksys \<Rightarrow> ksys" where
  "schedule s =
     (let s = sched_prev s;
          (next, s) = (case find_runnable s of
              Some p \<Rightarrow> (p, upd p (\<lambda>p. p\<lparr>state := PROC_RUNNING\<rparr>) s)
            | None \<Rightarrow> (idle s, s));
          s = upd next (\<lambda>p. p\<lparr>counter := 1\<rparr>) s
      in s\<lparr>current := next\<rparr>)"

text \<open>The two calls that put a process to sleep; no system call reaches them.\<close>

definition sys_sleep :: "u64 \<Rightarrow> u64 \<Rightarrow> ksys \<Rightarrow> int \<times> ksys" where
  "sys_sleep type t s =
     (if type = 0 \<or> type = 1 then
        let s = upd (current s) (\<lambda>p. p\<lparr>alarm := if type = 0 then t * HZ else t div (1000 div HZ)\<rparr>) s;
            s = upd (current s) (\<lambda>p. p\<lparr>state := PROC_SENDING\<rparr>) s
        in (0, schedule s)
      else (-1, s))"

definition sys_pause :: "ksys \<Rightarrow> int \<times> ksys" where
  "sys_pause s = (0, schedule (upd (current s) (\<lambda>p. p\<lparr>state := PROC_SENDING\<rparr>) s))"

section \<open>The process table is a map from pids to processes\<close>

definition hash_ok :: "ksys \<Rightarrow> bool" where
  "hash_ok s \<longleftrightarrow> buckets_ok (\<lambda>p. pid (procs s p)) proc_bucket (proc_hash_map s) \<and>
     (\<forall>i. \<forall>p \<in> set (proc_hash_map s i). 0 \<le> pid (procs s p))"

text \<open>
  Registering process \<open>p\<close> under \<open>pid'\<close>: the descriptor gets the pid first, as \<open>do_fork\<close> and
  \<open>proc_init\<close> do.  \<open>p\<close> is a descriptor that is not in the table.
\<close>

lemma map_proc_hash_proc:
  assumes "hash_ok s" "map_proc (pid (procs s p)) s = None" "0 \<le> pid (procs s p)"
  shows "map_proc j (hash_proc p s) = (if j = pid (procs s p) then Some p else map_proc j s)"
    "hash_ok (hash_proc p s)"
proof -
  let ?key = "\<lambda>p. pid (procs s p)" and ?i = "proc_bucket (pid (procs s p))"
  have new: "bucket_find ?key (?key p) (proc_hash_map s ?i) = None" using assms(2,3) by (simp add: map_proc_def)
  show "map_proc j (hash_proc p s) = (if j = pid (procs s p) then Some p else map_proc j s)"
    using new assms(3)
    by (auto simp: map_proc_def hash_proc_def Let_def bucket_find_append split: option.splits)
  show "hash_ok (hash_proc p s)"
    using assms(1,3) buckets_ok_add [of ?key proc_bucket "proc_hash_map s" p, OF _ new]
    by (auto simp: hash_ok_def hash_proc_def Let_def)
qed

lemma map_proc_unmap_proc:
  assumes "hash_ok s"
  shows "map_proc j (unmap_proc k s) = (if j = k then None else map_proc j s)" "hash_ok (unmap_proc k s)"
proof -
  let ?key = "\<lambda>p. pid (procs s p)"
  have *: "map_proc j (unmap_proc k s) = (if j = k then None else map_proc j s) \<and> hash_ok (unmap_proc k s)"
  proof (cases "map_proc k s")
    case None
    then show ?thesis using assms by (simp add: unmap_proc_def)
  next
    case (Some p)
    then have p: "p \<in> set (proc_hash_map s (proc_bucket k))" "?key p = k" "0 \<le> k"
      by (auto simp: map_proc_def split: if_splits dest: bucket_find_Some)
    have "distinct (map ?key (proc_hash_map s (proc_bucket k)))" using assms by (simp add: hash_ok_def buckets_ok_def)
    note rm = bucket_find_remove [OF this p(1)]
    have eq: "unmap_proc k s = s\<lparr>proc_hash_map := (proc_hash_map s)
        (proc_bucket k := remove1 p (proc_hash_map s (proc_bucket k)))\<rparr>"
      by (simp add: unmap_proc_def Some Let_def)
    have "hash_ok (unmap_proc k s)"
      using assms buckets_ok_remove set_remove1_subset [of p "proc_hash_map s (proc_bucket k)"]
      unfolding eq by (auto simp: hash_ok_def)
    then show ?thesis
      using rm p(2) unfolding eq by (auto simp: map_proc_def)
  qed
  show "map_proc j (unmap_proc k s) = (if j = k then None else map_proc j s)" "hash_ok (unmap_proc k s)"
    using * by simp_all
qed

definition register :: "int \<Rightarrow> pptr \<Rightarrow> ksys \<Rightarrow> ksys" where
  "register k p s = hash_proc p (upd p (\<lambda>q. q\<lparr>pid := k\<rparr>) s)"

definition unregistered :: "ksys \<Rightarrow> int \<Rightarrow> pptr \<Rightarrow> bool" where
  "unregistered s k p \<longleftrightarrow> 0 \<le> k \<and> (\<forall>i. p \<notin> set (proc_hash_map s i))"

lemma register_map:
  assumes "hash_ok s" "map_proc k s = None" "unregistered s k p"
  shows "map_proc j (register k p s) = (if j = k then Some p else map_proc j s)" "hash_ok (register k p s)"
proof -
  let ?s = "upd p (\<lambda>q. q\<lparr>pid := k\<rparr>) s"
  have key: "pid (procs ?s q) = pid (procs s q)" if "q \<in> set (proc_hash_map s i)" for q i
    using that assms(3) by (auto simp: unregistered_def)
  have map: "map_proc j ?s = map_proc j s" for j
    using buckets_cong(2) [of "proc_hash_map s" "\<lambda>q. pid (procs ?s q)"] key by (simp add: map_proc_def)
  have ok: "hash_ok ?s"
    using assms(1,3) buckets_cong(1) [of "proc_hash_map s" "\<lambda>q. pid (procs ?s q)"] key
    by (auto simp: hash_ok_def unregistered_def)
  have "pid (procs ?s p) = k" "0 \<le> k" using assms(3) by (simp_all add: unregistered_def)
  with map_proc_hash_proc [OF ok] map assms(2)
  show "map_proc j (register k p s) = (if j = k then Some p else map_proc j s)" "hash_ok (register k p s)"
    by (simp_all add: register_def)
qed

interpretation proc_table: registry hash_ok "\<lambda>s k. map_proc k s" unregistered register unmap_proc
  by unfold_locales (simp_all add: register_map map_proc_unmap_proc)

end
