(* ===== verification/Ipc.thy ===== *)
theory Ipc
  imports Proc
begin

text \<open>
  Message passing between processes, \<open>src/src/core/ipc.c\<close>, and its system calls and interrupt
  entry.  A call that blocks records in \<open>kont\<close> where it continues and calls \<open>schedule\<close>; \<open>resume\<close>
  is what the process that was switched to does next.  \<open>kstep\<close> are the steps of the machine: a
  system call of the current process, the rest of a call that had blocked, a timer tick, a device
  interrupt.  A null pointer that the code dereferences is \<open>None\<close>.
\<close>

section \<open>Sending\<close>

definition send_intr :: "pptr \<Rightarrow> ksys \<Rightarrow> ksys" where
  "send_intr dest s =
     (let s = upd dest (\<lambda>p. p\<lparr>has_intr := True\<rparr>) s
      in if state (procs s dest) = PROC_RECEIVING \<and>
            (wait (procs s dest) = IPC_INTR \<or> wait (procs s dest) = IPC_ALL)
         then upd dest (\<lambda>p. p\<lparr>state := PROC_RUNNABLE\<rparr>) s else s)"

text \<open>\<open>k\<close> is where the sender continues once its message has been taken.\<close>

definition do_send :: "kont \<Rightarrow> int \<Rightarrow> message \<Rightarrow> ksys \<Rightarrow> ksys option" where
  "do_send k to m s =
     Option.bind (map_proc to s) (\<lambda>dest.
       if msrc m = IPC_INTR then Some (send_intr dest s)
       else
         let cur = current s;
             s = upd cur (\<lambda>p. p\<lparr>msg := m, wait := to, state := PROC_SENDING, kont := k\<rparr>) s;
             s = upd dest (\<lambda>p. p\<lparr>wait_proc := wait_proc p @ [cur]\<rparr>) s;
             s = (if state (procs s dest) = PROC_RECEIVING \<and>
                     (wait (procs s dest) = pid (procs s cur) \<or> wait (procs s dest) = IPC_ALL)
                  then upd dest (\<lambda>p. p\<lparr>state := PROC_RUNNABLE\<rparr>) s else s)
         in Some (schedule s))"

section \<open>Receiving\<close>

text \<open>\<open>return k\<close>: the current process leaves the kernel.\<close>

definition leave :: "ksys \<Rightarrow> ksys" where
  "leave s = upd (current s) (\<lambda>p. p\<lparr>kont := User\<rparr>) s"

definition block_recv :: "int \<Rightarrow> kont \<Rightarrow> ksys \<Rightarrow> ksys" where
  "block_recv w k s = schedule (upd (current s) (\<lambda>p. p\<lparr>wait := w, state := PROC_RECEIVING, kont := k\<rparr>) s)"

definition intr_message :: "message \<Rightarrow> message" where
  "intr_message m = put_intr INTR_OK (m\<lparr>mtype := MSG_INTR\<rparr>)"

definition take_intr :: "ksys \<Rightarrow> ksys" where
  "take_intr s = leave (upd (current s) (\<lambda>p. p\<lparr>buf := intr_message (buf p), has_intr := False\<rparr>) s)"

text \<open>\<open>list_del (&source->wait_list)\<close> takes the sender off the queue it is on.\<close>

definition unlink_wait :: "pptr \<Rightarrow> ksys \<Rightarrow> ksys" where
  "unlink_wait source s =
     s\<lparr>procs := (\<lambda>p. (procs s p)\<lparr>wait_proc := remove1 source (wait_proc (procs s p))\<rparr>)\<rparr>"

text \<open>Taking the message of a sender and letting the sender go on.\<close>

definition take_msg :: "pptr \<Rightarrow> ksys \<Rightarrow> ksys" where
  "take_msg source s =
     (let cur = current s;
          s = unlink_wait source s;
          s = upd cur (\<lambda>p. p\<lparr>buf := msg (procs s source), wait := IPC_NOWAIT\<rparr>) s;
          s = upd source (\<lambda>p. p\<lparr>state := PROC_RUNNABLE\<rparr>) s
      in leave s)"

definition recv_all :: "ksys \<Rightarrow> ksys" where
  "recv_all s =
     (let p = procs s (current s)
      in if has_intr p then take_intr s
         else case wait_proc p of
           source # _ \<Rightarrow> take_msg source s
         | [] \<Rightarrow> block_recv IPC_ALL KRecvAll s)"

definition do_recv :: "int \<Rightarrow> ksys \<Rightarrow> ksys option" where
  "do_recv from s =
     (let p = procs s (current s)
      in if from = IPC_ALL then Some (recv_all s)
         else if from = IPC_INTR then
           Some (if has_intr p then take_intr s else block_recv IPC_INTR KRecvIntr s)
         else
           Option.bind (map_proc from s) (\<lambda>source.
             Some (if state (procs s source) = PROC_SENDING \<and> wait (procs s source) = pid p
                   then take_msg source s
                   else block_recv from (KRecvFrom source) s)))"

definition do_sendrecv :: "int \<Rightarrow> message \<Rightarrow> ksys \<Rightarrow> ksys option" where
  "do_sendrecv to m s = do_send (KSendRecv to) to m s"

text \<open>What the process that was just switched to does with the rest of its call.\<close>

definition resume :: "ksys \<Rightarrow> ksys option" where
  "resume s =
     (case kont (procs s (current s)) of
        User \<Rightarrow> Some s
      | KSend \<Rightarrow> Some (leave s)
      | KSendRecv to \<Rightarrow> do_recv to s
      | KRecvAll \<Rightarrow> Some (recv_all s)
      | KRecvIntr \<Rightarrow> Some (take_intr s)
      | KRecvFrom source \<Rightarrow> Some (take_msg source s)
      | KWait \<Rightarrow> Some (leave s))"

definition send_signal :: "pptr \<Rightarrow> int \<Rightarrow> ksys \<Rightarrow> ksys" where
  "send_signal p sig s =
     (let s = upd p (\<lambda>q. q\<lparr>signal := sig\<rparr>) s
      in if state (procs s p) = PROC_RECEIVING \<and> wait (procs s p) = IPC_SIGNAL
         then upd p (\<lambda>q. q\<lparr>state := PROC_RUNNABLE\<rparr>) s else s)"

section \<open>System calls and interrupts\<close>

text \<open>\<open>pre_syscall\<close> overwrites the sender of the caller's message.\<close>

definition pre_syscall :: "message \<Rightarrow> ksys \<Rightarrow> message" where
  "pre_syscall m s = m\<lparr>msrc := pid (procs s (current s))\<rparr>"

definition sys_send :: "int \<Rightarrow> message \<Rightarrow> ksys \<Rightarrow> ksys option" where
  "sys_send to m s = do_send KSend to (pre_syscall m s) s"

definition sys_recv :: "int \<Rightarrow> message \<Rightarrow> ksys \<Rightarrow> ksys option" where
  "sys_recv from m s = do_recv from (upd (current s) (\<lambda>p. p\<lparr>buf := pre_syscall m s\<rparr>) s)"

text \<open>The requests to the kernel itself are in \<open>Fork\<close>; this is the case of another process.\<close>

definition sys_sendrecv :: "int \<Rightarrow> message \<Rightarrow> ksys \<Rightarrow> ksys option" where
  "sys_sendrecv who m s =
     do_sendrecv who (pre_syscall m s) (upd (current s) (\<lambda>p. p\<lparr>buf := pre_syscall m s\<rparr>) s)"

definition do_hwint :: "(nat \<Rightarrow> int) \<Rightarrow> nat \<Rightarrow> ksys \<Rightarrow> ksys option" where
  "do_hwint hw_proc nr s =
     (let ind = nr - 0x20
      in if hw_proc ind = 0 then Some s
         else do_send User (hw_proc ind) (put_intr INTR_OK (zero_message\<lparr>msrc := IPC_INTR, mtype := MSG_INTR\<rparr>)) s)"

text \<open>\<open>ret_from_int\<close>: an interrupt that left \<open>NEED_SCHEDULE\<close> on the process it interrupted.\<close>

definition ret_from_int :: "ksys \<Rightarrow> ksys" where
  "ret_from_int s = (if pflags (procs s (current s)) AND NEED_SCHEDULE \<noteq> 0 then schedule s else s)"

inductive kstep :: "ksys \<Rightarrow> ksys \<Rightarrow> bool" where
  send: "kont (procs s (current s)) = User \<Longrightarrow> current s \<noteq> idle s \<Longrightarrow> sys_send to m s = Some s' \<Longrightarrow> kstep s s'"
| recv: "kont (procs s (current s)) = User \<Longrightarrow> current s \<noteq> idle s \<Longrightarrow> sys_recv from m s = Some s' \<Longrightarrow> kstep s s'"
| sendrecv: "kont (procs s (current s)) = User \<Longrightarrow> current s \<noteq> idle s \<Longrightarrow>
    sys_sendrecv to m s = Some s' \<Longrightarrow> kstep s s'"
| resume: "kont (procs s (current s)) \<noteq> User \<Longrightarrow> resume s = Some s' \<Longrightarrow> kstep s s'"
| timer: "kont (procs s (current s)) = User \<Longrightarrow> kstep s (ret_from_int (do_timer s))"
| hwint: "kont (procs s (current s)) = User \<Longrightarrow> do_hwint hw_proc nr s = Some s' \<Longrightarrow>
    kstep s (ret_from_int s')"

inductive reachable :: "ksys \<Rightarrow> ksys \<Rightarrow> bool" for s0 where
  init: "reachable s0 s0"
| step: "reachable s0 s \<Longrightarrow> kstep s s' \<Longrightarrow> reachable s0 s'"

section \<open>The invariant\<close>

definition ready :: "proc \<Rightarrow> bool" where
  "ready p \<longleftrightarrow> state p = PROC_RUNNABLE \<or> state p = PROC_RUNNING"

text \<open>
  A queue holds distinct blocked senders; a blocked sender is on the queue of the process it
  names; a blocked receiver has nothing to receive; a process that was woken has.
\<close>

definition queue_ok :: "pptr set \<Rightarrow> (pptr \<Rightarrow> proc) \<Rightarrow> pptr \<Rightarrow> bool" where
  "queue_ok H f d \<longleftrightarrow> distinct (wait_proc (f d)) \<and>
     (\<forall>p \<in> set (wait_proc (f d)). p \<in> H \<and> state (f p) = PROC_SENDING \<and> wait (f p) = pid (f d))"

definition sender_ok :: "pptr set \<Rightarrow> (pptr \<Rightarrow> proc) \<Rightarrow> pptr \<Rightarrow> bool" where
  "sender_ok H f p \<longleftrightarrow> (state (f p) = PROC_SENDING \<longrightarrow>
     (\<exists>d \<in> H. wait (f p) = pid (f d) \<and> p \<in> set (wait_proc (f d)) \<and>
        (kont (f p) = KSend \<or> kont (f p) = KSendRecv (pid (f d)))))"

definition receiver_ok :: "pptr set \<Rightarrow> (pptr \<Rightarrow> proc) \<Rightarrow> pptr \<Rightarrow> bool" where
  "receiver_ok H f p \<longleftrightarrow> (state (f p) = PROC_RECEIVING \<longrightarrow>
     (case kont (f p) of
        KRecvAll \<Rightarrow> wait (f p) = IPC_ALL \<and> wait_proc (f p) = [] \<and> \<not> has_intr (f p)
      | KRecvIntr \<Rightarrow> wait (f p) = IPC_INTR \<and> \<not> has_intr (f p)
      | KRecvFrom q \<Rightarrow> q \<in> H \<and> wait (f p) = pid (f q) \<and> q \<notin> set (wait_proc (f p))
      | _ \<Rightarrow> False))"

definition woken_ok :: "pptr set \<Rightarrow> (pptr \<Rightarrow> proc) \<Rightarrow> pptr \<Rightarrow> bool" where
  "woken_ok H f p \<longleftrightarrow> (ready (f p) \<longrightarrow>
     (case kont (f p) of
        KRecvAll \<Rightarrow> has_intr (f p) \<or> wait_proc (f p) \<noteq> []
      | KRecvIntr \<Rightarrow> has_intr (f p)
      | KRecvFrom q \<Rightarrow> q \<in> set (wait_proc (f p))
      | KSendRecv to \<Rightarrow> (\<exists>d \<in> H. pid (f d) = to)
      | KWait \<Rightarrow> False
      | _ \<Rightarrow> True))"

definition pids_ok :: "pptr set \<Rightarrow> (pptr \<Rightarrow> proc) \<Rightarrow> bool" where
  "pids_ok H f \<longleftrightarrow> inj_on (\<lambda>p. pid (f p)) H \<and> (\<forall>p \<in> H. 0 < pid (f p) \<and> pid (f p) < IPC_SIGNAL)"

definition ipc_ok :: "pptr set \<Rightarrow> (pptr \<Rightarrow> proc) \<Rightarrow> bool" where
  "ipc_ok H f \<longleftrightarrow> pids_ok H f \<and> (\<forall>p \<in> H. queue_ok H f p \<and> sender_ok H f p \<and> receiver_ok H f p \<and>
     woken_ok H f p \<and> state (f p) \<noteq> PROC_STOPPED)"

lemmas ok_defs = queue_ok_def sender_ok_def receiver_ok_def woken_ok_def

text \<open>Fields the invariant does not look at, and the exchange of the two ready states.\<close>

definition alike :: "proc \<Rightarrow> proc \<Rightarrow> bool" where
  "alike p q \<longleftrightarrow> pid p = pid q \<and> wait p = wait q \<and> wait_proc p = wait_proc q \<and> has_intr p = has_intr q \<and>
     kont p = kont q \<and> (state p = state q \<or> ready p \<and> ready q)"

lemma alike_refl [simp]: "alike p p"
  by (simp add: alike_def)

lemma alike_trans: "alike p q \<Longrightarrow> alike q r \<Longrightarrow> alike p r"
  by (auto simp: alike_def ready_def)

lemma ipc_ok_alike:
  assumes "\<And>p. p \<in> H \<Longrightarrow> alike (f p) (g p)" "ipc_ok H f"
  shows "ipc_ok H g"
proof -
  have a: "pid (g p) = pid (f p)" "wait (g p) = wait (f p)" "wait_proc (g p) = wait_proc (f p)"
    "has_intr (g p) = has_intr (f p)" "kont (g p) = kont (f p)" "ready (g p) = ready (f p)"
    "(state (g p) = PROC_SENDING) = (state (f p) = PROC_SENDING)"
    "(state (g p) = PROC_RECEIVING) = (state (f p) = PROC_RECEIVING)"
    "(state (g p) = PROC_STOPPED) = (state (f p) = PROC_STOPPED)" if "p \<in> H" for p
    using assms(1) [OF that] by (auto simp: alike_def ready_def)
  have "pids_ok H g" using assms(2) a(1) by (auto simp: ipc_ok_def pids_ok_def inj_on_def)
  moreover have "queue_ok H g p" if "p \<in> H" for p
    using assms(2) that a unfolding ipc_ok_def queue_ok_def by metis
  moreover have "sender_ok H g p" if "p \<in> H" for p
    using assms(2) that a unfolding ipc_ok_def sender_ok_def by metis
  moreover have "receiver_ok H g p" if "p \<in> H" for p
  proof -
    have "receiver_ok H f p" using assms(2) that by (simp add: ipc_ok_def)
    then show ?thesis using a [OF that] a(1) by (cases "kont (f p)") (auto simp: receiver_ok_def)
  qed
  moreover have "woken_ok H g p" if "p \<in> H" for p
  proof -
    have "woken_ok H f p" using assms(2) that by (simp add: ipc_ok_def)
    then show ?thesis using a [OF that] a(1) by (cases "kont (f p)") (auto simp: woken_ok_def)
  qed
  ultimately show ?thesis using assms(2) a(9) by (auto simp: ipc_ok_def)
qed

lemma ipc_okD:
  assumes "ipc_ok H f" "p \<in> H"
  shows "queue_ok H f p" "sender_ok H f p" "receiver_ok H f p" "woken_ok H f p" "state (f p) \<noteq> PROC_STOPPED"
    "0 < pid (f p)" "pid (f p) < IPC_SIGNAL"
  using assms by (auto simp: ipc_ok_def pids_ok_def)

lemma pid_eq: "ipc_ok H f \<Longrightarrow> p \<in> H \<Longrightarrow> q \<in> H \<Longrightarrow> pid (f p) = pid (f q) \<longleftrightarrow> p = q"
  by (auto simp: ipc_ok_def pids_ok_def inj_on_def)

lemma ready_not_queued:
  assumes "ipc_ok H f" "ready (f p)" "d \<in> H" shows "p \<notin> set (wait_proc (f d))"
  using ipc_okD(1) [OF assms(1,3)] assms(2) by (auto simp: queue_ok_def ready_def)

text \<open>A blocked sender is on exactly one queue.\<close>

lemma queued_once:
  assumes "ipc_ok H f" "d \<in> H" "e \<in> H" "p \<in> set (wait_proc (f d))" "p \<in> set (wait_proc (f e))"
  shows "d = e"
  using ipc_okD(1) [OF assms(1,2)] ipc_okD(1) [OF assms(1,3)] assms(4,5) pid_eq [OF assms(1,2,3)]
  by (auto simp: queue_ok_def)

section \<open>Each change keeps the invariant\<close>

lemma ok_leave:
  assumes "ipc_ok H f" "p \<in> H" "ready (f p)"
  shows "ipc_ok H (f(p := (f p)\<lparr>kont := User\<rparr>))"
proof -
  let ?g = "f(p := (f p)\<lparr>kont := User\<rparr>)"
  have g: "pid (?g q) = pid (f q)" "wait (?g q) = wait (f q)" "wait_proc (?g q) = wait_proc (f q)"
    "has_intr (?g q) = has_intr (f q)" "state (?g q) = state (f q)" "ready (?g q) = ready (f q)" for q
    by (simp_all add: ready_def)
  have ns: "state (f p) \<noteq> PROC_SENDING" "state (f p) \<noteq> PROC_RECEIVING" using assms(3) by (auto simp: ready_def)
  have "queue_ok H ?g q \<and> sender_ok H ?g q \<and> receiver_ok H ?g q \<and> woken_ok H ?g q" if "q \<in> H" for q
    using ipc_okD [OF assms(1) that] ns unfolding ok_defs g by (cases "q = p") auto
  moreover have "pids_ok H ?g" using assms(1) unfolding ipc_ok_def pids_ok_def g by simp
  ultimately show ?thesis using assms(1) unfolding ipc_ok_def g by simp
qed

text \<open>The current process gets the message of \<open>q\<close>, which may go on.\<close>

lemma ok_take_msg:
  assumes ok: "ipc_ok H f" "p \<in> H" "ready (f p)" and q: "q \<in> set (wait_proc (f p))"
    and g: "\<And>x. pid (g x) = pid (f x)"
      "\<And>x. wait_proc (g x) = (if x = p then remove1 q (wait_proc (f x)) else wait_proc (f x))"
      "\<And>x. has_intr (g x) = has_intr (f x)" "\<And>x. x \<noteq> p \<Longrightarrow> wait (g x) = wait (f x)"
      "\<And>x. x \<noteq> q \<Longrightarrow> state (g x) = state (f x)" "state (g q) = PROC_RUNNABLE"
      "\<And>x. x \<noteq> p \<Longrightarrow> kont (g x) = kont (f x)" "kont (g p) = User"
  shows "ipc_ok H g"
proof -
  note qp = ipc_okD(1) [OF ok(1,2), unfolded queue_ok_def]
  have qH: "q \<in> H" "state (f q) = PROC_SENDING" "wait (f q) = pid (f p)" using qp q by auto
  have pq: "p \<noteq> q" using ok(3) qH(2) by (auto simp: ready_def)
  have ns: "state (f p) \<noteq> PROC_SENDING" "state (f p) \<noteq> PROC_RECEIVING" using ok(3) by (auto simp: ready_def)
  have once: "q \<notin> set (wait_proc (f x))" if "x \<in> H" "x \<noteq> p" for x
    using queued_once [OF ok(1) that(1) ok(2) _ q] that(2) by blast
  have rd: "ready (g x) = (ready (f x) \<or> x = q)" for x using g(5,6) by (cases "x = q") (auto simp: ready_def)
  have kq: "kont (f q) = KSend \<or> kont (f q) = KSendRecv (pid (f p))"
    using ipc_okD(2) [OF ok(1) qH(1)] qH(2,3) pid_eq [OF ok(1,2)] by (auto simp: sender_ok_def)
  have "queue_ok H g x \<and> sender_ok H g x \<and> receiver_ok H g x \<and> woken_ok H g x" if x: "x \<in> H" for x
  proof (intro conjI)
    note d = ipc_okD [OF ok(1) x]
    show "queue_ok H g x"
    proof (cases "x = p")
      case True
      then show ?thesis using qp g(1,2,4,5) ns(1) unfolding queue_ok_def
        by (auto dest: notin_set_remove1) (metis ns(1) set_remove1_eq Diff_iff singletonI)+
    next
      case False
      then show ?thesis using d(1) once [OF x False] g ns(1) unfolding queue_ok_def by (metis)
    qed
    show "sender_ok H g x"
      unfolding sender_ok_def
    proof
      assume s: "state (g x) = PROC_SENDING"
      then have xq: "x \<noteq> q" "state (f x) = PROC_SENDING" using g(5,6) by (auto, metis proc_state.distinct(3))
      then have xp: "x \<noteq> p" using ns(1) by blast
      obtain e where e: "e \<in> H" "wait (f x) = pid (f e)" "x \<in> set (wait_proc (f e))"
        "kont (f x) = KSend \<or> kont (f x) = KSendRecv (pid (f e))"
        using d(2) xq(2) by (auto simp: sender_ok_def)
      then show "\<exists>e \<in> H. wait (g x) = pid (g e) \<and> x \<in> set (wait_proc (g e)) \<and>
          (kont (g x) = KSend \<or> kont (g x) = KSendRecv (pid (g e)))"
        using g xp xq(1) by (intro bexI [of _ e]) auto
    qed
    show "receiver_ok H g x"
    proof (cases "x = p \<or> x = q")
      case True
      then show ?thesis using g(5,6) ns(2) pq by (auto simp: receiver_ok_def)
    next
      case False
      then show ?thesis using d(3) g by (cases "kont (f x)") (auto simp: receiver_ok_def)
    qed
    show "woken_ok H g x"
    proof (cases "x = p \<or> x = q")
      case True
      then show ?thesis using g(1,7,8) kq pq ok(2) by (auto simp: woken_ok_def)
    next
      case False
      then show ?thesis using d(4) g rd by (cases "kont (f x)") (auto simp: woken_ok_def)
    qed
  qed
  moreover have "pids_ok H g" using ok(1) unfolding ipc_ok_def pids_ok_def g(1) by simp
  moreover have "state (g x) \<noteq> PROC_STOPPED" if "x \<in> H" for x
    using ipc_okD(5) [OF ok(1) that] g(5,6) by (cases "x = q") auto
  ultimately show ?thesis by (simp add: ipc_ok_def)
qed

lemma ok_take_intr:
  assumes ok: "ipc_ok H f" "p \<in> H" "ready (f p)"
    and g: "\<And>x. pid (g x) = pid (f x)" "\<And>x. wait_proc (g x) = wait_proc (f x)" "\<And>x. wait (g x) = wait (f x)"
      "\<And>x. state (g x) = state (f x)" "\<And>x. x \<noteq> p \<Longrightarrow> has_intr (g x) = has_intr (f x)"
      "\<And>x. x \<noteq> p \<Longrightarrow> kont (g x) = kont (f x)" "kont (g p) = User"
  shows "ipc_ok H g"
proof -
  have ns: "state (f p) \<noteq> PROC_SENDING" "state (f p) \<noteq> PROC_RECEIVING" using ok(3) by (auto simp: ready_def)
  have rd: "ready (g x) = ready (f x)" for x using g(4) by (simp add: ready_def)
  have "queue_ok H g x \<and> sender_ok H g x \<and> receiver_ok H g x \<and> woken_ok H g x" if "x \<in> H" for x
  proof (cases "x = p")
    case True
    then show ?thesis
      using ipc_okD [OF ok(1) that] ns unfolding ok_defs g(1-4) rd by (auto simp: g(7))
  next
    case False
    then show ?thesis
      using ipc_okD [OF ok(1) that] unfolding ok_defs g(1-4) rd g(5) [OF False] g(6) [OF False] by blast
  qed
  moreover have "pids_ok H g" using ok(1) unfolding ipc_ok_def pids_ok_def g(1) by simp
  ultimately show ?thesis using ok(1) unfolding ipc_ok_def g(4) by simp
qed

lemma ok_block:
  assumes ok: "ipc_ok H f" "p \<in> H" "ready (f p)"
    and k: "(k = KRecvAll \<and> w = IPC_ALL \<and> wait_proc (f p) = [] \<and> \<not> has_intr (f p)) \<or>
      (k = KRecvIntr \<and> w = IPC_INTR \<and> \<not> has_intr (f p)) \<or>
      (\<exists>q \<in> H. k = KRecvFrom q \<and> w = pid (f q) \<and> q \<notin> set (wait_proc (f p)))"
  shows "ipc_ok H (f(p := (f p)\<lparr>wait := w, state := PROC_RECEIVING, kont := k\<rparr>))"
proof -
  let ?g = "f(p := (f p)\<lparr>wait := w, state := PROC_RECEIVING, kont := k\<rparr>)"
  have g: "pid (?g x) = pid (f x)" "wait_proc (?g x) = wait_proc (f x)" "has_intr (?g x) = has_intr (f x)" for x
    by simp_all
  have ns: "state (f p) \<noteq> PROC_SENDING" using ok(3) by (auto simp: ready_def)
  have "queue_ok H ?g x \<and> sender_ok H ?g x \<and> receiver_ok H ?g x \<and> woken_ok H ?g x" if x: "x \<in> H" for x
  proof (intro conjI)
    note d = ipc_okD [OF ok(1) x]
    have "p \<notin> set (wait_proc (f x))" by (rule ready_not_queued [OF ok(1,3) x])
    then show "queue_ok H ?g x" using d(1) unfolding queue_ok_def g by auto
    show "sender_ok H ?g x" using d(2) unfolding sender_ok_def g by auto
    show "receiver_ok H ?g x"
      using d(3) k unfolding receiver_ok_def g by (cases "x = p") (auto split: kont.splits)
    show "woken_ok H ?g x" using d(4) unfolding woken_ok_def g by (cases "x = p") (auto simp: ready_def)
  qed
  moreover have "pids_ok H ?g" using ok(1) unfolding ipc_ok_def pids_ok_def g(1) by simp
  ultimately show ?thesis using ok(1) unfolding ipc_ok_def by simp
qed

text \<open>The queue of \<open>d\<close> grows by \<open>p\<close>; a receiver that waits for \<open>p\<close> or for anybody is woken.\<close>

definition send_to :: "kont \<Rightarrow> message \<Rightarrow> pptr \<Rightarrow> pptr \<Rightarrow> (pptr \<Rightarrow> proc) \<Rightarrow> pptr \<Rightarrow> proc" where
  "send_to k m p d f =
     (let f = f(p := (f p)\<lparr>msg := m, wait := pid (f d), state := PROC_SENDING, kont := k\<rparr>);
          f = f(d := (f d)\<lparr>wait_proc := wait_proc (f d) @ [p]\<rparr>)
      in if state (f d) = PROC_RECEIVING \<and> (wait (f d) = pid (f p) \<or> wait (f d) = IPC_ALL)
         then f(d := (f d)\<lparr>state := PROC_RUNNABLE\<rparr>) else f)"

lemma ok_send:
  assumes ok: "ipc_ok H f" "p \<in> H" "ready (f p)" "d \<in> H"
    and k: "k = KSend \<or> k = KSendRecv (pid (f d))"
  shows "ipc_ok H (send_to k m p d f)"
proof -
  let ?g = "send_to k m p d f"
  let ?wake = "d \<noteq> p \<and> state (f d) = PROC_RECEIVING \<and> (wait (f d) = pid (f p) \<or> wait (f d) = IPC_ALL)"
  have g: "pid (?g x) = pid (f x)" "has_intr (?g x) = has_intr (f x)"
    "wait_proc (?g x) = (if x = d then wait_proc (f d) @ [p] else wait_proc (f x))"
    "wait (?g x) = (if x = p then pid (f d) else wait (f x))" "kont (?g x) = (if x = p then k else kont (f x))"
    "state (?g x) = (if x = p then PROC_SENDING else if x = d \<and> ?wake then PROC_RUNNABLE else state (f x))" for x
    by (auto simp: send_to_def Let_def)
  have ns: "state (f p) \<noteq> PROC_SENDING" using ok(3) by (auto simp: ready_def)
  have nq: "p \<notin> set (wait_proc (f x))" if "x \<in> H" for x by (rule ready_not_queued [OF ok(1,3) that])
  have rd: "ready (?g x) = (if x = p then False else if x = d \<and> ?wake then True else ready (f x))" for x
    by (simp add: ready_def g(6))
  have "queue_ok H ?g x \<and> sender_ok H ?g x \<and> receiver_ok H ?g x \<and> woken_ok H ?g x" if x: "x \<in> H" for x
  proof (intro conjI)
    note dd = ipc_okD [OF ok(1) x]
    show "queue_ok H ?g x"
      using dd(1) nq [OF x] ok(2) unfolding queue_ok_def g by (cases "x = d") auto
    show "sender_ok H ?g x"
      unfolding sender_ok_def
    proof
      assume s: "state (?g x) = PROC_SENDING"
      show "\<exists>e \<in> H. wait (?g x) = pid (?g e) \<and> x \<in> set (wait_proc (?g e)) \<and>
          (kont (?g x) = KSend \<or> kont (?g x) = KSendRecv (pid (?g e)))"
      proof (cases "x = p")
        case True
        then show ?thesis using ok(4) k unfolding g by (intro bexI [of _ d]) auto
      next
        case False
        then have "state (f x) = PROC_SENDING" using s unfolding g by (auto split: if_splits)
        then obtain e where "e \<in> H" "wait (f x) = pid (f e)" "x \<in> set (wait_proc (f e))"
          "kont (f x) = KSend \<or> kont (f x) = KSendRecv (pid (f e))"
          using dd(2) by (auto simp: sender_ok_def)
        then show ?thesis using False unfolding g by (intro bexI [of _ e]) auto
      qed
    qed
    show "receiver_ok H ?g x"
    proof (cases "x = p")
      case True
      then show ?thesis unfolding receiver_ok_def g by simp
    next
      case False
      show ?thesis
      proof (cases "x = d")
        case False
        then show ?thesis using dd(3) \<open>x \<noteq> p\<close> unfolding receiver_ok_def g by (simp split: kont.splits)
      next
        case xd: True
        show ?thesis
          unfolding receiver_ok_def
        proof
          assume "state (?g x) = PROC_RECEIVING"
          then have "state (f x) = PROC_RECEIVING" "\<not> ?wake" using False xd unfolding g by (auto split: if_splits)
          then have r: "state (f x) = PROC_RECEIVING" "wait (f x) \<noteq> pid (f p)" "wait (f x) \<noteq> IPC_ALL"
            using xd False by auto
          then show "case kont (?g x) of KRecvAll \<Rightarrow> wait (?g x) = IPC_ALL \<and> wait_proc (?g x) = [] \<and> \<not> has_intr (?g x)
              | KRecvIntr \<Rightarrow> wait (?g x) = IPC_INTR \<and> \<not> has_intr (?g x)
              | KRecvFrom q \<Rightarrow> q \<in> H \<and> wait (?g x) = pid (?g q) \<and> q \<notin> set (wait_proc (?g x)) | _ \<Rightarrow> False"
            using dd(3) False xd unfolding g by (cases "kont (f x)") (auto simp: receiver_ok_def)
        qed
      qed
    qed
    show "woken_ok H ?g x"
    proof (cases "x = p")
      case True
      then show ?thesis unfolding woken_ok_def rd by simp
    next
      case False
      show ?thesis
      proof (cases "x = d \<and> ?wake")
        case True
        then have "state (f x) = PROC_RECEIVING" "wait (f x) = pid (f p) \<or> wait (f x) = IPC_ALL" by auto
        moreover have "pid (f p) < IPC_SIGNAL" by (rule ipc_okD(7) [OF ok(1,2)])
        ultimately show ?thesis
          using dd(3) False True pid_eq [OF ok(1) _ ok(2)] unfolding woken_ok_def g
          by (cases "kont (f x)")
            (auto simp: receiver_ok_def IPC_SIGNAL_def IPC_INTR_def IPC_ALL_def dest: ipc_okD(7) [OF ok(1)])
      next
        case nw: False
        then have "ready (?g x) = ready (f x)" using False unfolding rd by auto
        then show ?thesis
          using dd(4) False unfolding woken_ok_def g by (cases "kont (f x)") auto
      qed
    qed
  qed
  moreover have "pids_ok H ?g" using ok(1) unfolding ipc_ok_def pids_ok_def g(1) by simp
  moreover have "state (?g x) \<noteq> PROC_STOPPED" if "x \<in> H" for x
    using ipc_okD(5) [OF ok(1) that] unfolding g by auto
  ultimately show ?thesis unfolding ipc_ok_def by simp
qed

lemma ok_intr:
  assumes ok: "ipc_ok H f" "d \<in> H"
    and g: "\<And>x. pid (g x) = pid (f x)" "\<And>x. wait_proc (g x) = wait_proc (f x)" "\<And>x. wait (g x) = wait (f x)"
      "\<And>x. kont (g x) = kont (f x)" "\<And>x. has_intr (g x) = (x = d \<or> has_intr (f x))"
      "\<And>x. state (g x) = (if x = d \<and> state (f d) = PROC_RECEIVING \<and> (wait (f d) = IPC_INTR \<or> wait (f d) = IPC_ALL)
          then PROC_RUNNABLE else state (f x))"
  shows "ipc_ok H g"
proof -
  let ?wake = "state (f d) = PROC_RECEIVING \<and> (wait (f d) = IPC_INTR \<or> wait (f d) = IPC_ALL)"
  have sn: "(state (g x) = PROC_SENDING) = (state (f x) = PROC_SENDING)" for x unfolding g by auto
  have rd: "ready (g x) = (ready (f x) \<or> x = d \<and> ?wake)" for x unfolding ready_def g by auto
  have "queue_ok H g x \<and> sender_ok H g x \<and> receiver_ok H g x \<and> woken_ok H g x" if x: "x \<in> H" for x
  proof (intro conjI)
    note dd = ipc_okD [OF ok(1) x]
    show "queue_ok H g x" using dd(1) unfolding queue_ok_def g(1-3) sn .
    show "sender_ok H g x" using dd(2) unfolding sender_ok_def g(1-4) sn .
    show "receiver_ok H g x"
      unfolding receiver_ok_def
    proof
      assume "state (g x) = PROC_RECEIVING"
      then have "state (f x) = PROC_RECEIVING" "x = d \<longrightarrow> wait (f x) \<noteq> IPC_INTR \<and> wait (f x) \<noteq> IPC_ALL"
        unfolding g by (auto split: if_splits)
      then show "case kont (g x) of KRecvAll \<Rightarrow> wait (g x) = IPC_ALL \<and> wait_proc (g x) = [] \<and> \<not> has_intr (g x)
          | KRecvIntr \<Rightarrow> wait (g x) = IPC_INTR \<and> \<not> has_intr (g x)
          | KRecvFrom q \<Rightarrow> q \<in> H \<and> wait (g x) = pid (g q) \<and> q \<notin> set (wait_proc (g x)) | _ \<Rightarrow> False"
        using dd(3) unfolding receiver_ok_def g by (cases "kont (f x)") auto
    qed
    show "woken_ok H g x"
    proof (cases "x = d \<and> ?wake")
      case True
      then show ?thesis
        using dd(3) unfolding woken_ok_def receiver_ok_def g
        by (cases "kont (f x)") (auto simp: IPC_SIGNAL_def IPC_INTR_def IPC_ALL_def dest!: ipc_okD(7) [OF ok(1)])
    next
      case False
      then show ?thesis using dd(4) unfolding woken_ok_def g rd by (cases "kont (f x)") auto
    qed
  qed
  moreover have "pids_ok H g" using ok(1) unfolding ipc_ok_def pids_ok_def g(1) by simp
  moreover have "state (g x) \<noteq> PROC_STOPPED" if "x \<in> H" for x
    using ipc_okD(5) [OF ok(1) that] unfolding g by auto
  ultimately show ?thesis unfolding ipc_ok_def by simp
qed

section \<open>The whole system\<close>

definition sys_ok :: "ksys \<Rightarrow> bool" where
  "sys_ok s \<longleftrightarrow> distinct (proc_head s) \<and> idle s \<notin> set (proc_head s) \<and>
     (current s = idle s \<or> current s \<in> set (proc_head s)) \<and>
     pflags (procs s (idle s)) AND PF_IDLE \<noteq> 0 \<and> kont (procs s (idle s)) = User \<and>
     (\<forall>p \<in> set (proc_head s). pflags (procs s p) AND PF_IDLE = 0 \<and> alarm (procs s p) = 0 \<and>
        map_proc (pid (procs s p)) s = Some p) \<and>
     (\<forall>k p. map_proc k s = Some p \<longrightarrow> p \<in> set (proc_head s)) \<and>
     (\<forall>p \<in> set (proc_head s). state (procs s p) = PROC_RUNNING \<longleftrightarrow> p = current s)"

definition ipc_inv :: "ksys \<Rightarrow> bool" where
  "ipc_inv s \<longleftrightarrow> sys_ok s \<and> ipc_ok (set (proc_head s)) (procs s)"

text \<open>Between the start of a step and its call of the scheduler the current process may have stopped running.\<close>

definition mid_ok :: "ksys \<Rightarrow> bool" where
  "mid_ok s \<longleftrightarrow> distinct (proc_head s) \<and> idle s \<notin> set (proc_head s) \<and>
     (current s = idle s \<or> current s \<in> set (proc_head s)) \<and>
     pflags (procs s (idle s)) AND PF_IDLE \<noteq> 0 \<and> kont (procs s (idle s)) = User \<and>
     (\<forall>p \<in> set (proc_head s). pflags (procs s p) AND PF_IDLE = 0 \<and> alarm (procs s p) = 0 \<and>
        map_proc (pid (procs s p)) s = Some p) \<and>
     (\<forall>k p. map_proc k s = Some p \<longrightarrow> p \<in> set (proc_head s)) \<and>
     (\<forall>p \<in> set (proc_head s). state (procs s p) = PROC_RUNNING \<longrightarrow> p = current s)"

lemma sys_mid: "sys_ok s \<Longrightarrow> mid_ok s"
  by (auto simp: sys_ok_def mid_ok_def)

lemma sched_prev_procs:
  "procs (sched_prev s) p = (if p = current s then (procs s p)\<lparr>pflags := pflags (procs s p) AND NOT NEED_SCHEDULE,
      state := if state (procs s p) = PROC_RUNNING then PROC_RUNNABLE else state (procs s p)\<rparr> else procs s p)"
  by (auto simp: sched_prev_def Let_def)

lemma idle_flag: "(fl AND NOT NEED_SCHEDULE) AND PF_IDLE = fl AND PF_IDLE"
proof -
  have "NOT NEED_SCHEDULE AND PF_IDLE = PF_IDLE" by (simp add: NEED_SCHEDULE_def PF_IDLE_def)
  then show ?thesis by (simp add: and.assoc)
qed

lemma sched_prev_sel:
  "proc_head (sched_prev s) = (if pflags (procs s (current s)) AND PF_IDLE = 0
     then remove1 (current s) (proc_head s) @ [current s] else proc_head s)"
  "proc_hash_map (sched_prev s) = proc_hash_map s" "current (sched_prev s) = current s" "idle (sched_prev s) = idle s"
  "ticks (sched_prev s) = ticks s"
  by (simp_all add: sched_prev_def Let_def idle_flag)

lemma sched_head:
  assumes "mid_ok s"
  shows "set (proc_head (sched_prev s)) = set (proc_head s)" "distinct (proc_head (sched_prev s))"
proof -
  have *: "current s \<in> set (proc_head s)" if "pflags (procs s (current s)) AND PF_IDLE = 0"
    using assms that by (auto simp: mid_ok_def)
  show "set (proc_head (sched_prev s)) = set (proc_head s)"
    using * assms by (auto simp: sched_prev_sel mid_ok_def dest: notin_set_remove1)
  show "distinct (proc_head (sched_prev s))"
    using assms by (simp add: sched_prev_sel mid_ok_def)
qed

lemma schedule_sel:
  "proc_head (schedule s) = proc_head (sched_prev s)" "proc_hash_map (schedule s) = proc_hash_map s"
  "idle (schedule s) = idle s"
  "current (schedule s) = (case find_runnable (sched_prev s) of Some p \<Rightarrow> p | None \<Rightarrow> idle s)"
  by (auto simp: schedule_def Let_def sched_prev_sel split: option.splits)

lemma schedule_procs:
  assumes "mid_ok s"
  shows "p \<in> set (proc_head s) \<Longrightarrow> alike (procs s p) (procs (schedule s) p)"
    "p \<in> set (proc_head s) \<Longrightarrow> pflags (procs (schedule s) p) AND PF_IDLE = pflags (procs s p) AND PF_IDLE \<and>
       alarm (procs (schedule s) p) = alarm (procs s p)"
    "p \<in> set (proc_head s) \<Longrightarrow> state (procs (schedule s) p) = PROC_RUNNING \<longleftrightarrow> p = current (schedule s)"
    "pid (procs (schedule s) p) = pid (procs s p)"
    "pflags (procs (schedule s) (idle s)) AND PF_IDLE = pflags (procs s (idle s)) AND PF_IDLE"
    "kont (procs (schedule s) p) = kont (procs s p)"
proof -
  have ni: "idle s \<notin> set (proc_head s)" using assms by (simp add: mid_ok_def)
  have run: "state (procs s p) = PROC_RUNNING \<Longrightarrow> p \<in> set (proc_head s) \<Longrightarrow> p = current s" for p
    using assms by (auto simp: mid_ok_def)
  have pr: "procs (schedule s) p = (case find_runnable (sched_prev s) of
      None \<Rightarrow> (if p = idle s then (procs (sched_prev s) p)\<lparr>counter := 1\<rparr> else procs (sched_prev s) p)
    | Some q \<Rightarrow> (if p = q then (procs (sched_prev s) p)\<lparr>state := PROC_RUNNING, counter := 1\<rparr> else procs (sched_prev s) p))" for p
    by (auto simp: schedule_def Let_def sched_prev_sel split: option.splits)
  have q: "state (procs (sched_prev s) q) = PROC_RUNNABLE" "q \<in> set (proc_head s)"
    if "find_runnable (sched_prev s) = Some q" for q
    using that sched_head(1) [OF assms] by (auto simp: find_runnable_def find_Some_iff)
  have nr: "state (procs (sched_prev s) x) \<noteq> PROC_RUNNING" if "x \<in> set (proc_head s)" for x
    using run [OF _ that] by (auto simp: sched_prev_procs)
  have al: "alike (procs s x) (procs (sched_prev s) x)" for x by (auto simp: alike_def sched_prev_procs ready_def)
  show "alike (procs s p) (procs (schedule s) p)" if "p \<in> set (proc_head s)"
  proof -
    have "alike (procs (sched_prev s) p) (procs (schedule s) p)"
      using q(1) by (auto simp: pr alike_def ready_def split: option.splits)
    then show ?thesis using al alike_trans by blast
  qed
  show "pflags (procs (schedule s) p) AND PF_IDLE = pflags (procs s p) AND PF_IDLE \<and>
       alarm (procs (schedule s) p) = alarm (procs s p)"
    by (auto simp: pr sched_prev_procs idle_flag split: option.splits)
  show "state (procs (schedule s) p) = PROC_RUNNING \<longleftrightarrow> p = current (schedule s)" if "p \<in> set (proc_head s)"
    using nr [OF that] ni that by (auto simp: pr schedule_sel split: option.splits)
  show "pid (procs (schedule s) p) = pid (procs s p)" "kont (procs (schedule s) p) = kont (procs s p)"
    by (auto simp: pr sched_prev_procs split: option.splits)
  show "pflags (procs (schedule s) (idle s)) AND PF_IDLE = pflags (procs s (idle s)) AND PF_IDLE"
    by (auto simp: pr sched_prev_procs idle_flag split: option.splits)
qed

lemma map_proc_cong:
  assumes "proc_hash_map s' = proc_hash_map s" "\<And>p. pid (procs s' p) = pid (procs s p)"
  shows "map_proc k s' = map_proc k s"
  by (simp add: map_proc_def assms)

lemma schedule_inv:
  assumes "mid_ok s" "ipc_ok (set (proc_head s)) (procs s)"
  shows "ipc_inv (schedule s)"
proof -
  note h = sched_head [OF assms(1)] and sp = schedule_procs [OF assms(1)]
  have map: "map_proc k (schedule s) = map_proc k s" for k
    by (rule map_proc_cong) (simp_all add: schedule_sel sp(4))
  have set: "set (proc_head (schedule s)) = set (proc_head s)" by (simp add: schedule_sel h)
  have "current (schedule s) = idle (schedule s) \<or> current (schedule s) \<in> set (proc_head s)"
    using h(1) by (auto simp: schedule_sel find_runnable_def find_Some_iff split: option.splits)
  then have "sys_ok (schedule s)"
    using assms(1) sp h(2) unfolding sys_ok_def mid_ok_def set map
    by (simp add: schedule_sel(1,3))
  moreover have "ipc_ok (set (proc_head s)) (procs (schedule s))"
    by (rule ipc_ok_alike [OF _ assms(2)]) (rule sp(1))
  ultimately show ?thesis by (simp add: ipc_inv_def set)
qed

section \<open>Every step keeps the invariant\<close>

text \<open>Changes that the bookkeeping of the scheduler does not see.\<close>

lemma mid_ok_cong:
  assumes "mid_ok s" "proc_head s' = proc_head s" "proc_hash_map s' = proc_hash_map s" "current s' = current s"
    "idle s' = idle s" "\<And>p. pid (procs s' p) = pid (procs s p)"
    "\<And>p. pflags (procs s' p) AND PF_IDLE = pflags (procs s p) AND PF_IDLE"
    "\<And>p. alarm (procs s' p) = alarm (procs s p)" "kont (procs s' (idle s)) = kont (procs s (idle s))"
    "\<And>p. state (procs s' p) = PROC_RUNNING \<Longrightarrow> state (procs s p) = PROC_RUNNING"
  shows "mid_ok s'"
proof -
  have "map_proc k s' = map_proc k s" for k by (rule map_proc_cong) (simp_all add: assms)
  then show ?thesis using assms unfolding mid_ok_def by (metis)
qed

lemma sys_ok_cong:
  assumes "sys_ok s" "proc_head s' = proc_head s" "proc_hash_map s' = proc_hash_map s" "current s' = current s"
    "idle s' = idle s" "\<And>p. pid (procs s' p) = pid (procs s p)"
    "\<And>p. pflags (procs s' p) AND PF_IDLE = pflags (procs s p) AND PF_IDLE"
    "\<And>p. alarm (procs s' p) = alarm (procs s p)" "kont (procs s' (idle s)) = kont (procs s (idle s))"
    "\<And>p. p \<in> set (proc_head s) \<Longrightarrow> state (procs s' p) = PROC_RUNNING \<longleftrightarrow> state (procs s p) = PROC_RUNNING"
  shows "sys_ok s'"
proof -
  have "map_proc k s' = map_proc k s" for k by (rule map_proc_cong) (simp_all add: assms)
  then show ?thesis using assms unfolding sys_ok_def by simp
qed

lemma current_ready:
  assumes "ipc_inv s" "current s \<noteq> idle s"
  shows "current s \<in> set (proc_head s)" "ready (procs s (current s))" "state (procs s (current s)) = PROC_RUNNING"
  using assms by (auto simp: ipc_inv_def sys_ok_def ready_def)

lemma map_proc_pid: "map_proc k s = Some p \<Longrightarrow> pid (procs s p) = k"
  by (auto simp: map_proc_def split: if_splits dest: bucket_find_Some)

lemma map_proc_in: "ipc_inv s \<Longrightarrow> map_proc k s = Some p \<Longrightarrow> p \<in> set (proc_head s)"
  by (auto simp: ipc_inv_def sys_ok_def)

lemma do_send_inv:
  assumes inv: "ipc_inv s" "current s \<noteq> idle s" and m: "msrc m \<noteq> IPC_INTR"
    and k: "k = KSend \<or> k = KSendRecv to" and eq: "do_send k to m s = Some s'"
  shows "ipc_inv s'"
proof -
  note cur = current_ready [OF inv]
  obtain d where d: "map_proc to s = Some d" using eq by (auto simp: do_send_def split: bind_splits)
  note dH = map_proc_in [OF inv(1) d] and dp = map_proc_pid [OF d]
  define s1 where "s1 = s\<lparr>procs := send_to k m (current s) d (procs s)\<rparr>"
  have s': "s' = schedule s1"
    using eq m dp unfolding do_send_def d s1_def
    by (auto simp: send_to_def Let_def upd_def split: if_splits)
  have ok: "ipc_ok (set (proc_head s)) (procs s)" "mid_ok s" using inv(1) sys_mid by (auto simp: ipc_inv_def)
  have "ipc_ok (set (proc_head s1)) (procs s1)"
    unfolding s1_def using ok_send [OF ok(1) cur(1,2) dH] k dp by simp
  moreover have "mid_ok s1"
    by (rule mid_ok_cong [OF ok(2)]) (use inv(2) in \<open>auto simp: s1_def send_to_def Let_def split: if_splits\<close>)
  ultimately show ?thesis unfolding s' using schedule_inv by blast
qed

lemma block_inv:
  assumes inv: "ipc_inv s" "current s \<noteq> idle s"
    and k: "(k = KRecvAll \<and> w = IPC_ALL \<and> wait_proc (procs s (current s)) = [] \<and> \<not> has_intr (procs s (current s))) \<or>
      (k = KRecvIntr \<and> w = IPC_INTR \<and> \<not> has_intr (procs s (current s))) \<or>
      (\<exists>q \<in> set (proc_head s). k = KRecvFrom q \<and> w = pid (procs s q) \<and> q \<notin> set (wait_proc (procs s (current s))))"
  shows "ipc_inv (block_recv w k s)"
proof -
  note cur = current_ready [OF inv]
  let ?s1 = "upd (current s) (\<lambda>p. p\<lparr>wait := w, state := PROC_RECEIVING, kont := k\<rparr>) s"
  have ok: "ipc_ok (set (proc_head s)) (procs s)" "mid_ok s" using inv(1) sys_mid by (auto simp: ipc_inv_def)
  have "ipc_ok (set (proc_head ?s1)) (procs ?s1)" using ok_block [OF ok(1) cur(1,2) k] by simp
  moreover have "mid_ok ?s1" by (rule mid_ok_cong [OF ok(2)]) (use inv(2) in \<open>auto split: if_splits\<close>)
  ultimately show ?thesis unfolding block_recv_def using schedule_inv by blast
qed

lemma take_intr_inv:
  assumes inv: "ipc_inv s" "current s \<noteq> idle s" shows "ipc_inv (take_intr s)"
proof -
  note cur = current_ready [OF inv]
  have ok: "ipc_ok (set (proc_head s)) (procs s)" "sys_ok s" using inv(1) by (auto simp: ipc_inv_def)
  have "ipc_ok (set (proc_head s)) (procs (take_intr s))"
    by (rule ok_take_intr [OF ok(1) cur(1,2)]) (auto simp: take_intr_def leave_def)
  moreover have "sys_ok (take_intr s)"
    by (rule sys_ok_cong [OF ok(2)]) (use inv(2) in \<open>auto simp: take_intr_def leave_def\<close>)
  ultimately show ?thesis by (simp add: ipc_inv_def take_intr_def leave_def)
qed

lemma take_msg_procs:
  "procs (take_msg q s) x =
     (let y = (procs s x)\<lparr>wait_proc := remove1 q (wait_proc (procs s x))\<rparr>;
          y = (if x = current s then y\<lparr>buf := msg (procs s q), wait := IPC_NOWAIT\<rparr> else y);
          y = (if x = q then y\<lparr>state := PROC_RUNNABLE\<rparr> else y)
      in if x = current s then y\<lparr>kont := User\<rparr> else y)"
  "proc_head (take_msg q s) = proc_head s" "proc_hash_map (take_msg q s) = proc_hash_map s"
  "current (take_msg q s) = current s" "idle (take_msg q s) = idle s"
  by (simp_all add: take_msg_def leave_def unlink_wait_def Let_def)

lemma take_msg_inv:
  assumes inv: "ipc_inv s" "current s \<noteq> idle s" and q: "q \<in> set (wait_proc (procs s (current s)))"
  shows "ipc_inv (take_msg q s)"
proof -
  note cur = current_ready [OF inv]
  let ?H = "set (proc_head s)"
  have ok: "ipc_ok ?H (procs s)" "sys_ok s" using inv(1) by (auto simp: ipc_inv_def)
  have qs: "state (procs s q) = PROC_SENDING" "q \<in> ?H"
    using ipc_okD(1) [OF ok(1) cur(1)] q by (auto simp: queue_ok_def)
  then have pq: "q \<noteq> current s" using cur(3) by auto
  have once: "remove1 q (wait_proc (procs s x)) = wait_proc (procs s x)" if "x \<in> ?H" "x \<noteq> current s" for x
    using queued_once [OF ok(1) that(1) cur(1) _ q] that(2) by (auto intro: remove1_idem)
  define g where "g = (\<lambda>x. if x \<in> ?H then procs (take_msg q s) x else procs s x)"
  have "ipc_ok ?H g"
    by (rule ok_take_msg [OF ok(1) cur(1,2) q]) (use once cur(1) qs(2) pq in \<open>auto simp: g_def take_msg_procs Let_def\<close>)
  then have "ipc_ok ?H (procs (take_msg q s))"
    by (rule ipc_ok_alike [rotated]) (simp add: g_def)
  moreover have "sys_ok (take_msg q s)"
    by (rule sys_ok_cong [OF ok(2)]) (use inv(2) pq qs in \<open>auto simp: take_msg_procs Let_def\<close>)
  ultimately show ?thesis by (simp add: ipc_inv_def take_msg_procs)
qed

lemma recv_all_inv:
  assumes inv: "ipc_inv s" "current s \<noteq> idle s" shows "ipc_inv (recv_all s)"
  using take_intr_inv [OF inv] take_msg_inv [OF inv] block_inv [OF inv]
  by (auto simp: recv_all_def Let_def split: list.splits)

lemma sending_to_me:
  assumes inv: "ipc_inv s" "current s \<noteq> idle s" and q: "q \<in> set (proc_head s)"
  shows "q \<in> set (wait_proc (procs s (current s))) \<longleftrightarrow>
    state (procs s q) = PROC_SENDING \<and> wait (procs s q) = pid (procs s (current s))"
proof -
  note cur = current_ready [OF inv]
  have ok: "ipc_ok (set (proc_head s)) (procs s)" using inv(1) by (simp add: ipc_inv_def)
  show ?thesis
  proof
    assume "q \<in> set (wait_proc (procs s (current s)))"
    then show "state (procs s q) = PROC_SENDING \<and> wait (procs s q) = pid (procs s (current s))"
      using ipc_okD(1) [OF ok cur(1)] by (auto simp: queue_ok_def)
  next
    assume a: "state (procs s q) = PROC_SENDING \<and> wait (procs s q) = pid (procs s (current s))"
    then obtain d where d: "d \<in> set (proc_head s)" "wait (procs s q) = pid (procs s d)" "q \<in> set (wait_proc (procs s d))"
      using ipc_okD(2) [OF ok q] by (auto simp: sender_ok_def)
    have "d = current s" using pid_eq [OF ok d(1) cur(1)] d(2) a by simp
    then show "q \<in> set (wait_proc (procs s (current s)))" using d(3) by simp
  qed
qed

lemma do_recv_inv:
  assumes inv: "ipc_inv s" "current s \<noteq> idle s" and eq: "do_recv from s = Some s'"
  shows "ipc_inv s'"
proof -
  consider "from = IPC_ALL" "s' = recv_all s"
    | "has_intr (procs s (current s))" "s' = take_intr s"
    | "\<not> has_intr (procs s (current s))" "s' = block_recv IPC_INTR KRecvIntr s"
    | q where "map_proc from s = Some q" "q \<in> set (wait_proc (procs s (current s)))" "s' = take_msg q s"
    | q where "map_proc from s = Some q" "q \<notin> set (wait_proc (procs s (current s)))" "s' = block_recv from (KRecvFrom q) s"
    using eq sending_to_me [OF inv] map_proc_in [OF inv(1)]
    by (auto simp: do_recv_def Let_def split: if_splits bind_splits)
  then show ?thesis
  proof cases
    case (5 q)
    then show ?thesis
      using map_proc_in [OF inv(1) 5(1)] map_proc_pid [OF 5(1)] by (auto intro!: block_inv [OF inv])
  qed (use recv_all_inv [OF inv] take_intr_inv [OF inv] take_msg_inv [OF inv] block_inv [OF inv] in auto)
qed

lemma flag_or: "(fl OR NEED_SCHEDULE) AND PF_IDLE = fl AND PF_IDLE"
proof -
  have "NEED_SCHEDULE AND PF_IDLE = 0" by (simp add: NEED_SCHEDULE_def PF_IDLE_def)
  then show ?thesis by (simp add: bit.conj_disj_distrib2)
qed

lemma ret_from_int_inv: "ipc_inv s \<Longrightarrow> ipc_inv (ret_from_int s)"
  using schedule_inv sys_mid by (auto simp: ret_from_int_def ipc_inv_def)

lemma update_alarm_idle:
  assumes "\<forall>p \<in> set (proc_head s). alarm (procs s p) = 0" shows "update_alarm s = s"
proof -
  have "fold (\<lambda>p. upd p tick_alarm) xs s = s" if "\<forall>p \<in> set xs. alarm (procs s p) = 0" for xs
    using that by (induction xs) (simp_all add: upd_def tick_alarm_def)
  then show ?thesis using assms by (simp add: update_alarm_def)
qed

lemma do_timer_inv:
  assumes "ipc_inv s" shows "ipc_inv (do_timer s)"
proof -
  have ok: "ipc_ok (set (proc_head s)) (procs s)" "sys_ok s" using assms by (auto simp: ipc_inv_def)
  have "update_alarm (ticks_plus s) = ticks_plus s"
    by (rule update_alarm_idle) (use ok(2) in \<open>simp add: ticks_plus_def sys_ok_def\<close>)
  then have eq: "do_timer s = upd (current s) (\<lambda>p. p\<lparr>pflags := pflags p OR NEED_SCHEDULE\<rparr>) (ticks_plus s)"
    by (simp add: do_timer_def Let_def) (simp add: ticks_plus_def)
  have "sys_ok (do_timer s)"
    by (rule sys_ok_cong [OF ok(2)]) (auto simp: eq ticks_plus_def flag_or)
  moreover have "ipc_ok (set (proc_head s)) (procs (do_timer s))"
    by (rule ipc_ok_alike [OF _ ok(1)]) (auto simp: eq ticks_plus_def alike_def ready_def)
  ultimately show ?thesis by (simp add: ipc_inv_def) (simp add: eq ticks_plus_def)
qed

lemma send_intr_inv:
  assumes "ipc_inv s" "d \<in> set (proc_head s)" shows "ipc_inv (send_intr d s)"
proof -
  have ok: "ipc_ok (set (proc_head s)) (procs s)" "sys_ok s" using assms(1) by (auto simp: ipc_inv_def)
  have "ipc_ok (set (proc_head s)) (procs (send_intr d s))"
    by (rule ok_intr [OF ok(1) assms(2)]) (auto simp: send_intr_def Let_def)
  moreover have "sys_ok (send_intr d s)"
    by (rule sys_ok_cong [OF ok(2)]) (auto simp: send_intr_def Let_def)
  moreover have "proc_head (send_intr d s) = proc_head s" by (simp add: send_intr_def Let_def)
  ultimately show ?thesis by (simp add: ipc_inv_def)
qed

lemma buf_inv:
  assumes "ipc_inv s" shows "ipc_inv (upd p (\<lambda>q. q\<lparr>buf := m\<rparr>) s)"
proof -
  have ok: "ipc_ok (set (proc_head s)) (procs s)" "sys_ok s" using assms by (auto simp: ipc_inv_def)
  have "sys_ok (upd p (\<lambda>q. q\<lparr>buf := m\<rparr>) s)" by (rule sys_ok_cong [OF ok(2)]) auto
  moreover have "ipc_ok (set (proc_head s)) (procs (upd p (\<lambda>q. q\<lparr>buf := m\<rparr>) s))"
    by (rule ipc_ok_alike [OF _ ok(1)]) (auto simp: alike_def ready_def)
  ultimately show ?thesis by (simp add: ipc_inv_def)
qed

lemma leave_keeps:
  assumes inv: "ipc_inv s" "current s \<noteq> idle s" shows "ipc_inv (leave s)"
proof -
  note cur = current_ready [OF inv]
  have ok: "ipc_ok (set (proc_head s)) (procs s)" "sys_ok s" using inv(1) by (auto simp: ipc_inv_def)
  have "sys_ok (leave s)" by (rule sys_ok_cong [OF ok(2)]) (use inv(2) in \<open>auto simp: leave_def\<close>)
  moreover have "ipc_ok (set (proc_head s)) (procs (leave s))"
    using ok_leave [OF ok(1) cur(1,2)] by (simp add: leave_def)
  ultimately show ?thesis by (simp add: ipc_inv_def leave_def)
qed

lemma resume_inv:
  assumes inv: "ipc_inv s" "kont (procs s (current s)) \<noteq> User" and eq: "resume s = Some s'"
  shows "ipc_inv s'"
proof -
  have ni: "current s \<noteq> idle s" using inv by (auto simp: ipc_inv_def sys_ok_def)
  note cur = current_ready [OF inv(1) ni]
  have w: "woken_ok (set (proc_head s)) (procs s) (current s)"
    using inv(1) cur(1) by (auto simp: ipc_inv_def dest: ipc_okD(4))
  then show ?thesis
    using eq inv(2) cur(2) leave_keeps [OF inv(1) ni] do_recv_inv [OF inv(1) ni] recv_all_inv [OF inv(1) ni]
      take_intr_inv [OF inv(1) ni] take_msg_inv [OF inv(1) ni]
    by (auto simp: resume_def woken_ok_def split: kont.splits)
qed

lemma pid_not_intr:
  assumes "ipc_inv s" "current s \<noteq> idle s" shows "pid (procs s (current s)) \<noteq> IPC_INTR"
proof -
  have "pid (procs s (current s)) < IPC_SIGNAL"
    using assms current_ready(1) by (auto simp: ipc_inv_def dest: ipc_okD(7))
  then show ?thesis by (simp add: IPC_SIGNAL_def IPC_INTR_def)
qed

lemma kstep_inv:
  assumes "kstep s s'" "ipc_inv s" shows "ipc_inv s'"
  using assms
proof (induction rule: kstep.induct)
  case (send s to m s')
  show ?case
    by (rule do_send_inv [OF send(4,2) _ _ send(3) [unfolded sys_send_def]])
      (use pid_not_intr [OF send(4,2)] in \<open>simp_all add: pre_syscall_def\<close>)
next
  case (recv s w m s')
  then show ?case using do_recv_inv [OF buf_inv [OF recv(4)]] by (auto simp: sys_recv_def)
next
  case (sendrecv s to m s')
  show ?case
    by (rule do_send_inv [OF buf_inv [OF sendrecv(4)] _ _ _ sendrecv(3) [unfolded sys_sendrecv_def do_sendrecv_def]])
      (use sendrecv(2) pid_not_intr [OF sendrecv(4,2)] in \<open>simp_all add: pre_syscall_def\<close>)
next
  case (resume s s')
  then show ?case using resume_inv by blast
next
  case (timer s)
  then show ?case using ret_from_int_inv do_timer_inv by blast
next
  case (hwint s hw_proc nr s')
  then have "ipc_inv s'"
    using send_intr_inv [OF hwint(3)] map_proc_in [OF hwint(3)]
    by (auto simp: do_hwint_def do_send_def put_intr_def Let_def split: if_splits bind_splits)
  then show ?case by (rule ret_from_int_inv)
qed

lemma reachable_inv: "reachable s0 s \<Longrightarrow> ipc_inv s0 \<Longrightarrow> ipc_inv s"
  by (induction rule: reachable.induct) (auto intro: kstep_inv)

section \<open>A small system\<close>

text \<open>
  Process 1 runs, process 2 is blocked sending it a message, process 3 is ready and process 9
  idles.
\<close>

definition example_proc :: "pptr \<Rightarrow> proc" where
  "example_proc p = \<lparr>state = (if p = 1 then PROC_RUNNING else if p = 2 then PROC_SENDING else PROC_RUNNABLE),
     pflags = (if p = 9 then PF_IDLE else 0), pid = uint p, counter = 0, alarm = 0, signal = 0, exit_status = 0,
     parent = 0, children = [], wait = (if p = 2 then 1 else 0), wait_proc = (if p = 1 then [2] else []),
     has_intr = False, msg = \<lparr>msrc = uint p, mtype = 7, w0 = 42, w1 = 0, w2 = 0, w3 = 0, w4 = 0\<rparr>,
     buf = zero_message, kont = (if p = 2 then KSend else User)\<rparr>"

definition example_sys :: ksys where
  "example_sys = \<lparr>procs = example_proc, proc_head = [2, 1, 3],
     proc_hash_map = (\<lambda>i. if i \<in> {1, 2, 3} then [of_nat i] else []), current = 1, idle = 9, ticks = 0\<rparr>"

lemma example_sys_map: "map_proc k example_sys = (if k = 1 \<or> k = 2 \<or> k = 3 then Some (of_int k) else None)"
proof (cases "nat (k mod 256) \<in> {1, 2, 3}")
  case True
  then have "uint (of_nat (nat (k mod 256)) :: pptr) = k mod 256" "k mod 256 \<in> {1, 2, 3}"
    by (auto simp: nat_eq_iff)
  then show ?thesis
    by (auto simp: map_proc_def proc_bucket_def PROC_HASH_MAP_SIZE_def bucket_find_def example_sys_def example_proc_def)
next
  case False
  then show ?thesis
    by (auto simp: map_proc_def proc_bucket_def PROC_HASH_MAP_SIZE_def bucket_find_def example_sys_def)
qed

lemma example_sys_inv: "ipc_inv example_sys"
proof -
  have "sys_ok example_sys"
    unfolding sys_ok_def example_sys_map
    by (auto simp: example_sys_def example_proc_def PF_IDLE_def split: if_splits)
  moreover have "ipc_ok {1, 2, 3} example_proc"
    by (auto simp: ipc_ok_def pids_ok_def ok_defs example_proc_def ready_def inj_on_def IPC_SIGNAL_def)
  moreover have "set [2, 1, 3] = {1, 2, 3 :: pptr}" by auto
  ultimately show ?thesis by (simp add: ipc_inv_def example_sys_def)
qed

text \<open>The same system while process 1 goes on with a receive from process 2.\<close>

definition example_woken :: ksys where
  "example_woken = upd 1 (\<lambda>p. p\<lparr>kont := KRecvFrom 2\<rparr>) example_sys"

lemma example_woken_inv: "ipc_inv example_woken"
proof -
  have m: "map_proc k example_woken = map_proc k example_sys" for k
    by (rule map_proc_cong) (auto simp: example_woken_def)
  have "sys_ok example_woken"
    unfolding sys_ok_def m example_sys_map
    by (auto simp: example_woken_def example_sys_def example_proc_def PF_IDLE_def split: if_splits)
  moreover have "ipc_ok {1, 2, 3} (example_proc(1 := (example_proc 1)\<lparr>kont := KRecvFrom 2\<rparr>))"
    by (auto simp: ipc_ok_def pids_ok_def ok_defs example_proc_def ready_def inj_on_def IPC_SIGNAL_def)
  moreover have "set [2, 1, 3] = {1, 2, 3 :: pptr}" by auto
  ultimately show ?thesis by (simp add: ipc_inv_def example_woken_def example_sys_def)
qed

section \<open>Properties\<close>



text \<open>
  C17.  There are no spurious wakeups: when a process whose receive had blocked is switched to
  again, the rest of its call finds a message or an interrupt and returns to the user, and a
  specific receive gets the message of the process it named.
\<close>

theorem resumed_receive_completes:
  assumes "ipc_inv s0" "reachable s0 s"
    "kont (procs s (current s)) = KRecvAll \<or> kont (procs s (current s)) = KRecvIntr \<or>
     kont (procs s (current s)) = KRecvFrom q"
  shows "\<exists>s'. resume s = Some s' \<and> current s' = current s \<and> kont (procs s' (current s)) = User \<and>
    state (procs s' (current s)) = PROC_RUNNING \<and>
    (kont (procs s (current s)) = KRecvFrom q \<longrightarrow>
       buf (procs s' (current s)) = msg (procs s q) \<and> state (procs s' q) = PROC_RUNNABLE)"
proof -
  have inv: "ipc_inv s" by (rule reachable_inv [OF assms(2,1)])
  have ni: "current s \<noteq> idle s" using inv assms(3) by (auto simp: ipc_inv_def sys_ok_def)
  note cur = current_ready [OF inv ni]
  have ok: "ipc_ok (set (proc_head s)) (procs s)" using inv by (simp add: ipc_inv_def)
  have w: "woken_ok (set (proc_head s)) (procs s) (current s)" by (rule ipc_okD(4) [OF ok cur(1)])
  have "current s \<notin> set (wait_proc (procs s (current s)))" by (rule ready_not_queued [OF ok cur(2,1)])
  then show ?thesis
    using w cur(2,3) assms(3)
    by (auto simp: resume_def woken_ok_def recv_all_def take_intr_def leave_def take_msg_procs Let_def
        split: list.splits)
qed

theorem resumed_receive_completes_witness:
  "\<exists>s'. resume example_woken = Some s' \<and> buf (procs s' 1) = \<lparr>msrc = 2, mtype = 7, w0 = 42, w1 = 0, w2 = 0, w3 = 0, w4 = 0\<rparr> \<and>
     state (procs s' 2) = PROC_RUNNABLE"
proof -
  have *: "current example_woken = 1" "kont (procs example_woken 1) = KRecvFrom 2"
    "msg (procs example_woken 2) = \<lparr>msrc = 2, mtype = 7, w0 = 42, w1 = 0, w2 = 0, w3 = 0, w4 = 0\<rparr>"
    by (simp_all add: example_woken_def example_sys_def example_proc_def)
  show ?thesis
    using resumed_receive_completes [OF example_woken_inv reachable.init, of 2] unfolding * by auto
qed



end
