(* ===== verification/RoundRobin.thy ===== *)
theory RoundRobin
  imports Ipc
begin

text \<open>
  Fairness of the scheduler under timer ticks, what a process woken by its alarm gets from it, and
  a small system on which the theorems of \<open>Proc\<close> and \<open>Ipc\<close> are applied.
\<close>

section \<open>Timer ticks\<close>

definition tick :: "ksys \<Rightarrow> ksys" where
  "tick s = ret_from_int (do_timer s)"

lemma tick_inv: "ipc_inv s \<Longrightarrow> ipc_inv (tick s)"
  by (simp add: tick_def ret_from_int_inv do_timer_inv)

lemma need_schedule_set: "(fl OR NEED_SCHEDULE) AND NEED_SCHEDULE \<noteq> 0"
proof
  assume "(fl OR NEED_SCHEDULE) AND NEED_SCHEDULE = 0"
  then have "NEED_SCHEDULE = 0" by (simp add: bit.conj_disj_distrib2)
  then show False by (simp add: NEED_SCHEDULE_def)
qed

text \<open>A tick is a call of the scheduler, up to the flag and the tick counter.\<close>

lemma tick_eq:
  assumes "ipc_inv s"
  shows "tick s = schedule (do_timer s)" "proc_head (do_timer s) = proc_head s" "current (do_timer s) = current s"
    "idle (do_timer s) = idle s" "state (procs (do_timer s) p) = state (procs s p)"
    "pflags (procs (do_timer s) p) AND PF_IDLE = pflags (procs s p) AND PF_IDLE"
proof -
  have "\<forall>p \<in> set (proc_head (ticks_plus s)). alarm (procs (ticks_plus s) p) = 0"
    using assms by (simp add: ticks_plus_def ipc_inv_def sys_ok_def)
  note u = update_alarm_idle [OF this, unfolded ticks_plus_def]
  show "proc_head (do_timer s) = proc_head s" "current (do_timer s) = current s" "idle (do_timer s) = idle s"
    "state (procs (do_timer s) p) = state (procs s p)"
    "pflags (procs (do_timer s) p) AND PF_IDLE = pflags (procs s p) AND PF_IDLE"
    by (simp_all add: do_timer_def Let_def ticks_plus_def u flag_or)
  show "tick s = schedule (do_timer s)"
    using need_schedule_set by (simp add: tick_def ret_from_int_def do_timer_def Let_def ticks_plus_def u)
qed

text \<open>The ready processes in front of \<open>p\<close> on the ring.\<close>

definition ahead :: "pptr \<Rightarrow> ksys \<Rightarrow> pptr list" where
  "ahead p s = filter (\<lambda>q. ready (procs s q)) (takeWhile (\<lambda>q. q \<noteq> p) (proc_head s))"

lemma find_first:
  assumes "distinct xs" "p \<in> set xs" "P p"
  shows "List.find P xs = (case filter P (takeWhile (\<lambda>q. q \<noteq> p) xs) of [] \<Rightarrow> Some p | q # _ \<Rightarrow> Some q)"
  using assms by (induction xs) auto

lemma takeWhile_move:
  assumes "distinct xs" "p \<in> set xs" "c \<noteq> p" "c \<in> set xs"
  shows "takeWhile (\<lambda>q. q \<noteq> p) (remove1 c xs @ [c]) = remove1 c (takeWhile (\<lambda>q. q \<noteq> p) xs)"
  using assms
proof (induction xs)
  case (Cons x xs)
  show ?case
  proof (cases "x = p \<or> x = c")
    case True
    then show ?thesis
      using Cons.prems by (auto simp: takeWhile_append1 [of p] takeWhile_append2)
  next
    case False
    then show ?thesis using Cons by auto
  qed
qed simp

lemma filter_remove1:
  assumes "distinct xs" shows "filter P (remove1 c xs) = remove1 c (filter P xs)"
  using assms by (induction xs) (auto simp: remove1_idem)

lemma tick_next:
  assumes inv: "ipc_inv s" and p: "p \<in> set (proc_head s)" "ready (procs s p)" "current s \<noteq> p"
  defines "xs \<equiv> remove1 (current s) (ahead p s)"
  shows "current (tick s) = (case xs of [] \<Rightarrow> p | q # _ \<Rightarrow> q)" "ahead p (tick s) = xs"
    "p \<in> set (proc_head (tick s))" "ready (procs (tick s) p)"
proof -
  let ?t = "do_timer s"
  note eq = tick_eq [OF inv]
  have invt: "ipc_inv ?t" by (rule do_timer_inv [OF inv])
  have mid: "mid_ok ?t" using invt sys_mid by (simp add: ipc_inv_def)
  note h = sched_head [OF mid] and sp = schedule_procs [OF mid]
  have d: "distinct (proc_head s)" and cur: "current s = idle s \<or> current s \<in> set (proc_head s)"
    and ni: "idle s \<notin> set (proc_head s)"
    using inv by (auto simp: ipc_inv_def sys_ok_def)
  have run: "ready (procs (sched_prev ?t) q) \<longleftrightarrow> state (procs (sched_prev ?t) q) = PROC_RUNNABLE"
    if "q \<in> set (proc_head s)" for q
    using that inv by (auto simp: sched_prev_procs eq ready_def ipc_inv_def sys_ok_def)
  have rd: "ready (procs (sched_prev ?t) q) = ready (procs s q)" for q
    by (auto simp: sched_prev_procs eq ready_def)
  have tw: "takeWhile (\<lambda>q. q \<noteq> p) (proc_head (sched_prev ?t)) = remove1 (current s) (takeWhile (\<lambda>q. q \<noteq> p) (proc_head s))"
  proof (cases "current s \<in> set (proc_head s)")
    case True
    then have "pflags (procs s (current s)) AND PF_IDLE = 0" using inv by (auto simp: ipc_inv_def sys_ok_def)
    then show ?thesis using takeWhile_move [OF d p(1) p(3) True] by (simp add: sched_prev_sel eq)
  next
    case False
    then have i: "current s = idle s" using cur by blast
    have "pflags (procs s (current s)) AND PF_IDLE \<noteq> 0" using inv unfolding i by (auto simp: ipc_inv_def sys_ok_def)
    moreover have "current s \<notin> set (takeWhile (\<lambda>q. q \<noteq> p) (proc_head s))" using False set_takeWhileD by metis
    ultimately show ?thesis by (simp add: sched_prev_sel eq remove1_idem)
  qed
  have hs: "set (proc_head (sched_prev ?t)) = set (proc_head s)" using h(1) by (simp add: eq)
  have fil: "filter (\<lambda>q. state (procs (sched_prev ?t) q) = PROC_RUNNABLE) (takeWhile (\<lambda>q. q \<noteq> p) (proc_head (sched_prev ?t))) = xs"
  proof -
    have "filter (\<lambda>q. state (procs (sched_prev ?t) q) = PROC_RUNNABLE) ys = filter (\<lambda>q. ready (procs s q)) ys"
      if "set ys \<subseteq> set (proc_head s)" for ys
      using that run rd by (intro filter_cong) auto
    moreover have "set (takeWhile (\<lambda>q. q \<noteq> p) (proc_head (sched_prev ?t))) \<subseteq> set (proc_head s)"
      using hs set_takeWhileD by (metis subsetI)
    ultimately show ?thesis
      unfolding tw xs_def ahead_def using d by (simp add: filter_remove1 distinct_takeWhile)
  qed
  have pr: "state (procs (sched_prev ?t) p) = PROC_RUNNABLE" using run [OF p(1)] rd p(2) by simp
  have "find_runnable (sched_prev ?t) = (case xs of [] \<Rightarrow> Some p | q # _ \<Rightarrow> Some q)"
    unfolding find_runnable_def fil [symmetric] by (rule find_first [OF h(2)]) (use hs p(1) pr in auto)
  then show "current (tick s) = (case xs of [] \<Rightarrow> p | q # _ \<Rightarrow> q)"
    by (simp add: eq(1) schedule_sel split: list.splits)
  have rd': "ready (procs (tick s) q) = ready (procs s q)" if "q \<in> set (proc_head s)" for q
    using sp(1) [of q] that by (auto simp: eq alike_def ready_def)
  show "p \<in> set (proc_head (tick s))" "ready (procs (tick s) p)"
    using p hs rd' by (simp_all add: eq(1) schedule_sel)
  have "ahead p (tick s) = filter (\<lambda>q. ready (procs (tick s) q)) (remove1 (current s) (takeWhile (\<lambda>q. q \<noteq> p) (proc_head s)))"
    by (simp add: ahead_def eq(1) schedule_sel tw)
  also have "\<dots> = filter (\<lambda>q. ready (procs s q)) (remove1 (current s) (takeWhile (\<lambda>q. q \<noteq> p) (proc_head s)))"
    by (intro filter_cong [OF refl] rd') (auto dest: set_remove1_subset [THEN subsetD] set_takeWhileD)
  also have "\<dots> = xs" unfolding xs_def ahead_def using d by (simp add: filter_remove1 distinct_takeWhile)
  finally show "ahead p (tick s) = xs" .
qed

lemma round_robin_ahead:
  assumes "ipc_inv s" "p \<in> set (proc_head s)" "ready (procs s p)" "current s \<noteq> p"
  shows "\<exists>n \<le> Suc (length (remove1 (current s) (ahead p s))). current ((tick ^^ n) s) = p"
  using assms
proof (induction "length (remove1 (current s) (ahead p s))" arbitrary: s rule: less_induct)
  case less
  let ?xs = "remove1 (current s) (ahead p s)"
  note nxt = tick_next [OF less.prems]
  show ?case
  proof (cases ?xs)
    case Nil
    then have "current ((tick ^^ 1) s) = p" using nxt(1) by simp
    then show ?thesis using Nil by fastforce
  next
    case (Cons q ys)
    have cur: "current (tick s) = q" "ahead p (tick s) = q # ys" using nxt(1,2) Cons by simp_all
    show ?thesis
    proof (cases "q = p")
      case True
      then have "current ((tick ^^ 1) s) = p" using cur by simp
      then show ?thesis by fastforce
    next
      case False
      have "length (remove1 (current (tick s)) (ahead p (tick s))) = length ys" using cur by simp
      then obtain n where "n \<le> Suc (length ys)" "current ((tick ^^ n) (tick s)) = p"
        using less.hyps [of "tick s"] tick_inv [OF less.prems(1)] nxt(3,4) False cur Cons by auto
      then show ?thesis
        by (intro exI [of _ "Suc n"]) (simp add: Cons funpow_Suc_right del: funpow.simps)
    qed
  qed
qed

lemma ahead_short:
  assumes "p \<in> set (proc_head s)" shows "length (ahead p s) < length (proc_head s)"
proof -
  have "length (takeWhile (\<lambda>q. q \<noteq> p) xs) < length xs" if "p \<in> set xs" for xs
    using that by (induction xs) auto
  then show ?thesis using assms unfolding ahead_def by (intro le_less_trans [OF length_filter_le])
qed

section \<open>A process whose alarm has gone off\<close>

definition stuck :: "pptr \<Rightarrow> ksys \<Rightarrow> bool" where
  "stuck p s \<longleftrightarrow> p \<in> set (proc_head s) \<and> p \<noteq> current s \<and> p \<noteq> idle s \<and>
     alarm (procs s p) = 0 \<and> state (procs s p) = PROC_RUNNING"

lemma update_alarm_sel [simp]:
  "proc_head (update_alarm s) = proc_head s" "current (update_alarm s) = current s" "idle (update_alarm s) = idle s"
proof -
  have "proc_head (fold (\<lambda>p. upd p tick_alarm) ps s) = proc_head s \<and>
    current (fold (\<lambda>p. upd p tick_alarm) ps s) = current s \<and> idle (fold (\<lambda>p. upd p tick_alarm) ps s) = idle s" for ps
    by (induction ps arbitrary: s) auto
  then show "proc_head (update_alarm s) = proc_head s" "current (update_alarm s) = current s" "idle (update_alarm s) = idle s"
    by (simp_all add: update_alarm_def)
qed

lemma update_alarm_procs:
  assumes "distinct (proc_head s)"
  shows "procs (update_alarm s) p = (if p \<in> set (proc_head s) then tick_alarm (procs s p) else procs s p)"
proof -
  have "procs (fold (\<lambda>p. upd p tick_alarm) ps s) p = (if p \<in> set ps then tick_alarm (procs s p) else procs s p)"
    if "distinct ps" for ps
    using that by (induction ps arbitrary: s) auto
  then show ?thesis using assms by (simp add: update_alarm_def)
qed

lemma schedule_skips_running:
  assumes "stuck p s" shows "stuck p (schedule s)"
proof -
  have "state (procs (sched_prev s) p) = PROC_RUNNING" "idle (sched_prev s) = idle s"
    "alarm (procs (sched_prev s) p) = 0" "p \<in> set (proc_head (sched_prev s))"
    using assms by (auto simp: stuck_def sched_prev_procs sched_prev_sel)
  then show ?thesis
    using assms unfolding stuck_def
    by (auto simp: schedule_def Let_def find_runnable_def find_Some_iff split: option.splits)
qed

lemma tick_stuck:
  assumes "distinct (proc_head s)" "p \<in> set (proc_head s)" "p \<noteq> current s" "p \<noteq> idle s"
    "alarm (procs s p) = 1 \<or> stuck p s"
  shows "stuck p (tick s)" 
proof -
  have "stuck p (do_timer s)"
    using assms update_alarm_procs [of "ticks_plus s" p]
    by (auto simp: stuck_def do_timer_def Let_def ticks_plus_def tick_alarm_def)
  then show ?thesis unfolding tick_def ret_from_int_def by (auto intro: schedule_skips_running)
qed

lemma tick_distinct:
  assumes "distinct (proc_head s)" shows "distinct (proc_head (tick s))"
proof -
  have "distinct (proc_head (schedule t))" if "distinct (proc_head t)" for t
    using that by (simp add: schedule_sel sched_prev_sel)
  then show ?thesis using assms by (simp add: tick_def ret_from_int_def do_timer_def Let_def ticks_plus_def)
qed

lemma ticks_stuck:
  assumes "distinct (proc_head s)" "stuck p s"
  shows "stuck p ((tick ^^ n) s) \<and> distinct (proc_head ((tick ^^ n) s))"
proof (induction n)
  case (Suc n)
  then show ?case using tick_stuck [of "(tick ^^ n) s" p] tick_distinct [of "(tick ^^ n) s"] by (simp add: stuck_def)
qed (use assms in simp)

lemma example_sys_sel:
  "distinct (proc_head example_sys)" "2 \<in> set (proc_head example_sys)" "current example_sys = 1" "idle example_sys = 9"
  by (simp_all add: example_sys_def)

section \<open>Properties\<close>

text \<open>
  C19.  The scheduler starves nobody: a process that is ready to run is the current process after
  at most as many timer ticks as there are processes on the ring, whatever the others are.
\<close>

theorem round_robin_fair:
  assumes "ipc_inv s" "p \<in> set (proc_head s)" "ready (procs s p)"
  shows "\<exists>n \<le> length (proc_head s). current (((\<lambda>s. ret_from_int (do_timer s)) ^^ n) s) = p"
proof -
  have t: "(\<lambda>s. ret_from_int (do_timer s)) = tick" by (simp add: tick_def fun_eq_iff)
  show ?thesis
  proof (cases "current s = p")
    case True
    then show ?thesis by (intro exI [of _ 0]) simp
  next
    case False
    obtain n where "n \<le> Suc (length (remove1 (current s) (ahead p s)))" "current ((tick ^^ n) s) = p"
      using round_robin_ahead [OF assms False] by (elim exE conjE) (rule that)
    moreover have "length (remove1 (current s) (ahead p s)) \<le> length (ahead p s)" by (simp add: length_remove1)
    ultimately show ?thesis using ahead_short [OF assms(2)] unfolding t by (intro exI [of _ n]) simp
  qed
qed

theorem round_robin_fair_witness:
  "\<exists>n \<le> 3. current (((\<lambda>s. ret_from_int (do_timer s)) ^^ n) example_sys) = 3"
proof -
  have "3 \<in> set (proc_head example_sys)" "ready (procs example_sys 3)" "length (proc_head example_sys) = 3"
    by (simp_all add: example_sys_def example_proc_def ready_def)
  then show ?thesis using round_robin_fair [OF example_sys_inv, of 3] by simp
qed

text \<open>
  C20.  A sleeping process whose alarm goes off is lost: \<open>update_alarm\<close> marks it running, the
  scheduler only picks runnable processes, and no number of further ticks makes it current.
\<close>

theorem alarmed_never_runs:
  assumes "distinct (proc_head s)" "p \<in> set (proc_head s)" "p \<noteq> current s" "p \<noteq> idle s" "alarm (procs s p) = 1"
  shows "current (((\<lambda>s. ret_from_int (do_timer s)) ^^ n) s) \<noteq> p"
proof -
  have t: "(\<lambda>s. ret_from_int (do_timer s)) = tick" by (simp add: tick_def fun_eq_iff)
  show ?thesis
  proof (cases n)
    case (Suc m)
    have "stuck p ((tick ^^ m) (tick s))"
      using ticks_stuck [OF tick_distinct [OF assms(1)] tick_stuck [OF assms(1-4)]] assms(5) by simp
    then have "current ((tick ^^ m) (tick s)) \<noteq> p" unfolding stuck_def by (elim conjE) (rule not_sym)
    then show ?thesis unfolding t Suc funpow_Suc_right by simp
  qed (use assms in simp)
qed

theorem alarmed_never_runs_witness:
  "state (procs (update_alarm (upd 2 (\<lambda>p. p\<lparr>alarm := 1\<rparr>) example_sys)) 2) = PROC_RUNNING \<and>
   (\<forall>n. current (((\<lambda>s. ret_from_int (do_timer s)) ^^ n) (upd 2 (\<lambda>p. p\<lparr>alarm := 1\<rparr>) example_sys)) \<noteq> 2)"
  using alarmed_never_runs [of "upd 2 (\<lambda>p. p\<lparr>alarm := 1\<rparr>) example_sys" 2]
    update_alarm_procs [of "upd 2 (\<lambda>p. p\<lparr>alarm := 1\<rparr>) example_sys" 2]
  by (simp add: example_sys_sel tick_alarm_def)

end
