(* ===== verification/Ctype.thy ===== *)
theory Ctype
  imports Prelude
begin

text \<open>
  Character classes (\<open>src/src/libc/ctype.c\<close>) and \<open>atoi\<close> (\<open>src/src/include/libc/stdlib.h\<close>).  A
  \<open>char\<close> is signed, so the classes see the value of the byte as a signed number; strings are
  the characters in front of the terminating zero.
\<close>

definition cint :: "char \<Rightarrow> int" where
  "cint c = sint (of_char c :: u8)"

definition isalpha :: "int \<Rightarrow> bool" where
  "isalpha c \<longleftrightarrow> cint CHR ''a'' \<le> c \<and> c \<le> cint CHR ''z'' \<or> cint CHR ''A'' \<le> c \<and> c \<le> cint CHR ''Z''"

definition isblank :: "int \<Rightarrow> bool" where
  "isblank c \<longleftrightarrow> c = cint CHR '' '' \<or> c = cint CHR 0x09"

definition isspace :: "int \<Rightarrow> bool" where
  "isspace c \<longleftrightarrow> c = cint CHR '' '' \<or> c = cint CHR 0x09 \<or> c = cint CHR 0x0A \<or> c = cint CHR 0x0B \<or>
     c = cint CHR 0x0C \<or> c = cint CHR 0x0D"

definition isdigit :: "int \<Rightarrow> bool" where
  "isdigit c \<longleftrightarrow> cint CHR ''0'' \<le> c \<and> c \<le> cint CHR ''9''"

definition isalnum :: "int \<Rightarrow> bool" where
  "isalnum c \<longleftrightarrow> isalpha c \<or> isdigit c"

definition isprint :: "int \<Rightarrow> bool" where
  "isprint c \<longleftrightarrow> 0x20 \<le> c \<and> c \<le> 0x7e"

definition iscntrl :: "int \<Rightarrow> bool" where
  "iscntrl c \<longleftrightarrow> 0 \<le> c \<and> c \<le> 0x1f \<or> c = 0x7f"

definition ispunct :: "int \<Rightarrow> bool" where
  "ispunct c \<longleftrightarrow> 0x21 \<le> c \<and> c \<le> 0x2f \<or> 0x3a \<le> c \<and> c \<le> 0x40 \<or> 0x5b \<le> c \<and> c \<le> 0x60 \<or>
     0x7b \<le> c \<and> c \<le> 0x7e"

definition islower :: "int \<Rightarrow> bool" where
  "islower c \<longleftrightarrow> cint CHR ''a'' \<le> c \<and> c \<le> cint CHR ''z''"

definition isupper :: "int \<Rightarrow> bool" where
  "isupper c \<longleftrightarrow> cint CHR ''A'' \<le> c \<and> c \<le> cint CHR ''Z''"

definition isxdigit :: "int \<Rightarrow> bool" where
  "isxdigit c \<longleftrightarrow> cint CHR ''0'' \<le> c \<and> c \<le> cint CHR ''9'' \<or> cint CHR ''A'' \<le> c \<and> c \<le> cint CHR ''F'' \<or>
     cint CHR ''a'' \<le> c \<and> c \<le> cint CHR ''f''"

definition tolower :: "int \<Rightarrow> int" where
  "tolower c = (if cint CHR ''A'' \<le> c \<and> c \<le> cint CHR ''Z'' then c + (cint CHR ''a'' - cint CHR ''A'') else c)"

definition toupper :: "int \<Rightarrow> int" where
  "toupper c = (if cint CHR ''a'' \<le> c \<and> c \<le> cint CHR ''z'' then c - (cint CHR ''a'' - cint CHR ''A'') else c)"

lemmas ctype_defs = isalpha_def isblank_def isspace_def isdigit_def isalnum_def isprint_def iscntrl_def
  ispunct_def islower_def isupper_def isxdigit_def tolower_def toupper_def

lemma cint_ascii [simp]:
  "cint CHR ''a'' = 97" "cint CHR ''z'' = 122" "cint CHR ''A'' = 65" "cint CHR ''Z'' = 90" "cint CHR ''0'' = 48"
  "cint CHR ''9'' = 57" "cint CHR '' '' = 32" "cint CHR ''F'' = 70" "cint CHR ''f'' = 102" "cint CHR ''-'' = 45"
  "cint CHR 0x09 = 9" "cint CHR 0x0A = 10" "cint CHR 0x0B = 11" "cint CHR 0x0C = 12" "cint CHR 0x0D = 13"
  by (simp_all add: cint_def)

lemma cint_digits:
  "cint CHR ''1'' = 49" "cint CHR ''2'' = 50" "cint CHR ''3'' = 51" "cint CHR ''4'' = 52" "cint CHR ''5'' = 53"
  "cint CHR ''6'' = 54" "cint CHR ''7'' = 55" "cint CHR ''8'' = 56"
  by (simp_all add: cint_def)

section \<open>atoi\<close>

fun atoi_loop :: "u32 \<Rightarrow> u32 \<Rightarrow> string \<Rightarrow> int" where
  "atoi_loop sign n [] = sint (sign * n)"
| "atoi_loop sign n (c # ptr) =
     (if c = CHR ''.'' then sint (sign * n)
      else if \<not> isdigit (cint c) then 0
      else atoi_loop sign (n * 10 + of_int (cint c) - of_int (cint CHR ''0'')) ptr)"

definition atoi :: "string \<Rightarrow> int" where
  "atoi nptr =
     (case dropWhile (\<lambda>c. isspace (cint c)) nptr of
        [] \<Rightarrow> atoi_loop 1 0 []
      | c # ptr \<Rightarrow> if c = CHR ''-'' then atoi_loop (-1) 0 ptr else atoi_loop 1 0 (c # ptr))"

section \<open>Properties\<close>

text \<open>
  The classes of \<open>ctype.c\<close> split the 7-bit codes the way the standard asks: a code is exactly
  one of control character, blank space, letter or digit, and punctuation; letters are lower or
  upper case and not both; a hexadecimal digit is a letter or a digit; converting the case of a
  letter lands in the other class and converting back gives the letter, every other code stays.
\<close>

theorem ctype_classes:
  assumes "0 \<le> c" "c < 128"
  shows "(iscntrl c \<longleftrightarrow> \<not> isprint c) \<and> (isprint c \<longleftrightarrow> c = 32 \<or> isalnum c \<or> ispunct c) \<and>
    \<not> (isalnum c \<and> ispunct c) \<and> \<not> (isalpha c \<and> isdigit c) \<and> \<not> (c = 32 \<and> (isalnum c \<or> ispunct c)) \<and>
    (isalpha c \<longleftrightarrow> islower c \<noteq> isupper c) \<and> \<not> (islower c \<and> isupper c) \<and>
    (isxdigit c \<longrightarrow> isalnum c) \<and> (isblank c \<longrightarrow> isspace c) \<and> (isspace c \<longrightarrow> c = 32 \<or> iscntrl c) \<and>
    (islower c \<longrightarrow> isupper (toupper c) \<and> tolower (toupper c) = c) \<and>
    (isupper c \<longrightarrow> islower (tolower c) \<and> toupper (tolower c) = c) \<and>
    (\<not> isalpha c \<longrightarrow> tolower c = c \<and> toupper c = c)"
  using assms unfolding ctype_defs cint_ascii by presburger

theorem ctype_classes_witness:
  "isupper (toupper 113) \<and> tolower (toupper 113) = 113 \<and> \<not> ispunct 113"
  using ctype_classes [of 113] by (simp add: ctype_defs)

end
