(* ===== verification/Vsprintf.thy ===== *)
theory Vsprintf
  imports Ctype
begin

text \<open>
  Formatted output (\<open>src/src/libc/vsprintf.c\<close>).  The buffer is a function from offsets to
  characters, the cursor \<open>str\<close> an offset; \<open>fin\<close> is the offset \<open>end\<close> points at.  The strings a call
  reads do not overlap the buffer it writes.  Reading the format behind its terminating zero is
  \<open>None\<close>.
\<close>

section \<open>Model\<close>

definition ZEROPAD :: u32 where "ZEROPAD = 1"

definition SIGN :: u32 where "SIGN = 2"

definition LEFT :: u32 where "LEFT = 16"

definition SPECIAL :: u32 where "SPECIAL = 32"

definition LARGE :: u32 where "LARGE = 64"

type_synonym out = "nat \<times> (nat \<Rightarrow> char)"

text \<open>An argument is a register or stack slot; a slot that holds a string's address also has the string.\<close>

datatype arg = Num u64 | Str u64 string

fun va_word :: "arg \<Rightarrow> u64" where
  "va_word (Num v) = v"
| "va_word (Str p s) = p"

fun va_str :: "arg \<Rightarrow> string option" where
  "va_str (Num v) = None"
| "va_str (Str p s) = Some s"

definition emit :: "char \<Rightarrow> out \<Rightarrow> out" where
  "emit c out = (Suc (fst out), (snd out)(fst out := c))"

definition small_digits :: string where
  "small_digits = ''0123456789abcdefghijklmnopqrstuvwxyz''"

definition large_digits :: string where
  "large_digits = ''0123456789ABCDEFGHIJKLMNOPQRSTUVWXYZ''"

text \<open>\<open>while (num != 0)\<close>: the digits, the last one first, as \<open>tmp\<close> gets them.\<close>

fun digit_loop :: "string \<Rightarrow> nat \<Rightarrow> nat \<Rightarrow> string" where
  "digit_loop digits base num =
     (if num = 0 \<or> base < 2 then [] else digits ! (num mod base) # digit_loop digits base (num div base))"

declare digit_loop.simps [simp del]

text \<open>The contents of \<open>tmp\<close> when the digits, the sign and the prefix have been stored.\<close>

definition number_tmp :: "u64 \<Rightarrow> nat \<Rightarrow> u32 \<Rightarrow> string" where
  "number_tmp num base type =
     (let digits = (if type AND LARGE \<noteq> 0 then large_digits else small_digits);
          neg = (type AND SIGN \<noteq> 0 \<and> sint num < 0);
          num = (if neg then - num else num);
          tmp = (if num = 0 then ''0'' else digit_loop digits base (unat num));
          tmp = (if neg then tmp @ ''-'' else tmp)
      in if type AND SPECIAL \<noteq> 0 then
           if base = 8 then tmp @ ''0'' else if base = 16 then tmp @ [digits ! 33] @ ''0'' else tmp
         else tmp)"

text \<open>The loops that write: each stops at the end of the buffer and returns the width left over.\<close>

fun pad_loop :: "nat \<Rightarrow> char \<Rightarrow> nat \<Rightarrow> out \<Rightarrow> nat \<times> out" where
  "pad_loop fin pad 0 out = (0, out)"
| "pad_loop fin pad (Suc n) out =
     (if fst out < fin then pad_loop fin pad n (emit pad out) else (Suc n, out))"

fun copy_loop :: "nat \<Rightarrow> string \<Rightarrow> nat \<Rightarrow> out \<Rightarrow> nat \<times> out" where
  "copy_loop fin (c # cs) (Suc n) out =
     (if fst out < fin then copy_loop fin cs n (emit c out) else (Suc n, out))"
| "copy_loop fin cs n out = (n, out)"

definition number :: "nat \<Rightarrow> u64 \<Rightarrow> int \<Rightarrow> int \<Rightarrow> u32 \<Rightarrow> out \<Rightarrow> out" where
  "number fin num base size' type out =
     (if base < 2 \<or> base > 36 then out
      else
        let pad = (if type AND ZEROPAD \<noteq> 0 then CHR ''0'' else CHR '' '');
            pad = (if type AND LEFT \<noteq> 0 then CHR '' '' else pad);
            tmp = number_tmp num (nat base) type;
            i = length tmp;
            width = (if size' < int i then i else nat size');
            (n, out) = (if type AND LEFT \<noteq> 0 then (width - i, out) else pad_loop fin pad (width - i) out);
            (n, out) = copy_loop fin (rev tmp) (i + n) out;
            (n, out) = pad_loop fin pad n out
        in (fst out, (snd out)(fst out := CHR 0x00)))"

fun parse_flags :: "u32 \<Rightarrow> string \<Rightarrow> u32 \<times> string" where
  "parse_flags fl [] = (fl, [])"
| "parse_flags fl (c # fmt) =
     (if c = CHR ''-'' then parse_flags (fl OR LEFT) fmt
      else if c = CHR ''0'' then parse_flags (fl OR ZEROPAD) fmt
      else (fl, c # fmt))"

fun parse_width :: "u32 \<Rightarrow> string \<Rightarrow> u32 \<times> string" where
  "parse_width field_width [] = (field_width, [])"
| "parse_width field_width (c # fmt) =
     (if isdigit (cint c)
      then parse_width (field_width * 10 + of_int (cint c) - of_int (cint CHR ''0'')) fmt
      else (field_width, c # fmt))"

datatype qualifier = QNone | Ql | QL

definition parse_qualifier :: "string \<Rightarrow> qualifier \<times> string" where
  "parse_qualifier fmt =
     (case fmt of
        c # fmt \<Rightarrow>
          if c = CHR ''l'' then
            (case fmt of
               d # fmt' \<Rightarrow> if d = CHR ''l'' then (QL, fmt') else (Ql, fmt)
             | [] \<Rightarrow> (Ql, fmt))
          else (QNone, c # fmt)
      | [] \<Rightarrow> (QNone, fmt))"

text \<open>A character behind the end of the buffer is counted but not stored.\<close>

definition emit_bounded :: "nat \<Rightarrow> char \<Rightarrow> out \<Rightarrow> out" where
  "emit_bounded fin c out = (if fst out < fin then emit c out else (Suc (fst out), snd out))"

definition put_string :: "nat \<Rightarrow> string \<Rightarrow> int \<Rightarrow> u32 \<Rightarrow> out \<Rightarrow> out" where
  "put_string fin s field_width fl out =
     (let len = length s;
          width = (if field_width < int len then len else nat field_width);
          (n, out) = (if fl AND LEFT \<noteq> 0 then (width - len, out) else pad_loop fin CHR '' '' (width - len) out);
          out = fold (emit_bounded fin) s out;
          (n, out) = pad_loop fin CHR '' '' n out
      in out)"

text \<open>\<open>tmp = va_arg(args, \<dots>)\<close>: an \<open>unsigned int\<close> is the low half of its slot.\<close>

definition va_number :: "qualifier \<Rightarrow> u64 \<Rightarrow> u64" where
  "va_number q v = (if q = QNone then ucast (ucast v :: u32) else v)"

definition conversion :: "nat \<Rightarrow> u32 \<Rightarrow> int \<Rightarrow> qualifier \<Rightarrow> char \<Rightarrow> arg list \<Rightarrow> out \<Rightarrow> (arg list \<times> out) option" where
  "conversion fin fl field_width q c args out =
     (if c = CHR ''c'' then
        (case args of [] \<Rightarrow> None
         | a # args \<Rightarrow> Some (args, emit_bounded fin (char_of (unat (va_word a) mod 256)) out))
      else if c = CHR ''s'' then
        (case args of [] \<Rightarrow> None
         | a # args \<Rightarrow> Option.bind (va_str a) (\<lambda>s. Some (args, put_string fin s field_width fl out)))
      else if c = CHR ''p'' then
        (case args of [] \<Rightarrow> None
         | a # args \<Rightarrow> Some (args, number fin (va_word a) 16 field_width (fl OR SPECIAL) out))
      else if c = CHR ''%'' then Some (args, emit_bounded fin CHR ''%'' out)
      else
        let base = (if c = CHR ''o'' then 8 else if c = CHR ''X'' \<or> c = CHR ''x'' then 16 else 10);
            fl = (if c = CHR ''X'' then fl OR LARGE else if c = CHR ''d'' \<or> c = CHR ''i'' then fl OR SIGN else fl)
        in (case args of [] \<Rightarrow> None
            | a # args \<Rightarrow> Some (args, number fin (va_number q (va_word a)) base field_width fl out)))"

definition parse_directive :: "string \<Rightarrow> u32 \<times> int \<times> qualifier \<times> string" where
  "parse_directive fmt =
     (let (fl, fmt) = parse_flags 0 fmt;
          (field_width, fmt) = parse_width 0 fmt;
          (q, fmt) = parse_qualifier fmt
      in (fl, sint field_width, q, fmt))"

lemma parse_flags_length: "length (snd (parse_flags fl fmt)) \<le> length fmt"
  by (induction fl fmt rule: parse_flags.induct) auto

lemma parse_width_length: "length (snd (parse_width w fmt)) \<le> length fmt"
  by (induction w fmt rule: parse_width.induct) auto

lemma parse_qualifier_length: "length (snd (parse_qualifier fmt)) \<le> length fmt"
  by (auto simp: parse_qualifier_def split: list.splits)

lemma parse_directive_length:
  "parse_directive fmt = (fl, w, q, c # rest) \<Longrightarrow> length rest < length fmt"
  using parse_flags_length [of 0 fmt] parse_width_length [of 0 "snd (parse_flags 0 fmt)"]
    parse_qualifier_length [of "snd (parse_width 0 (snd (parse_flags 0 fmt)))"]
  by (auto simp: parse_directive_def split: prod.splits)

text \<open>
  The loop over the format.  A directive cut off by the end of the format makes the loop step
  over the terminating zero.
\<close>

function format_loop :: "nat \<Rightarrow> string \<Rightarrow> arg list \<Rightarrow> out \<Rightarrow> out option" where
  "format_loop fin [] args out = Some out"
| "format_loop fin (c # fmt) args out =
     (if c \<noteq> CHR ''%'' then format_loop fin fmt args (emit c out)
      else case parse_directive fmt of
        (fl, w, q, []) \<Rightarrow> None
      | (fl, w, q, d # rest) \<Rightarrow>
          (case conversion fin fl w q d args out of
             None \<Rightarrow> None
           | Some (args, out) \<Rightarrow> format_loop fin rest args out))"
  by pat_completeness auto

termination
  by (relation "measure (\<lambda>(fin, fmt, args, out). length fmt)")
    (simp_all, metis parse_directive_length less_SucI)

definition vsnprintf :: "nat \<Rightarrow> string \<Rightarrow> arg list \<Rightarrow> (nat \<Rightarrow> char) \<Rightarrow> (nat \<times> (nat \<Rightarrow> char)) option" where
  "vsnprintf size' fmt args buf =
     map_option (\<lambda>out. (fst out, (snd out)(fst out := CHR 0x00))) (format_loop size' fmt args (0, buf))"

definition INT_MAX :: nat where "INT_MAX = 2 ^ 31 - 1"

definition vsprintf :: "string \<Rightarrow> arg list \<Rightarrow> (nat \<Rightarrow> char) \<Rightarrow> (nat \<times> (nat \<Rightarrow> char)) option" where
  "vsprintf fmt args buf = vsnprintf INT_MAX fmt args buf"

definition sprintf :: "string \<Rightarrow> arg list \<Rightarrow> (nat \<Rightarrow> char) \<Rightarrow> (nat \<times> (nat \<Rightarrow> char)) option" where
  "sprintf fmt args buf = vsnprintf INT_MAX fmt args buf"

section \<open>Reference\<close>

text \<open>Positional notation, the most significant digit first.\<close>

fun show_base :: "string \<Rightarrow> nat \<Rightarrow> nat \<Rightarrow> string" where
  "show_base digits base n =
     (if n < base \<or> base < 2 then [digits ! n] else show_base digits base (n div base) @ [digits ! (n mod base)])"

declare show_base.simps [simp del]

text \<open>Prefix, sign and digits of a number; its field is filled up on the left or on the right.\<close>

definition number_text :: "u64 \<Rightarrow> nat \<Rightarrow> u32 \<Rightarrow> string" where
  "number_text v base fl =
     (let digits = (if fl AND LARGE \<noteq> 0 then large_digits else small_digits);
          neg = (fl AND SIGN \<noteq> 0 \<and> sint v < 0)
      in (if fl AND SPECIAL = 0 then [] else if base = 8 then ''0'' else if base = 16 then ''0'' @ [digits ! 33] else [])
         @ (if neg then ''-'' else [])
         @ show_base digits base (if neg then nat (- sint v) else unat v))"

definition field :: "u32 \<Rightarrow> char \<Rightarrow> int \<Rightarrow> string \<Rightarrow> string" where
  "field fl pad w t =
     (let fill = replicate (nat (w - int (length t))) pad
      in if fl AND LEFT \<noteq> 0 then t @ fill else fill @ t)"

definition pad_char :: "u32 \<Rightarrow> char" where
  "pad_char fl = (if fl AND LEFT = 0 \<and> fl AND ZEROPAD \<noteq> 0 then CHR ''0'' else CHR '' '')"

definition convert :: "u32 \<Rightarrow> int \<Rightarrow> qualifier \<Rightarrow> char \<Rightarrow> arg list \<Rightarrow> (string \<times> arg list) option" where
  "convert fl w q c args =
     (if c = CHR ''%'' then Some (''%'', args)
      else case args of [] \<Rightarrow> None
      | a # args \<Rightarrow>
          if c = CHR ''c'' then Some ([char_of (unat (va_word a) mod 256)], args)
          else if c = CHR ''s'' then map_option (\<lambda>s. (field fl CHR '' '' w s, args)) (va_str a)
          else if c = CHR ''p'' then Some (field fl (pad_char fl) w (number_text (va_word a) 16 (fl OR SPECIAL)), args)
          else
            let base = (if c = CHR ''o'' then 8 else if c = CHR ''X'' \<or> c = CHR ''x'' then 16 else 10);
                fl' = (if c = CHR ''X'' then fl OR LARGE else if c = CHR ''d'' \<or> c = CHR ''i'' then fl OR SIGN else fl)
            in Some (field fl (pad_char fl) w (number_text (va_number q (va_word a)) base fl'), args))"

function render :: "string \<Rightarrow> arg list \<Rightarrow> string option" where
  "render [] args = Some []"
| "render (c # fmt) args =
     (if c \<noteq> CHR ''%'' then map_option (Cons c) (render fmt args)
      else case parse_directive fmt of
        (fl, w, q, []) \<Rightarrow> None
      | (fl, w, q, d # rest) \<Rightarrow>
          (case convert fl w q d args of
             None \<Rightarrow> None
           | Some (t, args) \<Rightarrow> map_option ((@) t) (render rest args)))"
  by pat_completeness auto

termination
  by (relation "measure (\<lambda>(fmt, args). length fmt)") (simp_all, metis parse_directive_length less_SucI)

section \<open>The buffer holds the text\<close>

text \<open>The cell under the cursor is free: \<open>number\<close> puts a zero there that the next character replaces.\<close>

definition holds :: "(nat \<Rightarrow> char) \<Rightarrow> string \<Rightarrow> out \<Rightarrow> bool" where
  "holds buf t out \<longleftrightarrow> fst out = length t \<and> (\<forall>i < length t. snd out i = t ! i) \<and> (\<forall>i > length t. snd out i = buf i)"

lemma holds_emit: "holds buf t out \<Longrightarrow> holds buf (t @ [c]) (emit c out)"
  by (auto simp: holds_def emit_def nth_append)

lemma holds_emit_bounded:
  "holds buf t out \<Longrightarrow> length t < fin \<Longrightarrow> holds buf (t @ [c]) (emit_bounded fin c out)"
  using holds_emit [of buf t out c] by (simp add: emit_bounded_def holds_def)

lemma holds_pad:
  "holds buf t out \<Longrightarrow> length t + n \<le> fin \<Longrightarrow>
     fst (pad_loop fin pad n out) = 0 \<and> holds buf (t @ replicate n pad) (snd (pad_loop fin pad n out))"
proof (induction n arbitrary: t out)
  case (Suc n)
  have "fst out < fin" using Suc.prems by (simp add: holds_def)
  then show ?case using Suc.IH [OF holds_emit [OF Suc.prems(1), of pad]] Suc.prems(2) by simp
qed simp

lemma holds_copy:
  "holds buf t out \<Longrightarrow> length t + length cs \<le> fin \<Longrightarrow>
     fst (copy_loop fin cs (length cs + n) out) = n \<and> holds buf (t @ cs) (snd (copy_loop fin cs (length cs + n) out))"
proof (induction cs arbitrary: t out)
  case (Cons c cs)
  have "fst out < fin" using Cons.prems by (simp add: holds_def)
  then show ?case using Cons.IH [OF holds_emit [OF Cons.prems(1), of c]] Cons.prems(2) by simp
qed simp

lemma holds_fold:
  "holds buf t out \<Longrightarrow> length t + length s \<le> fin \<Longrightarrow> holds buf (t @ s) (fold (emit_bounded fin) s out)"
proof (induction s arbitrary: t out)
  case (Cons c s)
  then show ?case using Cons.IH [OF holds_emit_bounded [OF Cons.prems(1), of fin c]] by simp
qed simp

lemma field_length: "length (field fl pad w t) = (if w < int (length t) then length t else nat w)"
  by (auto simp: field_def Let_def)

text \<open>The two ways of filling a field around a text, for any loop that writes the text.\<close>

lemma holds_field:
  assumes h: "holds buf t out" and fits: "length t + length (field fl pad w s) \<le> fin"
    and body: "\<And>t out n. holds buf t out \<Longrightarrow> length t + length s \<le> fin \<Longrightarrow>
      fst (body n out) = n \<and> holds buf (t @ s) (snd (body n out))"
  defines "width \<equiv> if w < int (length s) then length s else nat w"
  defines "p \<equiv> if fl AND LEFT \<noteq> 0 then (width - length s, out) else pad_loop fin pad (width - length s) out"
  shows "holds buf (t @ field fl pad w s)
    (snd (pad_loop fin pad (fst (body (fst p) (snd p))) (snd (body (fst p) (snd p)))))"
proof -
  have w: "nat (w - int (length s)) = width - length s" "length s \<le> width" by (auto simp: width_def)
  have len: "length t + width \<le> fin" using fits by (simp add: field_length width_def)
  show ?thesis
  proof (cases "fl AND LEFT = 0")
    case True
    have pl: "fst (pad_loop fin pad (width - length s) out) = 0 \<and>
        holds buf (t @ replicate (width - length s) pad) (snd (pad_loop fin pad (width - length s) out))"
      by (rule holds_pad [OF h]) (use len w in simp)
    have "fst (body 0 (snd (pad_loop fin pad (width - length s) out))) = 0 \<and>
        holds buf ((t @ replicate (width - length s) pad) @ s) (snd (body 0 (snd (pad_loop fin pad (width - length s) out))))"
      by (rule body) (use pl len w in simp_all)
    then show ?thesis using pl True by (simp add: field_def w(1) Let_def p_def)
  next
    case False
    have b: "fst (body (width - length s) out) = width - length s \<and> holds buf (t @ s) (snd (body (width - length s) out))"
      by (rule body [OF h]) (use len w in simp)
    then have "holds buf ((t @ s) @ replicate (width - length s) pad)
        (snd (pad_loop fin pad (width - length s) (snd (body (width - length s) out))))"
      using holds_pad [of buf "t @ s" "snd (body (width - length s) out)" "width - length s" fin pad] len w by simp
    then show ?thesis using b False by (simp add: field_def w(1) Let_def p_def)
  qed
qed

lemma digit_loop_show:
  assumes "2 \<le> base" "n \<noteq> 0" shows "rev (digit_loop digits base n) = show_base digits base n"
  using assms(2)
proof (induction n rule: less_induct)
  case (less n)
  show ?case
  proof (cases "n < base")
    case True
    then show ?thesis using assms(1) less.prems by (simp add: digit_loop.simps [of _ _ n] show_base.simps [of _ _ n] digit_loop.simps [of _ _ 0])
  next
    case False
    then have "n div base \<noteq> 0" "n div base < n" using assms(1) less.prems by (simp_all add: div_eq_0_iff)
    then show ?thesis using less.IH assms(1) less.prems False by (simp add: digit_loop.simps [of _ _ n] show_base.simps [of _ _ n])
  qed
qed

lemma unat_uminus_neg: "sint (v :: u64) < 0 \<Longrightarrow> unat (- v) = nat (- sint v)"
proof -
  assume "sint v < 0"
  moreover have "- (2 ^ 63) \<le> sint v" using sint_greater_eq [of v] by simp
  ultimately have "(- sint v) mod 2 ^ 64 = - sint v" by simp
  moreover have "uint (word_of_int k :: u64) = k mod 2 ^ 64" for k by (simp add: uint_word_of_int)
  ultimately have "uint (word_of_int (- sint v) :: u64) = - sint v" by metis
  then show ?thesis by (simp add: unat_eq_nat_uint)
qed

lemma show_zero:
  "2 \<le> base \<Longrightarrow> show_base large_digits base 0 = ''0''" "2 \<le> base \<Longrightarrow> show_base small_digits base 0 = ''0''"
  by (simp_all add: show_base.simps [of _ _ 0] large_digits_def small_digits_def)

lemma number_tmp_text:
  assumes "2 \<le> base" shows "rev (number_tmp v base fl) = number_text v base fl"
proof -

  have "w \<noteq> 0 \<Longrightarrow> rev (digit_loop d base (unat w)) = show_base d base (unat w)" for w :: u64 and d
    using digit_loop_show [OF assms, of "unat w" d] by (simp add: unat_eq_0)
  then show ?thesis
    using assms by (auto simp: number_tmp_def number_text_def Let_def show_zero simp flip: unat_uminus_neg)
qed

lemma flag_bits:
  "(fl OR SPECIAL) AND LEFT = fl AND LEFT" "(fl OR LARGE) AND LEFT = fl AND LEFT" "(fl OR SIGN) AND LEFT = fl AND LEFT"
  "(fl OR SPECIAL) AND ZEROPAD = fl AND ZEROPAD" "(fl OR LARGE) AND ZEROPAD = fl AND ZEROPAD"
  "(fl OR SIGN) AND ZEROPAD = fl AND ZEROPAD"
  by (simp_all add: SPECIAL_def LARGE_def SIGN_def LEFT_def ZEROPAD_def bit.conj_disj_distrib2)

lemma field_flags:
  "field (fl OR SPECIAL) = field fl" "field (fl OR LARGE) = field fl" "field (fl OR SIGN) = field fl"
  "pad_char (fl OR SPECIAL) = pad_char fl" "pad_char (fl OR LARGE) = pad_char fl" "pad_char (fl OR SIGN) = pad_char fl"
  by (simp_all add: field_def pad_char_def flag_bits fun_eq_iff)

lemma holds_number:
  assumes "holds buf t out" "2 \<le> base" "base \<le> 36"
    "length t + length (field fl (pad_char fl) w (number_text v (nat base) fl)) \<le> fin"
  shows "holds buf (t @ field fl (pad_char fl) w (number_text v (nat base) fl)) (number fin v base w fl out)"
proof -
  let ?s = "rev (number_tmp v (nat base) fl)"
  have s: "?s = number_text v (nat base) fl" by (rule number_tmp_text) (use assms(2) in simp)
  have len: "length ?s = length (number_tmp v (nat base) fl)" by simp
  note f = holds_field [OF assms(1) assms(4) [folded s], of "\<lambda>n out. copy_loop fin ?s (length ?s + n) out", OF holds_copy,
      unfolded len]
  have pc: "(if fl AND LEFT \<noteq> 0 then CHR '' '' else if fl AND ZEROPAD \<noteq> 0 then CHR ''0'' else CHR '' '') = pad_char fl"
    by (simp add: pad_char_def)
  have c: "\<not> (base < 2 \<or> 36 < base)" using assms(2,3) by simp
  have nul: "holds buf t' out' \<Longrightarrow> holds buf t' (fst out', (snd out')(fst out' := c))" for t' out' c
    by (simp add: holds_def)
  show ?thesis
    unfolding number_def Let_def case_prod_beta pc if_not_P [OF c] s [symmetric] by (rule nul [OF f])
qed

lemma holds_string:
  assumes "holds buf t out" "length t + length (field fl CHR '' '' w s) \<le> fin"
  shows "holds buf (t @ field fl CHR '' '' w s) (put_string fin s w fl out)"
  using holds_field [OF assms, of "\<lambda>n out. (n, fold (emit_bounded fin) s out)"] holds_fold
  by (simp add: put_string_def Let_def case_prod_beta)

lemma holds_conversion:
  assumes "holds buf t out" "convert fl w q c args = Some (s, args')" "length t + length s < fin"
  shows "\<exists>out'. conversion fin fl w q c args out = Some (args', out') \<and> holds buf (t @ s) out'"
proof -
  have b: "length t < fin" "length t + length s \<le> fin" using assms(3) by simp_all
  note e = holds_emit_bounded [OF assms(1) b(1)]
  let ?base = "if c = CHR ''o'' then 8 else if c = CHR ''X'' \<or> c = CHR ''x'' then 16 else 10 :: int"
  let ?fl = "if c = CHR ''X'' then fl OR LARGE else if c = CHR ''d'' \<or> c = CHR ''i'' then fl OR SIGN else fl"
  have fl: "field fl = field ?fl" "pad_char fl = pad_char ?fl" by (simp_all add: field_flags)
  have nb: "nat ?base = (if c = CHR ''o'' then 8 else if c = CHR ''X'' \<or> c = CHR ''x'' then 16 else 10)" by auto
  consider "c = CHR ''%''" | a where "args = a # args'" "c \<noteq> CHR ''%''"
    using assms(2) by (cases args) (auto simp: convert_def Let_def split: if_splits)
  then show ?thesis
  proof cases
    case 1
    then show ?thesis using assms(2) e by (auto simp: convert_def conversion_def)
  next
    case (2 a)
    consider "c = CHR ''c''" | "c = CHR ''s''" | "c = CHR ''p''" | "c \<notin> {CHR ''c'', CHR ''s'', CHR ''p''}" by auto
    then show ?thesis
    proof cases
      case 1
      then show ?thesis using assms(2) e 2(1) by (auto simp: convert_def conversion_def)
    next
      case s: 2
      then show ?thesis
        using assms(2) b(2) 2(1) holds_string [OF assms(1)]
        by (auto simp: convert_def conversion_def simp del: split_paired_Ex)
    next
      case 3
      then show ?thesis
        using assms(2) b(2) 2(1) holds_number [OF assms(1), of 16 "fl OR SPECIAL" w "va_word a" fin]
        by (auto simp: convert_def conversion_def field_flags simp del: split_paired_Ex)
    next
      case 4
      then have "s = field ?fl (pad_char ?fl) w (number_text (va_number q (va_word a)) (nat ?base) ?fl)"
        using assms(2) 2 unfolding convert_def nb fl [symmetric] by (simp add: Let_def split del: if_split)
      moreover have "conversion fin fl w q c args out = Some (args', number fin (va_number q (va_word a)) ?base w ?fl out)"
        using 2 4 by (simp add: conversion_def)
      ultimately show ?thesis
        using holds_number [OF assms(1), of ?base ?fl w "va_number q (va_word a)" fin] b(2) by simp
    qed
  qed
qed

lemma format_loop_render:
  "holds buf t out \<Longrightarrow> render fmt args = Some s \<Longrightarrow> length t + length s < fin \<Longrightarrow>
     \<exists>out'. format_loop fin fmt args out = Some out' \<and> holds buf (t @ s) out'"
proof (induction fmt args arbitrary: t s out rule: render.induct)
  case (2 c fmt args)
  show ?case
  proof (cases "c = CHR ''%''")
    case False
    with 2(4) obtain s' where s: "render fmt args = Some s'" "s = c # s'" by auto
    show ?thesis using 2(1) [OF False holds_emit [OF 2(3), of c] s(1)] 2(5) s False by simp
  next
    case True
    obtain fl w q d rest where p: "parse_directive fmt = (fl, w, q, d # rest)"
      using 2(4) True by (auto split: prod.splits list.splits)
    then obtain u args' s' where c: "convert fl w q d args = Some (u, args')" "render rest args' = Some s'" "s = u @ s'"
      using 2(4) True by (auto split: option.splits)
    obtain out' where o: "conversion fin fl w q d args out = Some (args', out')" "holds buf (t @ u) out'"
      using holds_conversion [OF 2(3) c(1), of fin] 2(5) c(3) by auto
    show ?thesis
      using 2(2) [OF _ p [symmetric] refl refl refl c(1) refl o(2) c(2)] True 2(5) c(3) p o(1) by simp
  qed
qed simp

section \<open>Numbers\<close>

lemma show_base_length:
  "2 \<le> base \<Longrightarrow> n < base ^ k \<Longrightarrow> 0 < k \<Longrightarrow> length (show_base digits base n) \<le> k"
proof (induction k arbitrary: n)
  case (Suc k)
  show ?case
  proof (cases "n < base")
    case False
    then have "0 < k" using Suc.prems(2) by (cases k) auto
    moreover have "n div base < base ^ k"
      using Suc.prems by (simp add: div_less_iff_less_mult mult.commute)
    ultimately show ?thesis using Suc.IH [of "n div base"] Suc.prems False by (simp add: show_base.simps [of _ _ n])
  qed (simp add: show_base.simps [of _ _ n])
qed simp

lemma digit_char:
  assumes "d < 10" shows "cint (small_digits ! d) = 48 + int d" "small_digits ! d \<noteq> CHR ''.''"
proof -
  have "d = 0 \<or> d = 1 \<or> d = 2 \<or> d = 3 \<or> d = 4 \<or> d = 5 \<or> d = 6 \<or> d = 7 \<or> d = 8 \<or> d = 9"
    using assms by presburger
  then show "cint (small_digits ! d) = 48 + int d" "small_digits ! d \<noteq> CHR ''.''"
    by (elim disjE; simp add: small_digits_def cint_digits)+
qed

lemma atoi_show:
  "atoi_loop s m (show_base small_digits 10 n @ r) =
     atoi_loop s (m * 10 ^ length (show_base small_digits 10 n) + of_nat n) r"
proof (induction n arbitrary: m r rule: less_induct)
  case (less n)
  have step: "d < 10 \<Longrightarrow> atoi_loop s m (small_digits ! d # r) = atoi_loop s (m * 10 + of_nat d) r" for d m r
    using digit_char [of d] by (simp add: isdigit_def)
  show ?case
  proof (cases "n < 10")
    case True
    then show ?thesis by (simp add: show_base.simps [of _ _ n] step del: atoi_loop.simps)
  next
    case False
    have "of_nat n = (of_nat (n div 10) * 10 + of_nat (n mod 10) :: u32)"
      by (metis div_mult_mod_eq of_nat_add of_nat_mult of_nat_numeral)
    then show ?thesis
      using less.IH [of "n div 10"] False
      by (simp add: show_base.simps [of _ _ n] step algebra_simps del: atoi_loop.simps)
  qed
qed

lemma show_head: "show_base small_digits 10 n = c # r \<Longrightarrow> \<exists>d < 10. c = small_digits ! d"
proof (induction n arbitrary: c r rule: less_induct)
  case (less n)
  show ?case
  proof (cases "n < 10")
    case True
    then show ?thesis using less.prems by (auto simp: show_base.simps [of _ _ n])
  next
    case False
    then have s: "show_base small_digits 10 n = show_base small_digits 10 (n div 10) @ [small_digits ! (n mod 10)]"
      by (simp add: show_base.simps [of _ _ n])
    show ?thesis
    proof (cases "show_base small_digits 10 (n div 10)")
      case Nil
      then show ?thesis using less.prems s by (auto intro: exI [of _ "n mod 10"])
    next
      case (Cons a as)
      then show ?thesis using less.IH [of "n div 10" a as] False less.prems s by simp
    qed
  qed
qed

lemma atoi_number:
  assumes "- (2 ^ 31) \<le> x" "x < (2 ^ 31 :: int)"
  shows "atoi ((if x < 0 then ''-'' else []) @ show_base small_digits 10 (nat \<bar>x\<bar>)) = x"
proof -
  have val: "sint (w :: u32) = x" if "w = of_int x" for w
    using that assms by (simp add: signed_of_int signed_take_bit_int_eq_self)
  show ?thesis
  proof (cases "x < 0")
    case True
    have "of_nat (nat \<bar>x\<bar>) = (of_int (- x) :: u32)" using True of_nat_nat [of "- x", where 'a = u32] by simp
    then show ?thesis
      using True atoi_show [of "-1" 0 "nat \<bar>x\<bar>" "[]"] val by (simp add: atoi_def isspace_def)
  next
    case False
    have nz: "show_base small_digits 10 (nat \<bar>x\<bar>) \<noteq> []" by (simp add: show_base.simps [of _ _ "nat \<bar>x\<bar>"])
    obtain c r where cr: "show_base small_digits 10 (nat \<bar>x\<bar>) = c # r" using nz by (meson neq_Nil_conv)
    then obtain d where d: "d < 10" "c = small_digits ! d" using show_head by blast
    have "\<not> isspace (cint c)" "c \<noteq> CHR ''-''"
      using digit_char(1) [OF d(1)] d(2) cint_ascii(10) by (auto simp: isspace_def)
    then have "atoi (c # r) = atoi_loop 1 0 (c # r)" by (simp add: atoi_def)
    moreover have "of_nat (nat \<bar>x\<bar>) = (of_int x :: u32)" using False of_nat_nat [of x, where 'a = u32] by simp
    ultimately show ?thesis
      using False atoi_show [of 1 0 "nat \<bar>x\<bar>" "[]"] val cr by simp
  qed
qed

lemma number_text_ld:
  "number_text v 10 SIGN = (if sint v < 0 then ''-'' else []) @ show_base small_digits 10 (nat \<bar>sint v\<bar>)"
proof -
  have "unat v = nat (sint v)" if "0 \<le> sint v"
  proof -
    have "sint v < 2 ^ 63" using sint_lt [of v] by simp
    then have "sint v mod 2 ^ 64 = sint v" using that by simp
    moreover have "uint (word_of_int k :: u64) = k mod 2 ^ 64" for k by (simp add: uint_word_of_int)
    ultimately have "uint (word_of_int (sint v) :: u64) = sint v" by metis
    then show ?thesis by (simp add: unat_eq_nat_uint)
  qed
  then show ?thesis by (auto simp: number_text_def Let_def SIGN_def LARGE_def SPECIAL_def)
qed

lemma holds_final:
  assumes "holds buf t out"
  shows "(fst out, (snd out)(fst out := CHR 0x00)) =
    (length t, \<lambda>i. if i < length t then t ! i else if i = length t then CHR 0x00 else buf i)"
  using assms by (auto simp: holds_def fun_eq_iff)

lemma digit_loop_length:
  assumes "2 \<le> base" "n < base ^ k" "0 < k" shows "length (digit_loop digits base n) \<le> k"
proof (cases "n = 0")
  case False
  have "length (digit_loop digits base n) = length (show_base digits base n)"
    using digit_loop_show [OF assms(1) False, of digits] by (metis length_rev)
  then show ?thesis using show_base_length [OF assms, of digits] by simp
qed (simp add: digit_loop.simps [of _ _ 0])

lemma vsnprintf_eq:
  assumes "render fmt args = Some t" "length t < size'"
  shows "vsnprintf size' fmt args buf =
    Some (length t, \<lambda>i. if i < length t then t ! i else if i = length t then CHR 0x00 else buf i)"
proof -
  have "holds buf [] (0, buf)" by (simp add: holds_def)
  then obtain out' where "format_loop size' fmt args (0, buf) = Some out'" "holds buf t out'"
    using format_loop_render [of buf "[]" "(0, buf)" fmt args t size'] assms by auto
  then show ?thesis unfolding vsnprintf_def by (simp only: option.map holds_final)
qed

lemma replicate_numeral: "replicate (numeral k) x = x # replicate (pred_numeral k) x"
  by (simp add: numeral_eq_Suc)

lemma example_render: "render ''%-4s%05x%%'' [Str 4096 ''ab'', Num 255] = Some ''ab  000ff%''"
  by (simp add: parse_directive_def parse_qualifier_def convert_def field_def pad_char_def number_text_def
      va_number_def show_base.simps small_digits_def LEFT_def ZEROPAD_def LARGE_def SIGN_def SPECIAL_def
      isdigit_def cint_def Let_def replicate_numeral)

section \<open>Properties\<close>





text \<open>
  The scratch array of \<open>number\<close>, 66 bytes long, never overflows: for every number, base and
  flags it holds the digits, the sign and the prefix.
\<close>

theorem number_tmp_fits:
  assumes "2 \<le> base" "base \<le> 36"
  shows "length (number_tmp num base type) \<le> 66"
proof -
  have lt: "unat v < 2 ^ 64" for v :: u64 using unsigned_less [of v] by simp
  have "(2::nat) ^ 64 \<le> base ^ 64" using assms(1) by (rule power_mono) simp
  then have any: "64 \<le> k \<Longrightarrow> length (digit_loop d base (unat v)) \<le> k" for d k and v :: u64
    using lt [of v] assms(1) by (intro order.trans [OF digit_loop_length [of base _ 64]]) simp_all
  have "22 \<le> k \<Longrightarrow> length (digit_loop d 8 (unat v)) \<le> k" "22 \<le> k \<Longrightarrow> length (digit_loop d 16 (unat v)) \<le> k"
    for d k and v :: u64
    using lt [of v] by (intro order.trans [OF digit_loop_length [of _ _ 22]]; simp)+
  with any show ?thesis by (simp add: number_tmp_def Let_def)
qed

theorem number_tmp_fits_witness: "length (number_tmp (-1) 2 SIGN) \<le> 66"
  by (rule number_tmp_fits) simp_all

text \<open>
  C27.  Ordinary characters of the format are stored without looking at the size: a format
  without directives is written to the buffer in full however small \<open>size\<close> is.
\<close>

theorem vsnprintf_ignores_size:
  assumes "CHR ''%'' \<notin> set fmt"
  shows "vsnprintf size' fmt args buf =
    Some (length fmt, \<lambda>i. if i < length fmt then fmt ! i else if i = length fmt then CHR 0x00 else buf i)"
proof -
  have "holds buf t out \<Longrightarrow> \<exists>out'. format_loop size' fmt args out = Some out' \<and> holds buf (t @ fmt) out'" for t out
    using assms
  proof (induction fmt arbitrary: t out)
    case (Cons c fmt)
    then show ?case using Cons.IH [OF holds_emit [of buf t out c]] by auto
  qed simp
  from this [of "[]" "(0, buf)"] obtain out' where "format_loop size' fmt args (0, buf) = Some out'" "holds buf fmt out'"
    by (auto simp: holds_def)
  then show ?thesis unfolding vsnprintf_def by (simp only: option.map holds_final)
qed

theorem vsnprintf_ignores_size_witness:
  "\<exists>b. vsnprintf 2 ''abcd'' [] (\<lambda>_. CHR ''?'') = Some (4, b) \<and> b 3 = CHR ''d''"
  using vsnprintf_ignores_size [of "''abcd''" 2 "[]" "\<lambda>_. CHR ''?''"] by simp

end
