(* ===== verification/Console.thy ===== *)
theory Console
  imports CString "HOL-Library.Char_ord"
begin

text \<open>
  The text screen: the kernel's console (\<open>src/src/boot/console.c\<close>).  The display controller is an
  index register and a bank of data registers behind the ports 0x3d4 and 0x3d5; the screen is the
  video memory, two bytes per cell.
\<close>

section \<open>Model\<close>

definition ROW :: int where "ROW = 25"

definition COL :: int where "COL = 80"

definition DEFAULT_VIDEO_BASE :: u64 where "DEFAULT_VIDEO_BASE = KERNEL_OFFSET + 0xb8000"

record screen =
  crt_index :: u8
  crt_regs :: "u8 \<Rightarrow> u8"
  vmem :: cmem

definition outb :: "u16 \<Rightarrow> u8 \<Rightarrow> screen \<Rightarrow> screen" where
  "outb port v s =
     (if port = 0x3d4 then s\<lparr>crt_index := v\<rparr>
      else if port = 0x3d5 then s\<lparr>crt_regs := (crt_regs s)(crt_index s := v)\<rparr>
      else s)"

definition inb :: "u16 \<Rightarrow> screen \<Rightarrow> u8" where
  "inb port s = (if port = 0x3d4 then crt_index s else if port = 0x3d5 then crt_regs s (crt_index s) else 0xff)"

definition get_cursor :: "screen \<Rightarrow> u16 \<times> screen" where
  "get_cursor s =
     (let s = outb 0x3d4 0x0e s;
          cur = ucast (inb 0x3d5 s) :: u16;
          s = outb 0x3d4 0x0f s
      in (push_bit 8 cur OR ucast (inb 0x3d5 s), s))"

definition set_cursor :: "u16 \<Rightarrow> screen \<Rightarrow> screen" where
  "set_cursor cur s =
     (let s = outb 0x3d4 0x0e s;
          s = outb 0x3d5 (ucast (drop_bit 8 cur AND 0xff)) s;
          s = outb 0x3d4 0x0f s
      in outb 0x3d5 (ucast (cur AND 0xff)) s)"

definition console_curl :: "int \<Rightarrow> screen \<Rightarrow> int \<times> screen" where
  "console_curl line s =
     (if line < 0 \<or> line > 25 then (-1, s)
      else
        let mem = memcpy DEFAULT_VIDEO_BASE (DEFAULT_VIDEO_BASE + of_int (160 * line)) (of_int (160 * (25 - line))) (vmem s);
            mem = memset (DEFAULT_VIDEO_BASE + 160 * 24) 0 160 mem
        in (0, s\<lparr>vmem := mem\<rparr>))"

text \<open>\<open>(unsigned short)c\<close> extends the sign of the character.\<close>

definition write_char :: "u8 \<Rightarrow> u8 \<Rightarrow> u16 \<Rightarrow> screen \<Rightarrow> screen" where
  "write_char c type cur s =
     (let val = scast c OR push_bit 8 (ucast type) :: u16;
          pos = ucast cur * 2 + DEFAULT_VIDEO_BASE
      in s\<lparr>vmem := (vmem s)(pos := ucast val, pos + 1 := ucast (drop_bit 8 val))\<rparr>)"

text \<open>One turn of the loop of \<open>console_write\<close>; \<open>cur\<close> is an \<open>int\<close>, divided towards zero.\<close>

definition c_div :: "int \<Rightarrow> int \<Rightarrow> int" where
  "c_div a b = sgn a * (\<bar>a\<bar> div b)"

lemma c_div_nonneg [simp]: "c_div (int n) b = int n div b"
  by (cases n) (simp_all add: c_div_def)

definition console_put :: "u8 \<Rightarrow> u8 \<Rightarrow> int \<times> screen \<Rightarrow> int \<times> screen" where
  "console_put type c = (\<lambda>(cur, s).
     let (cur, s) =
           (if c = 0x0a then ((c_div cur COL + 1) * COL, s)
            else if c = 0x09 then (cur + 4, s)
            else if c = 0x08 then (cur - 1, write_char 0x20 type (of_int (cur - 1)) s)
            else (cur + 1, write_char c type (of_int cur) s));
         (cur, s) = (if cur \<ge> ROW * COL then ((ROW - 1) * COL, snd (console_curl 1 s)) else (cur, s))
     in (cur, set_cursor (of_int cur) s))"

definition console_write :: "u8 list \<Rightarrow> u8 \<Rightarrow> screen \<Rightarrow> nat \<times> screen" where
  "console_write buf type s =
     (let (cur, s) = get_cursor s;
          (cur, s) = fold (console_put type) buf (uint cur, s)
      in (length buf, s))"

section \<open>The screen as a grid of cells\<close>

text \<open>What the controller and the video memory show: the cursor and the 2000 cells.\<close>

definition cursor :: "screen \<Rightarrow> u16" where
  "cursor s = push_bit 8 (ucast (crt_regs s 0x0e)) OR ucast (crt_regs s 0x0f)"

definition vaddr :: "nat \<Rightarrow> u64" where
  "vaddr k = DEFAULT_VIDEO_BASE + of_nat k"

definition cell :: "screen \<Rightarrow> nat \<Rightarrow> u8 \<times> u8" where
  "cell s i = (vmem s (vaddr (2 * i)), vmem s (vaddr (2 * i + 1)))"

lemma get_cursor_eq: "get_cursor s = (cursor s, s\<lparr>crt_index := 0x0f\<rparr>)"
  by (simp add: get_cursor_def outb_def inb_def cursor_def Let_def)

lemma ucast_low: "(ucast (w AND 0xff :: u16) :: u8) = ucast w"
proof -
  have "w AND 0xff = take_bit 8 w" by (simp add: take_bit_eq_mask mask_eq_exp_minus_1)
  then show ?thesis by (simp only:) (rule bit_word_eqI, auto simp: bit_simps)
qed

lemma word_split_join:
  "push_bit 8 (ucast (ucast (drop_bit 8 w AND 0xff) :: u8)) OR ucast (ucast (w AND 0xff) :: u8) = (w :: u16)"
  unfolding ucast_low by (rule bit_word_eqI) (auto simp: bit_simps)

lemma set_cursor_eq [simp]: "cursor (set_cursor c s) = c" "vmem (set_cursor c s) = vmem s" "cell (set_cursor c s) = cell s"
  by (simp_all add: set_cursor_def outb_def cursor_def cell_def Let_def word_split_join fun_eq_iff)


lemma vaddr_eq: "j < 2 ^ 64 \<Longrightarrow> k < 2 ^ 64 \<Longrightarrow> vaddr j = vaddr k \<longleftrightarrow> j = k"
  using word_unat_eq_iff [of "of_nat j :: u64" "of_nat k"] by (simp add: vaddr_def unat_of_nat)

text \<open>The attribute a character gets on the screen.\<close>

definition attr :: "u8 \<Rightarrow> u8 \<Rightarrow> u8" where
  "attr c type = (if bit c 7 then -1 else type)"

text \<open>Typing one character on a grid; backspace in the first cell has no meaning.\<close>

definition scroll :: "(nat \<Rightarrow> u8 \<times> u8) \<Rightarrow> nat \<Rightarrow> u8 \<times> u8" where
  "scroll g = (\<lambda>i. if i < 1920 then g (i + 80) else (0, 0))"

definition term_put :: "u8 \<Rightarrow> u8 \<Rightarrow> nat \<times> (nat \<Rightarrow> u8 \<times> u8) \<Rightarrow> (nat \<times> (nat \<Rightarrow> u8 \<times> u8)) option" where
  "term_put type c = (\<lambda>(cur, g).
     if c = 0x08 \<and> cur = 0 then None
     else
       let (cur, g) =
             (if c = 0x0a then ((cur div 80 + 1) * 80, g)
              else if c = 0x09 then (cur + 4, g)
              else if c = 0x08 then (cur - 1, g(cur - 1 := (0x20, attr 0x20 type)))
              else (cur + 1, g(cur := (c, attr c type))))
       in Some (if cur \<ge> 2000 then (1920, scroll g) else (cur, g)))"

fun term_write :: "u8 \<Rightarrow> u8 list \<Rightarrow> nat \<times> (nat \<Rightarrow> u8 \<times> u8) \<Rightarrow> (nat \<times> (nat \<Rightarrow> u8 \<times> u8)) option" where
  "term_write type [] t = Some t"
| "term_write type (c # cs) t = Option.bind (term_put type c t) (term_write type cs)"

text \<open>The screen shows the grid, and memory outside of it is \<open>mem\<close>'s.\<close>

definition shows_grid :: "cmem \<Rightarrow> screen \<Rightarrow> (nat \<Rightarrow> u8 \<times> u8) \<Rightarrow> bool" where
  "shows_grid mem s g \<longleftrightarrow> (\<forall>i < 2000. cell s i = g i) \<and> (\<forall>a. 4000 \<le> unat (a - DEFAULT_VIDEO_BASE) \<longrightarrow> vmem s a = mem a)"

lemma write_char_val:
  fixes c type :: u8
  defines "val \<equiv> scast c OR push_bit 8 (ucast type) :: u16"
  shows "(ucast val :: u8) = c" "(ucast (drop_bit 8 val) :: u8) = attr c type"
proof -
  show "(ucast val :: u8) = c"
    by (rule bit_word_eqI) (auto simp: val_def bit_simps)

  show "(ucast (drop_bit 8 val) :: u8) = attr c type"
    by (rule bit_word_eqI) (auto simp: val_def bit_simps attr_def)
qed

lemma write_char_vmem:
  assumes "k < 2000"
  shows "vmem (write_char c type (of_nat k) s) = (vmem s)(vaddr (2 * k) := c, vaddr (2 * k + 1) := attr c type)"
proof -
  have "(ucast (of_nat k :: u16) :: u64) = of_nat k" using assms by (simp add: word_unat_eq_iff unat_of_nat)
  then have p: "ucast (of_nat k :: u16) * 2 + DEFAULT_VIDEO_BASE = vaddr (2 * k)" by (simp add: vaddr_def)
  have q: "vaddr (2 * k) + 1 = vaddr (2 * k + 1)" by (simp add: vaddr_def)
  show ?thesis unfolding write_char_def Let_def p q write_char_val by simp
qed

lemma vaddr_offset: "k < 2 ^ 64 \<Longrightarrow> unat (vaddr k - DEFAULT_VIDEO_BASE) = k"
  by (simp add: vaddr_def unat_of_nat)

lemma shows_write:
  assumes "shows_grid mem s g" "k < 2000"
  shows "shows_grid mem (write_char c type (of_nat k) s) (g(k := (c, attr c type)))"
  unfolding shows_grid_def
proof (intro conjI allI impI)
  fix i :: nat assume i: "i < 2000"
  have e: "vaddr m = vaddr n \<longleftrightarrow> m = n" if "m < 4000" "n < 4000" for m n
    using that by (intro vaddr_eq) simp_all
  have odd: "2 * a \<noteq> 2 * b + 1" "2 * a + 1 \<noteq> 2 * b" for a b :: nat by presburger+
  show "cell (write_char c type (of_nat k) s) i = (g(k := (c, attr c type))) i"
    using assms i e [of "2 * i" "2 * k"] e [of "2 * i" "2 * k + 1"] e [of "2 * i + 1" "2 * k"] e [of "2 * i + 1" "2 * k + 1"]
      odd [of i k] odd [of k i]
    unfolding cell_def write_char_vmem [OF assms(2)] shows_grid_def by (auto simp: cell_def)
next
  fix a assume a: "4000 \<le> unat (a - DEFAULT_VIDEO_BASE)"
  then have "a \<noteq> vaddr (2 * k)" "a \<noteq> vaddr (2 * k + 1)"
    using vaddr_offset [of "2 * k"] vaddr_offset [of "2 * k + 1"] assms(2) by auto
  then show "vmem (write_char c type (of_nat k) s) a = mem a"
    using assms a unfolding write_char_vmem [OF assms(2)] shows_grid_def by simp
qed

lemma unat_sub_less:
  fixes x y n :: u64
  assumes "unat y + unat n < 2 ^ 64"
  shows "x - y < n \<longleftrightarrow> unat y \<le> unat x \<and> unat x < unat y + unat n"
proof (cases "y \<le> x")
  case True
  then show ?thesis by (auto simp: word_less_nat_alt unat_sub word_le_nat_alt)
next
  case False
  then have ne: "y - x \<noteq> 0" and yx: "x \<le> y" by auto
  have "unat (x - y) = 2 ^ 64 - unat (y - x)" using unat_uminus_sum [OF ne] by simp
  then show ?thesis using False assms unat_sub [OF yx] by (auto simp: word_less_nat_alt word_le_nat_alt)
qed

lemma curl_vmem:
  "vmem (snd (console_curl 1 s)) = (\<lambda>a. if unat (a - DEFAULT_VIDEO_BASE) < 3840 then vmem s (a + 160)
     else if unat (a - DEFAULT_VIDEO_BASE) < 4000 then 0 else vmem s a)"
proof -
  let ?b = "DEFAULT_VIDEO_BASE"
  have "forward_ok (unat (3840 :: u64)) ?b (?b + 160)"     using unat_uminus_sum [of 160] by (simp add: forward_ok_def)
  then have cp: "memcpy ?b (?b + 160) 3840 mem = copied 3840 ?b (?b + 160) mem" for mem
    using memcpy_copied [of 3840 ?b "?b + 160" mem] by simp
  have "a - (?b + 160 * 24) < 160 \<longleftrightarrow> 3840 \<le> unat (a - ?b) \<and> unat (a - ?b) < 4000" for a
  proof -
    have "a - ?b - 3840 < 160 \<longleftrightarrow> 3840 \<le> unat (a - ?b) \<and> unat (a - ?b) < 4000"
      using unat_sub_less [of 3840 160 "a - ?b"] by simp
    then show ?thesis by (simp add: diff_diff_eq)
  qed
  then have ms: "memset (?b + 160 * 24) 0 160 mem a =
      (if 3840 \<le> unat (a - ?b) \<and> unat (a - ?b) < 4000 then 0 else mem a)" for a and mem :: cmem
    using memset_eq [of 160 "?b + 160 * 24" 0 mem] by simp
  have src: "?b + 160 + (a - ?b) = a + 160" for a by simp
  have "vmem (snd (console_curl 1 s)) = memset (?b + 160 * 24) 0 160 (copied 3840 ?b (?b + 160) (vmem s))"
    by (simp add: console_curl_def Let_def cp)
  then show ?thesis unfolding fun_eq_iff ms copied_def src by auto
qed

lemma shows_curl:
  assumes "shows_grid mem s g" shows "shows_grid mem (snd (console_curl 1 s)) (scroll g)"
  unfolding shows_grid_def
proof (intro conjI allI impI)
  fix i :: nat assume i: "i < 2000"
  have "vmem (snd (console_curl 1 s)) (vaddr k) = (if k < 3840 then vmem s (vaddr (k + 160)) else 0)" if "k < 4000" for k
  proof -
    have "vaddr k + 160 = vaddr (k + 160)" by (simp add: vaddr_def)
    then show ?thesis unfolding curl_vmem using that vaddr_offset [of k] by simp
  qed
  note b = this [of "2 * i"] this [of "2 * i + 1"]
  show "cell (snd (console_curl 1 s)) i = scroll g i"
  proof (cases "i < 1920")
    case True
    then have "cell (snd (console_curl 1 s)) i = cell s (i + 80)"
      using i b by (simp add: cell_def)
    then show ?thesis using assms True by (simp add: shows_grid_def scroll_def)
  next
    case False
    then show ?thesis using i b by (simp add: cell_def scroll_def)
  qed
next
  fix a assume "4000 \<le> unat (a - DEFAULT_VIDEO_BASE)"
  then show "vmem (snd (console_curl 1 s)) a = mem a" using assms by (simp add: curl_vmem shows_grid_def)
qed

lemma shows_cursor: "shows_grid mem (set_cursor c s) g = shows_grid mem s g"
  by (simp add: shows_grid_def)

lemma put_refines:
  assumes "shows_grid mem s g" "cur < 2000" "term_put type c (cur, g) = Some (cur', g')"
  shows "\<exists>s'. console_put type c (int cur, s) = (int cur', s') \<and> cur' < 2000 \<and> shows_grid mem s' g' \<and>
    cursor s' = of_nat cur'"
proof -
  let ?r = "if c = 0x0a then ((cur div 80 + 1) * 80, g) else if c = 0x09 then (cur + 4, g)
    else if c = 0x08 then (cur - 1, g(cur - 1 := (0x20, attr 0x20 type))) else (cur + 1, g(cur := (c, attr c type)))"
  have r: "(cur', g') = (if fst ?r \<ge> 2000 then (1920, scroll (snd ?r)) else ?r)" "c = 0x08 \<Longrightarrow> 0 < cur"
    using assms(3) by (auto simp: term_put_def Let_def split: if_splits)
  have "\<exists>s1. (if c = 0x0a then ((int cur div COL + 1) * COL, s) else if c = 0x09 then (int cur + 4, s)
      else if c = 0x08 then (int cur - 1, write_char 0x20 type (of_int (int cur - 1)) s)
      else (int cur + 1, write_char c type (of_int (int cur)) s)) = (int (fst ?r), s1) \<and> shows_grid mem s1 (snd ?r)"
    using assms(1,2) r(2) shows_write [OF assms(1), where k = "cur - 1" and c = "0x20" and type = type]
      shows_write [OF assms(1,2), where c = c and type = type]
    by (auto simp: COL_def of_nat_diff zdiv_int)
  then obtain s1 where s1: "(if c = 0x0a then ((int cur div COL + 1) * COL, s) else if c = 0x09 then (int cur + 4, s)
      else if c = 0x08 then (int cur - 1, write_char 0x20 type (of_int (int cur - 1)) s)
      else (int cur + 1, write_char c type (of_int (int cur)) s)) = (int (fst ?r), s1)" "shows_grid mem s1 (snd ?r)"
    by (elim exE conjE) (rule that)
  obtain k h where kh: "?r = (k, h)" by (rule prod.exhaust)
  note s1 = s1 [unfolded kh fst_conv snd_conv] and r = r(1) [unfolded kh fst_conv snd_conv]
  show ?thesis
  proof (cases "k \<ge> 2000")
    case True
    then show ?thesis
      using r shows_curl [OF s1(2)] unfolding console_put_def case_prod_conv c_div_nonneg s1(1) Let_def
      by (simp add: ROW_def COL_def shows_cursor)
  next
    case False
    then show ?thesis
      using r s1(2) unfolding console_put_def case_prod_conv c_div_nonneg s1(1) Let_def
      by (simp add: ROW_def COL_def shows_cursor)
  qed
qed

lemma write_refines:
  "shows_grid mem s g \<Longrightarrow> cur < 2000 \<Longrightarrow> cursor s = of_nat cur \<Longrightarrow> term_write type cs (cur, g) = Some (cur', g') \<Longrightarrow>
    \<exists>s'. fold (console_put type) cs (int cur, s) = (int cur', s') \<and> cur' < 2000 \<and> shows_grid mem s' g' \<and>
      cursor s' = of_nat cur'"
proof (induction cs arbitrary: s g cur)
  case (Cons c cs)
  obtain cur1 g1 where t: "term_put type c (cur, g) = Some (cur1, g1)" "term_write type cs (cur1, g1) = Some (cur', g')"
    using Cons.prems(4) by (auto simp: bind_eq_Some_conv)
  obtain s1 where "console_put type c (int cur, s) = (int cur1, s1)" "cur1 < 2000" "shows_grid mem s1 g1"
      "cursor s1 = of_nat cur1"
    using put_refines [OF Cons.prems(1,2) t(1)] by (elim exE conjE) (rule that)
  then show ?case using Cons.IH t(2) by simp
qed simp

definition example_screen :: screen where
  "example_screen = \<lparr>crt_index = 0, crt_regs = (\<lambda>_. 0)(0x0e := 0x07, 0x0f := 0xcf), vmem = (\<lambda>_. 0x20)\<rparr>"

lemma console_write_shows:
  assumes "unat (cursor s) < 2000" "term_write type buf (unat (cursor s), cell s) = Some (cur', g')"
  shows "\<exists>s'. console_write buf type s = (length buf, s') \<and> unat (cursor s') = cur' \<and> cur' < 2000 \<and>
    (\<forall>i < 2000. cell s' i = g' i) \<and>
    (\<forall>a. 4000 \<le> unat (a - DEFAULT_VIDEO_BASE) \<longrightarrow> vmem s' a = vmem s a)"
proof -
  let ?s = "s\<lparr>crt_index := 0x0f\<rparr>"
  have g: "shows_grid (vmem s) ?s (cell s)" by (simp add: shows_grid_def cell_def)
  have c: "cursor ?s = of_nat (unat (cursor s))" by (simp add: cursor_def)
  obtain s' where s': "fold (console_put type) buf (int (unat (cursor s)), ?s) = (int cur', s')" "cur' < 2000"
      "shows_grid (vmem s) s' g'" "cursor s' = of_nat cur'"
    using write_refines [OF g assms(1) c assms(2)] by (elim exE conjE) (rule that)
  then have "unat (cursor s') = cur'" by (simp add: unat_of_nat)
  moreover have "console_write buf type s = (length buf, s')"
    using s'(1) by (simp add: console_write_def get_cursor_eq Let_def)
  ultimately show ?thesis using s'(2,3) unfolding shows_grid_def by blast
qed

section \<open>Properties\<close>



end
