(* ===== verification/Printk.thy ===== *)
theory Printk
  imports Vsprintf Console
begin

text \<open>
  The kernel's own formatted output (\<open>src/src/core/printk.c\<close>).  The file repeats the text of
  \<open>src/src/libc/vsprintf.c\<close> but for the test of the digits of a width; the definitions repeat it
  too and are proved equal to those of \<open>Vsprintf\<close>.  \<open>printk\<close> formats into a static buffer and
  writes to the console in the colour of the message's level.
\<close>

section \<open>Model\<close>

definition ZEROPAD :: u32 where "ZEROPAD = 1"

definition SIGN :: u32 where "SIGN = 2"

definition LEFT :: u32 where "LEFT = 16"

definition SPECIAL :: u32 where "SPECIAL = 32"

definition LARGE :: u32 where "LARGE = 64"

definition small_digits :: string where
  "small_digits = ''0123456789abcdefghijklmnopqrstuvwxyz''"

definition large_digits :: string where
  "large_digits = ''0123456789ABCDEFGHIJKLMNOPQRSTUVWXYZ''"

text \<open>\<open>while (num != 0)\<close>: the digits, the last one first, as \<open>tmp\<close> gets them.\<close>

fun digit_loop :: "string \<Rightarrow> nat \<Rightarrow> nat \<Rightarrow> string" where
  "digit_loop digits base num =
     (if num = 0 \<or> base < 2 then [] else digits ! (num mod base) # digit_loop digits base (num div base))"

declare digit_loop.simps [simp del]

text \<open>The contents of \<open>tmp\<close> when the digits, the sign and the prefix have been stored.\<close>

definition number_tmp :: "u64 \<Rightarrow> nat \<Rightarrow> u32 \<Rightarrow> string" where
  "number_tmp num base type =
     (let digits = (if type AND LARGE \<noteq> 0 then large_digits else small_digits);
          neg = (type AND SIGN \<noteq> 0 \<and> sint num < 0);
          num = (if neg then - num else num);
          tmp = (if num = 0 then ''0'' else digit_loop digits base (unat num));
          tmp = (if neg then tmp @ ''-'' else tmp)
      in if type AND SPECIAL \<noteq> 0 then
           if base = 8 then tmp @ ''0'' else if base = 16 then tmp @ [digits ! 33] @ ''0'' else tmp
         else tmp)"

text \<open>The loops that write: each stops at the end of the buffer and returns the width left over.\<close>

fun pad_loop :: "nat \<Rightarrow> char \<Rightarrow> nat \<Rightarrow> out \<Rightarrow> nat \<times> out" where
  "pad_loop fin pad 0 out = (0, out)"
| "pad_loop fin pad (Suc n) out =
     (if fst out < fin then pad_loop fin pad n (emit pad out) else (Suc n, out))"

fun copy_loop :: "nat \<Rightarrow> string \<Rightarrow> nat \<Rightarrow> out \<Rightarrow> nat \<times> out" where
  "copy_loop fin (c # cs) (Suc n) out =
     (if fst out < fin then copy_loop fin cs n (emit c out) else (Suc n, out))"
| "copy_loop fin cs n out = (n, out)"

definition number :: "nat \<Rightarrow> u64 \<Rightarrow> int \<Rightarrow> int \<Rightarrow> u32 \<Rightarrow> out \<Rightarrow> out" where
  "number fin num base size' type out =
     (if base < 2 \<or> base > 36 then out
      else
        let pad = (if type AND ZEROPAD \<noteq> 0 then CHR ''0'' else CHR '' '');
            pad = (if type AND LEFT \<noteq> 0 then CHR '' '' else pad);
            tmp = number_tmp num (nat base) type;
            i = length tmp;
            width = (if size' < int i then i else nat size');
            (n, out) = (if type AND LEFT \<noteq> 0 then (width - i, out) else pad_loop fin pad (width - i) out);
            (n, out) = copy_loop fin (rev tmp) (i + n) out;
            (n, out) = pad_loop fin pad n out
        in (fst out, (snd out)(fst out := CHR 0x00)))"

fun parse_flags :: "u32 \<Rightarrow> string \<Rightarrow> u32 \<times> string" where
  "parse_flags fl [] = (fl, [])"
| "parse_flags fl (c # fmt) =
     (if c = CHR ''-'' then parse_flags (fl OR LEFT) fmt
      else if c = CHR ''0'' then parse_flags (fl OR ZEROPAD) fmt
      else (fl, c # fmt))"

fun parse_width :: "u32 \<Rightarrow> string \<Rightarrow> u32 \<times> string" where
  "parse_width field_width [] = (field_width, [])"
| "parse_width field_width (c # fmt) =
     (if cint c \<ge> cint CHR ''0'' \<and> cint c \<le> cint CHR ''9''
      then parse_width (field_width * 10 + of_int (cint c) - of_int (cint CHR ''0'')) fmt
      else (field_width, c # fmt))"

definition parse_qualifier :: "string \<Rightarrow> qualifier \<times> string" where
  "parse_qualifier fmt =
     (case fmt of
        c # fmt \<Rightarrow>
          if c = CHR ''l'' then
            (case fmt of
               d # fmt' \<Rightarrow> if d = CHR ''l'' then (QL, fmt') else (Ql, fmt)
             | [] \<Rightarrow> (Ql, fmt))
          else (QNone, c # fmt)
      | [] \<Rightarrow> (QNone, fmt))"

text \<open>A character behind the end of the buffer is counted but not stored.\<close>

definition emit_bounded :: "nat \<Rightarrow> char \<Rightarrow> out \<Rightarrow> out" where
  "emit_bounded fin c out = (if fst out < fin then emit c out else (Suc (fst out), snd out))"

definition put_string :: "nat \<Rightarrow> string \<Rightarrow> int \<Rightarrow> u32 \<Rightarrow> out \<Rightarrow> out" where
  "put_string fin s field_width fl out =
     (let len = length s;
          width = (if field_width < int len then len else nat field_width);
          (n, out) = (if fl AND LEFT \<noteq> 0 then (width - len, out) else pad_loop fin CHR '' '' (width - len) out);
          out = fold (emit_bounded fin) s out;
          (n, out) = pad_loop fin CHR '' '' n out
      in out)"

text \<open>\<open>tmp = va_arg(args, \<dots>)\<close>: an \<open>unsigned int\<close> is the low half of its slot.\<close>

definition va_number :: "qualifier \<Rightarrow> u64 \<Rightarrow> u64" where
  "va_number q v = (if q = QNone then ucast (ucast v :: u32) else v)"

definition conversion :: "nat \<Rightarrow> u32 \<Rightarrow> int \<Rightarrow> qualifier \<Rightarrow> char \<Rightarrow> arg list \<Rightarrow> out \<Rightarrow> (arg list \<times> out) option" where
  "conversion fin fl field_width q c args out =
     (if c = CHR ''c'' then
        (case args of [] \<Rightarrow> None
         | a # args \<Rightarrow> Some (args, emit_bounded fin (char_of (unat (va_word a) mod 256)) out))
      else if c = CHR ''s'' then
        (case args of [] \<Rightarrow> None
         | a # args \<Rightarrow> Option.bind (va_str a) (\<lambda>s. Some (args, put_string fin s field_width fl out)))
      else if c = CHR ''p'' then
        (case args of [] \<Rightarrow> None
         | a # args \<Rightarrow> Some (args, number fin (va_word a) 16 field_width (fl OR SPECIAL) out))
      else if c = CHR ''%'' then Some (args, emit_bounded fin CHR ''%'' out)
      else
        let base = (if c = CHR ''o'' then 8 else if c = CHR ''X'' \<or> c = CHR ''x'' then 16 else 10);
            fl = (if c = CHR ''X'' then fl OR LARGE else if c = CHR ''d'' \<or> c = CHR ''i'' then fl OR SIGN else fl)
        in (case args of [] \<Rightarrow> None
            | a # args \<Rightarrow> Some (args, number fin (va_number q (va_word a)) base field_width fl out)))"

definition parse_directive :: "string \<Rightarrow> u32 \<times> int \<times> qualifier \<times> string" where
  "parse_directive fmt =
     (let (fl, fmt) = parse_flags 0 fmt;
          (field_width, fmt) = parse_width 0 fmt;
          (q, fmt) = parse_qualifier fmt
      in (fl, sint field_width, q, fmt))"

lemma kparse_flags_length: "length (snd (parse_flags fl fmt)) \<le> length fmt"
  by (induction fl fmt rule: parse_flags.induct) auto

lemma kparse_width_length: "length (snd (parse_width w fmt)) \<le> length fmt"
  by (induction w fmt rule: parse_width.induct) auto

lemma kparse_qualifier_length: "length (snd (parse_qualifier fmt)) \<le> length fmt"
  by (auto simp: parse_qualifier_def split: list.splits)

lemma kparse_directive_length:
  "parse_directive fmt = (fl, w, q, c # rest) \<Longrightarrow> length rest < length fmt"
  using kparse_flags_length [of 0 fmt] kparse_width_length [of 0 "snd (parse_flags 0 fmt)"]
    kparse_qualifier_length [of "snd (parse_width 0 (snd (parse_flags 0 fmt)))"]
  by (auto simp: parse_directive_def split: prod.splits)

text \<open>
  The loop over the format.  A directive cut off by the end of the format makes the loop step
  over the terminating zero.
\<close>

function format_loop :: "nat \<Rightarrow> string \<Rightarrow> arg list \<Rightarrow> out \<Rightarrow> out option" where
  "format_loop fin [] args out = Some out"
| "format_loop fin (c # fmt) args out =
     (if c \<noteq> CHR ''%'' then format_loop fin fmt args (emit c out)
      else case parse_directive fmt of
        (fl, w, q, []) \<Rightarrow> None
      | (fl, w, q, d # rest) \<Rightarrow>
          (case conversion fin fl w q d args out of
             None \<Rightarrow> None
           | Some (args, out) \<Rightarrow> format_loop fin rest args out))"
  by pat_completeness auto

termination
  by (relation "measure (\<lambda>(fin, fmt, args, out). length fmt)")
    (simp_all, metis kparse_directive_length less_SucI)

definition vsnprintf :: "nat \<Rightarrow> string \<Rightarrow> arg list \<Rightarrow> (nat \<Rightarrow> char) \<Rightarrow> (nat \<times> (nat \<Rightarrow> char)) option" where
  "vsnprintf size' fmt args buf =
     map_option (\<lambda>out. (fst out, (snd out)(fst out := CHR 0x00))) (format_loop size' fmt args (0, buf))"

definition vsprintf :: "string \<Rightarrow> arg list \<Rightarrow> (nat \<Rightarrow> char) \<Rightarrow> (nat \<times> (nat \<Rightarrow> char)) option" where
  "vsprintf fmt args buf = vsnprintf INT_MAX fmt args buf"

definition sprintf :: "string \<Rightarrow> arg list \<Rightarrow> (nat \<Rightarrow> char) \<Rightarrow> (nat \<times> (nat \<Rightarrow> char)) option" where
  "sprintf fmt args buf = vsnprintf INT_MAX fmt args buf"

definition printk_color :: "u8 list" where
  "printk_color = [0x0f, 0x0f, 0x0f, 0x0c, 0x0f, 0x0f, 0x0f, 0x0f]"

definition level_char :: "char \<Rightarrow> bool" where
  "level_char c \<longleftrightarrow> cint c \<ge> cint CHR ''0'' \<and> cint c \<le> 55"

definition printk :: "string \<Rightarrow> arg list \<Rightarrow> (nat \<Rightarrow> char) \<Rightarrow> screen \<Rightarrow> (nat \<times> (nat \<Rightarrow> char) \<times> screen) option" where
  "printk fmt args buf s =
     Option.bind (vsnprintf 1024 fmt args buf) (\<lambda>(len, buf).
       let prefixed = (buf 0 = CHR ''<'' \<and> level_char (buf 1) \<and> buf 2 = CHR ''>'');
           level = (if prefixed then nat (cint (buf 1) - cint CHR ''0'') else 6);
           p = (if prefixed then 3 else 0);
           len = len - p;
           (n, s) = console_write (map (\<lambda>i. of_char (buf (p + i))) [0..<len]) (printk_color ! level) s
       in Some (len, buf, s))"

section \<open>The two copies agree\<close>

named_theorems copies \<open>equations between the definitions of \<open>Printk\<close> and of \<open>Vsprintf\<close>\<close>

lemma flags_eq [copies]:
  "ZEROPAD = Vsprintf.ZEROPAD" "SIGN = Vsprintf.SIGN" "LEFT = Vsprintf.LEFT" "SPECIAL = Vsprintf.SPECIAL"
  "LARGE = Vsprintf.LARGE" "small_digits = Vsprintf.small_digits" "large_digits = Vsprintf.large_digits"
  by (simp_all add: ZEROPAD_def SIGN_def LEFT_def SPECIAL_def LARGE_def small_digits_def large_digits_def
      Vsprintf.ZEROPAD_def Vsprintf.SIGN_def Vsprintf.LEFT_def Vsprintf.SPECIAL_def Vsprintf.LARGE_def
      Vsprintf.small_digits_def Vsprintf.large_digits_def)

lemma digit_loop_eq [copies]: "digit_loop d b n = Vsprintf.digit_loop d b n"
proof (induction n rule: less_induct)
  case (less n)
  then show ?case
    by (cases "n = 0 \<or> b < 2") (simp_all add: digit_loop.simps [of _ _ n] Vsprintf.digit_loop.simps [of _ _ n])
qed

lemma loops_eq [copies]:
  "pad_loop fin pad n out = Vsprintf.pad_loop fin pad n out"
  "copy_loop fin cs m out = Vsprintf.copy_loop fin cs m out"
proof -
  show "pad_loop fin pad n out = Vsprintf.pad_loop fin pad n out"
    by (induction n arbitrary: out) simp_all
  show "copy_loop fin cs m out = Vsprintf.copy_loop fin cs m out"
    by (induction fin cs m out rule: copy_loop.induct) simp_all
qed

lemma parse_eq [copies]:
  "parse_flags fl fmt = Vsprintf.parse_flags fl fmt" "parse_width w fmt = Vsprintf.parse_width w fmt"
  "parse_qualifier fmt = Vsprintf.parse_qualifier fmt"
proof -
  show "parse_flags fl fmt = Vsprintf.parse_flags fl fmt"
    by (induction fl fmt rule: parse_flags.induct) (simp_all add: copies)
  show "parse_width w fmt = Vsprintf.parse_width w fmt"
    by (induction w fmt rule: parse_width.induct) (simp_all add: isdigit_def)
  show "parse_qualifier fmt = Vsprintf.parse_qualifier fmt"
    by (simp add: parse_qualifier_def Vsprintf.parse_qualifier_def)
qed

lemma number_eq [copies]:
  "number_tmp v base type = Vsprintf.number_tmp v base type"
  "number fin v b w type out = Vsprintf.number fin v b w type out"
  by (simp_all only: number_tmp_def number_def Vsprintf.number_tmp_def Vsprintf.number_def copies)

lemma conversion_eq [copies]:
  "parse_directive fmt = Vsprintf.parse_directive fmt"
  "conversion fin fl w q c args out = Vsprintf.conversion fin fl w q c args out"
proof -
  show "parse_directive fmt = Vsprintf.parse_directive fmt"
    by (simp only: parse_directive_def Vsprintf.parse_directive_def copies)
  have e: "emit_bounded fin = Vsprintf.emit_bounded fin" for fin
    by (simp add: fun_eq_iff emit_bounded_def Vsprintf.emit_bounded_def)
  have s: "put_string fin s w fl out = Vsprintf.put_string fin s w fl out" for s
    by (simp only: put_string_def Vsprintf.put_string_def e copies)
  have v: "va_number q v = Vsprintf.va_number q v" for v by (simp add: va_number_def Vsprintf.va_number_def)
  show "conversion fin fl w q c args out = Vsprintf.conversion fin fl w q c args out"
    by (simp only: conversion_def Vsprintf.conversion_def e s v copies)
qed

lemma format_loop_eq [copies]: "format_loop fin fmt args out = Vsprintf.format_loop fin fmt args out"
proof (induction fin fmt args out rule: format_loop.induct)
  case (2 fin c fmt args out)
  then show ?case
    by (cases "parse_directive fmt") (auto simp: copies split: list.splits option.splits)
qed simp

lemma kvsnprintf_eq: "vsnprintf n fmt args buf = Vsprintf.vsnprintf n fmt args buf"
  by (simp add: vsnprintf_def Vsprintf.vsnprintf_def copies)

section \<open>Messages on the console\<close>

fun split_level :: "string \<Rightarrow> nat \<times> string" where
  "split_level (a # b # c # t) =
     (if a = CHR ''<'' \<and> level_char b \<and> c = CHR ''>'' then (nat (cint b - 48), t) else (6, a # b # c # t))"
| "split_level t = (6, t)"

lemma printk_eq:
  assumes "render fmt args = Some t" "length t < 1024"
  shows "\<exists>buf'. printk fmt args buf s =
    Some (length (snd (split_level t)), buf',
      snd (console_write (map of_char (snd (split_level t))) (printk_color ! fst (split_level t)) s))"
proof -
  define b where "b = (\<lambda>i. if i < length t then t ! i else if i = length t then CHR 0x00 else buf i)"
  have v: "vsnprintf 1024 fmt args buf = Some (length t, b)"
    using vsnprintf_eq [OF assms] by (simp add: kvsnprintf_eq b_def)
  have at: "i < length t \<Longrightarrow> b i = t ! i" "b (length t) = CHR 0x00" for i by (simp_all add: b_def)
  have drop: "map (\<lambda>i. of_char (b (k + i)) :: u8) [0..<length t - k] = map of_char (drop k t)" for k
    by (rule nth_equalityI) (simp_all add: at)
  show ?thesis
  proof (cases "b 0 = CHR ''<'' \<and> level_char (b 1) \<and> b 2 = CHR ''>''")
    case True
    have "3 \<le> length t"
    proof (rule ccontr)
      assume "\<not> 3 \<le> length t"
      then have "length t = 0 \<or> length t = 1 \<or> length t = 2" by linarith
      moreover have "\<not> level_char CHR 0x00" by (simp add: level_char_def cint_def)
      ultimately show False using True at(2) by auto
    qed
    then obtain a c d r where t: "t = a # c # d # r"
      by (cases t; cases "tl t"; cases "tl (tl t)") auto
    have "a = CHR ''<''" "level_char c" "d = CHR ''>''" "b 1 = c"
      using True at(1) [of 0] at(1) [of 1] at(1) [of 2] by (simp_all add: t)
    then show ?thesis
      using True v drop [of 3] by (simp add: printk_def t Let_def case_prod_beta)
  next
    case False
    have "split_level t = (6, t)"
    proof (cases t rule: split_level.cases)
      case (1 a c d r)
      then show ?thesis using False at(1) [of 0] at(1) [of 1] at(1) [of 2] by auto
    qed simp_all
    then show ?thesis
      using False v drop [of 0] by (auto simp: printk_def Let_def case_prod_beta)
  qed
qed

lemma example_level: "render ''<3>%s'' [Str 4096 ''ab''] = Some ''<3>ab''"
  by (simp add: Vsprintf.parse_directive_def Vsprintf.parse_qualifier_def convert_def field_def
      Vsprintf.LEFT_def isdigit_def cint_def Let_def)

section \<open>Properties\<close>

text \<open>
  C28.  The kernel's formatter and the C library's are the same function: on every format, argument
  list, buffer and size \<open>vsnprintf\<close>, \<open>vsprintf\<close> and \<open>sprintf\<close> of \<open>printk.c\<close> return and store what
  their namesakes of \<open>vsprintf.c\<close> do.
\<close>

theorem printk_formats_like_libc:
  "vsnprintf n fmt args buf = Vsprintf.vsnprintf n fmt args buf \<and>
   vsprintf fmt args buf = Vsprintf.vsprintf fmt args buf \<and> sprintf fmt args buf = Vsprintf.sprintf fmt args buf"
  by (simp add: kvsnprintf_eq vsprintf_def Vsprintf.vsprintf_def sprintf_def Vsprintf.sprintf_def)



end
