(* ===== verification/Vga.thy ===== *)
theory Vga
  imports Console Msg
begin

text \<open>
  The display server (\<open>src/src/srv/video/vga.c\<close>).  Its screen functions repeat those of the kernel's
  console; it adds the form feed that clears the screen and the loop that serves write requests.
  The definitions follow the server's own text; the kernel's are proved equal to them.
\<close>

section \<open>Model\<close>

definition get_cursor :: "screen \<Rightarrow> u16 \<times> screen" where
  "get_cursor s =
     (let s = outb 0x3d4 0x0e s;
          cur = ucast (inb 0x3d5 s) :: u16;
          s = outb 0x3d4 0x0f s
      in (push_bit 8 cur OR ucast (inb 0x3d5 s), s))"

definition set_cursor :: "u16 \<Rightarrow> screen \<Rightarrow> screen" where
  "set_cursor cur s =
     (let s = outb 0x3d4 0x0e s;
          s = outb 0x3d5 (ucast (drop_bit 8 cur AND 0xff)) s;
          s = outb 0x3d4 0x0f s
      in outb 0x3d5 (ucast (cur AND 0xff)) s)"

definition screen_curl :: "int \<Rightarrow> screen \<Rightarrow> int \<times> screen" where
  "screen_curl line s =
     (if line < 0 \<or> line > 25 then (-1, s)
      else
        let mem = memcpy DEFAULT_VIDEO_BASE (DEFAULT_VIDEO_BASE + of_int (160 * line)) (of_int (160 * (25 - line))) (vmem s);
            mem = memset (DEFAULT_VIDEO_BASE + 160 * 24) 0 160 mem
        in (0, s\<lparr>vmem := mem\<rparr>))"

definition write_char :: "u8 \<Rightarrow> u8 \<Rightarrow> u16 \<Rightarrow> screen \<Rightarrow> screen" where
  "write_char c type cur s =
     (let val = scast c OR push_bit 8 (ucast type) :: u16;
          pos = ucast cur * 2 + DEFAULT_VIDEO_BASE
      in s\<lparr>vmem := (vmem s)(pos := ucast val, pos + 1 := ucast (drop_bit 8 val))\<rparr>)"

definition screen_clean :: "screen \<Rightarrow> screen" where
  "screen_clean s =
     (let s = fold (\<lambda>i. write_char 0x20 0x0f (of_int i)) [0 .. ROW * COL - 1] s in set_cursor 0 s)"

definition vga_put :: "u8 \<Rightarrow> u8 \<Rightarrow> int \<times> screen \<Rightarrow> int \<times> screen" where
  "vga_put type c = (\<lambda>(cur, s).
     let (cur, s) =
           (if c = 0x0a then ((c_div cur COL + 1) * COL, s)
            else if c = 0x09 then (cur + 4, s)
            else if c = 0x08 then (cur - 1, write_char 0x20 type (of_int (cur - 1)) s)
            else (cur + 1, write_char c type (of_int cur) s));
         (cur, s) = (if cur \<ge> ROW * COL then ((ROW - 1) * COL, snd (screen_curl 1 s)) else (cur, s))
     in (cur, set_cursor (of_int cur) s))"

definition vga_write :: "u8 list \<Rightarrow> u8 \<Rightarrow> screen \<Rightarrow> nat \<times> screen" where
  "vga_write buf type s =
     (if length buf = 1 \<and> buf ! 0 = 0x0c then (length buf, screen_clean s)
      else
        let (cur, s) = get_cursor s;
            (cur, s) = fold (vga_put type) buf (uint cur, s)
        in (length buf, s))"

text \<open>One turn of \<open>main\<close>: the reply's \<open>retval\<close>; \<open>mem\<close> is the memory the buffer is in.\<close>

definition vga_serve :: "cmem \<Rightarrow> message \<Rightarrow> screen \<Rightarrow> int \<times> screen" where
  "vga_serve mem m s =
     (if mtype m \<noteq> MSG_FSWRITE then (-1, s)
      else case get_fs_write m of (ino, fsize, offset, buf, sz) \<Rightarrow>
        let (n, s) = vga_write (map (\<lambda>i. mem (buf + of_nat i)) [0 ..< unat sz]) 0x0f s
        in (int n, s))"

section \<open>The kernel's console and the server\<close>

lemma same_functions:
  "get_cursor = Console.get_cursor" "set_cursor = Console.set_cursor" "screen_curl = console_curl"
  "write_char = Console.write_char" "vga_put = console_put"
proof -
  show f: "get_cursor = Console.get_cursor" "set_cursor = Console.set_cursor" "screen_curl = console_curl"
    "write_char = Console.write_char"
    by (simp_all add: fun_eq_iff get_cursor_def Console.get_cursor_def set_cursor_def Console.set_cursor_def
        screen_curl_def console_curl_def write_char_def Console.write_char_def)
  show "vga_put = console_put" by (simp add: fun_eq_iff vga_put_def console_put_def f)
qed

lemma vga_write_console: "buf \<noteq> [0x0c] \<Longrightarrow> vga_write buf type s = console_write buf type s"
  by (cases buf) (auto simp: vga_write_def console_write_def same_functions)

text \<open>The first \<open>n\<close> cells are blank.\<close>

lemma clean_cells:
  "n \<le> 2000 \<Longrightarrow> shows_grid (vmem s) (fold (\<lambda>i. Console.write_char 0x20 0x0f (of_int i)) [0 .. int n - 1] s)
     (\<lambda>i. if i < n then (0x20, 0x0f) else cell s i)"
proof (induction n)
  case 0
  then show ?case by (simp add: shows_grid_def)
next
  case (Suc n)
  let ?t = "fold (\<lambda>i. Console.write_char 0x20 0x0f (of_int i)) [0 .. int n - 1] s"
  let ?g = "\<lambda>i. if i < n then (0x20, 0x0f) else cell s i"
  have "[0 .. int (Suc n) - 1] = [0 .. int n - 1] @ [int n]" by (simp add: upto_rec2)
  then have e: "fold (\<lambda>i. Console.write_char 0x20 0x0f (of_int i)) [0 .. int (Suc n) - 1] s = Console.write_char 0x20 0x0f (of_nat n) ?t"
    by simp
  have a: "attr 0x20 0x0f = 0x0f" by (simp add: attr_def)
  have "shows_grid (vmem s) ?t ?g" using Suc by simp
  from shows_write [OF this, where k = n and c = "0x20" and type = "0x0f"] have "shows_grid (vmem s) (Console.write_char 0x20 0x0f (of_nat n) ?t) (?g(n := (0x20, 0x0f)))"
    using Suc.prems by (simp add: a)
  moreover have "?g(n := (0x20, 0x0f)) = (\<lambda>i. if i < Suc n then (0x20, 0x0f) else cell s i)" by (auto simp: fun_eq_iff less_Suc_eq)
  ultimately show ?case unfolding e by simp
qed

text \<open>
  C37. The display server writes what the kernel's console would write, for every text but a single
  form feed; that one fills the 2000 cells with blanks, puts the cursor at the start and changes no
  byte outside the screen.
\<close>

theorem vga_write_like_console:
  "(if buf = [0x0c] then
      \<exists>s'. vga_write buf type s = (1, s') \<and> cursor s' = 0 \<and> (\<forall>i < 2000. cell s' i = (0x20, 0x0f)) \<and>
        (\<forall>a. 4000 \<le> unat (a - DEFAULT_VIDEO_BASE) \<longrightarrow> vmem s' a = vmem s a)
    else vga_write buf type s = console_write buf type s)"
proof (cases "buf = [0x0c]")
  case True
  let ?t = "fold (\<lambda>i. Console.write_char 0x20 0x0f (of_int i)) [0 .. int 2000 - 1] s"
  have "shows_grid (vmem s) ?t (\<lambda>i. if i < 2000 then (0x20, 0x0f) else cell s i)" by (rule clean_cells) simp
  then have "\<forall>i < 2000. cell ?t i = (0x20, 0x0f)" "\<forall>a. 4000 \<le> unat (a - DEFAULT_VIDEO_BASE) \<longrightarrow> vmem ?t a = vmem s a"
    by (simp_all add: shows_grid_def)
  moreover have "vga_write buf type s = (1, Console.set_cursor 0 ?t)"
    using True by (simp add: vga_write_def screen_clean_def same_functions ROW_def COL_def Let_def)
  ultimately show ?thesis using True by simp
qed (simp add: vga_write_console)

theorem vga_write_like_console_witness:
  "\<exists>s'. vga_write [0x0c] 0x0f example_screen = (1, s') \<and> cursor s' = 0 \<and> cell s' 7 = (0x20, 0x0f)"
  using vga_write_like_console [of "[0x0c]" "0x0f" example_screen] by auto

end
