(* ===== verification/Keyboard.thy ===== *)
theory Keyboard
  imports CString Msg "HOL-Library.Sublist"
begin

text \<open>
  The keyboard server (\<open>src/src/srv/keyboard/keyboard.c\<close>, \<open>keyboard.h\<close>): the ring of typed
  characters, the decoding of scan codes and the read request.  A scan code is what the port 0x60
  returns at an interrupt.  \<open>None\<close> is an access outside an array.
\<close>

section \<open>Model\<close>

definition KEYBOARD_BUF_SIZE :: nat where "KEYBOARD_BUF_SIZE = 128"

definition NR_SCAN_CODES :: nat where "NR_SCAN_CODES = 0x80"

definition MAP_COLS :: nat where "MAP_COLS = 2"

definition FLAG_BREAK :: u8 where "FLAG_BREAK = 0x80"

definition keymap :: "u8 list" where
  "keymap =
    [0, 0, 0, 0, 49, 33, 50, 64, 51, 35, 52, 36, 53, 37, 54, 94,
     55, 38, 56, 42, 57, 40, 48, 41, 45, 95, 61, 43, 8, 0, 9, 0,
     113, 81, 119, 87, 101, 69, 114, 82, 116, 84, 121, 89, 117, 85, 105, 73,
     111, 79, 112, 80, 91, 123, 93, 125, 10, 0, 29, 29, 97, 65, 115, 83,
     100, 68, 102, 70, 103, 71, 104, 72, 106, 74, 107, 75, 108, 76, 59, 58,
     39, 34, 96, 126, 42, 42, 92, 124, 122, 90, 120, 88, 99, 67, 118, 86,
     98, 66, 110, 78, 109, 77, 44, 60, 46, 62, 47, 63, 54, 54, 42, 42,
     56, 56, 32, 32, 0, 0, 0, 0, 0, 0, 0, 0, 0, 0, 0, 0,
     0, 0, 0, 0, 0, 0, 0, 0, 0, 0, 0, 0, 0, 0, 55, 0,
     56, 0, 57, 0, 45, 0, 52, 0, 53, 0, 54, 0, 43, 0, 49, 0,
     50, 0, 51, 0, 48, 0, 46, 0, 0, 0, 0, 0, 0, 0, 0, 0,
     0, 0, 0, 0, 0, 0, 0, 0, 0, 0, 0, 0, 0, 0, 0, 0,
     0, 0, 0, 0, 0, 0, 0, 0, 0, 0, 0, 0, 0, 0, 0, 0,
     0, 0, 0, 0, 0, 0, 0, 0, 0, 0, 0, 0, 0, 0, 0, 0,
     0, 0, 0, 0, 0, 0, 0, 0, 0, 0, 0, 0, 0, 0, 0, 0,
     0, 0, 0, 0, 0, 0, 0, 0, 0, 0, 0, 0, 0, 0, 0, 0]"

record keyboard =
  ring :: "u8 list"
  count :: int
  head :: nat
  tail :: nat
  shift_l :: u8
  shift_r :: u8
  ctrl_l :: u8
  ctrl_r :: u8
  alt_l :: u8
  alt_r :: u8
  pre_code :: u8
  skip :: int

definition init_buf :: "keyboard \<Rightarrow> keyboard" where
  "init_buf k = k\<lparr>count := 0, head := 0, tail := 0, ring := replicate KEYBOARD_BUF_SIZE 0\<rparr>"

definition put_char :: "u8 \<Rightarrow> keyboard \<Rightarrow> keyboard option" where
  "put_char c k =
     (if count k \<ge> int KEYBOARD_BUF_SIZE then Some k
      else if tail k \<ge> length (ring k) then None
      else Some (k\<lparr>ring := (ring k)[tail k := c], tail := (tail k + 1) mod KEYBOARD_BUF_SIZE, count := count k + 1\<rparr>))"

text \<open>The loop of \<open>read_char\<close>: \<open>sz\<close> characters are at \<open>buf\<close> already.\<close>

partial_function (option) read_loop :: "u64 \<Rightarrow> u64 \<Rightarrow> nat \<Rightarrow> cmem \<Rightarrow> keyboard \<Rightarrow> (nat \<times> cmem \<times> keyboard) option" where
  "read_loop buf n sz mem k =
     (if head k \<noteq> tail k \<and> sz \<le> unat n then
        if head k \<ge> length (ring k) then None
        else read_loop buf n (sz + 1) (mem(buf + of_nat sz := ring k ! head k))
               (k\<lparr>head := (head k + 1) mod KEYBOARD_BUF_SIZE, count := count k - 1\<rparr>)
      else Some (sz, mem, k))"

definition read_char :: "u64 \<Rightarrow> u64 \<Rightarrow> cmem \<Rightarrow> keyboard \<Rightarrow> (nat \<times> cmem \<times> keyboard) option" where
  "read_char buf n mem k = read_loop buf n 0 mem k"

text \<open>\<open>pre_code\<close> is a \<open>char\<close>, compared as a signed number.\<close>

definition annlysis_scancode :: "u8 \<Rightarrow> keyboard \<Rightarrow> keyboard option" where
  "annlysis_scancode code k =
     (if code = 0xe1 then Some (k\<lparr>pre_code := 0xe1, skip := 5\<rparr>)
      else if code = 0xe0 then Some (k\<lparr>pre_code := 0xe1\<rparr>)
      else if sint (pre_code k) = 0xe1 then
        let k = k\<lparr>skip := skip k - 1\<rparr>
        in Some (if skip k = 0 then k\<lparr>pre_code := 0\<rparr> else k)
      else if sint (pre_code k) = 0xe0 then
        let k = (if code = 0x1d then k\<lparr>ctrl_r := 1\<rparr>
                 else if code = 0x9d then k\<lparr>ctrl_r := 0\<rparr>
                 else if code = 0x38 then k\<lparr>alt_r := 1\<rparr>
                 else if code = 0xb8 then k\<lparr>alt_r := 0\<rparr>
                 else k)
        in Some (k\<lparr>pre_code := 0\<rparr>)
      else
        let make = (if code AND FLAG_BREAK \<noteq> 0 then 0 else 1) :: u8;
            key = code AND 0x7f
        in if key = 0x2a then Some (k\<lparr>shift_l := make\<rparr>)
           else if key = 0x36 then Some (k\<lparr>shift_r := make\<rparr>)
           else if key = 0x1d then Some (k\<lparr>ctrl_l := make\<rparr>)
           else if key = 0x38 then Some (k\<lparr>alt_l := make\<rparr>)
           else if make = 0 then Some k
           else
             let i = unat key * MAP_COLS + unat (shift_l k OR shift_r k)
             in if i \<ge> length keymap then None
                else if keymap ! i = 0 then Some k
                else put_char (keymap ! i) k)"

text \<open>The state in which \<open>main\<close> enters its loop; static data starts as zeros.\<close>

definition kb_start :: keyboard where
  "kb_start = init_buf \<lparr>ring = replicate KEYBOARD_BUF_SIZE 0, count = 0, head = 0, tail = 0, shift_l = 0, shift_r = 0,
     ctrl_l = 0, ctrl_r = 0, alt_l = 0, alt_r = 0, pre_code = 0, skip = 0\<rparr>"

text \<open>
  A read request waits for characters.  \<open>ins\<close> are the results of the calls of \<open>_recv(IPC_INTR)\<close>:
  the scan code of an interrupt, or \<open>None\<close> for a failed call.  The result says whether the wait
  succeeded, and is \<open>None\<close> while the server waits for more interrupts than \<open>ins\<close> has.
\<close>

fun kb_wait :: "u8 option list \<Rightarrow> keyboard \<Rightarrow> (bool \<times> u8 option list \<times> keyboard) option" where
  "kb_wait ins k =
     (if count k \<noteq> 0 then Some (True, ins, k)
      else case ins of
        [] \<Rightarrow> None
      | None # ins \<Rightarrow> Some (False, ins, k)
      | Some c # ins \<Rightarrow> Option.bind (annlysis_scancode c k) (kb_wait ins))"

declare kb_wait.simps [simp del]

text \<open>The reply to a request that is no interrupt: \<open>retval\<close>, the interrupts left, memory and state.\<close>

definition kb_serve :: "message \<Rightarrow> u8 option list \<Rightarrow> cmem \<Rightarrow> keyboard \<Rightarrow> (int \<times> u8 option list \<times> cmem \<times> keyboard) option" where
  "kb_serve m ins mem k =
     (if mtype m = MSG_FSREAD then
        Option.bind (kb_wait ins k) (\<lambda>(ok, ins, k).
          if \<not> ok then Some (-1, ins, mem, k)
          else case get_fs_read m of (ino, fsize, offset, buf, sz) \<Rightarrow>
            Option.bind (read_char buf sz mem k) (\<lambda>(n, mem, k). Some (int n, ins, mem, k)))
      else Some (-1, ins, mem, k))"

section \<open>The ring as a queue\<close>

definition kb_ok :: "keyboard \<Rightarrow> bool" where
  "kb_ok k \<longleftrightarrow> length (ring k) = 128 \<and> head k < 128 \<and> 0 \<le> count k \<and> count k \<le> 128 \<and>
     tail k = (head k + nat (count k)) mod 128 \<and> shift_l k \<in> {0, 1} \<and> shift_r k \<in> {0, 1}"

definition queued :: "keyboard \<Rightarrow> u8 list" where
  "queued k = map (\<lambda>i. ring k ! ((head k + i) mod 128)) [0 ..< nat (count k)]"

lemma length_queued [simp]: "length (queued k) = nat (count k)"
  by (simp add: queued_def)

lemma ring_distinct:
  fixes h i n :: nat
  assumes "h < 128" "i < n" "n < 128"
  shows "(h + i) mod 128 \<noteq> (h + n) mod 128"
proof
  assume "(h + i) mod 128 = (h + n) mod 128"
  then have "128 dvd (h + n) - (h + i)" using assms by (intro mod_eq_dvd_iff_nat [THEN iffD1]) simp_all
  then show False using assms by (simp add: dvd_imp_le nat_dvd_not_less)
qed

lemma put_char_ok:
  assumes "kb_ok k"
  shows "\<exists>k'. put_char c k = Some k' \<and> kb_ok k' \<and> shift_l k' = shift_l k \<and> shift_r k' = shift_r k \<and>
    queued k' = (if count k = 128 then queued k else queued k @ [c])"
proof (cases "count k = 128")
  case True
  then show ?thesis using assms by (simp add: put_char_def KEYBOARD_BUF_SIZE_def)
next
  case False
  let ?n = "nat (count k)"
  let ?k = "k\<lparr>ring := (ring k)[tail k := c], tail := (tail k + 1) mod KEYBOARD_BUF_SIZE, count := count k + 1\<rparr>"
  have n: "?n < 128" "nat (count k + 1) = Suc ?n" and t: "tail k = (head k + ?n) mod 128" "tail k < 128"
    using False assms by (auto simp: kb_ok_def)
  have p: "put_char c k = Some ?k" using False assms t(2) by (simp add: put_char_def KEYBOARD_BUF_SIZE_def kb_ok_def)
  have "kb_ok ?k" using False assms n t by (auto simp: kb_ok_def KEYBOARD_BUF_SIZE_def mod_simps add.assoc)
  moreover have "(ring k)[tail k := c] ! ((head k + i) mod 128) = ring k ! ((head k + i) mod 128)" if "i < ?n" for i
    using ring_distinct [of "head k" i ?n] that n assms t by (simp add: kb_ok_def)
  then have "queued ?k = queued k @ [c]" using n t assms by (simp add: queued_def kb_ok_def)
  ultimately show ?thesis using p False by simp
qed

lemma queued_step:
  assumes "kb_ok k" "head k \<noteq> tail k"
  shows "queued k = ring k ! head k # queued (k\<lparr>head := (head k + 1) mod KEYBOARD_BUF_SIZE, count := count k - 1\<rparr>)"
    and "kb_ok (k\<lparr>head := (head k + 1) mod KEYBOARD_BUF_SIZE, count := count k - 1\<rparr>)"
    and "0 < count k" "count k < 128"
proof -
  show c: "0 < count k" "count k < 128" using assms by (auto simp: kb_ok_def le_less)
  have n: "nat (count k) = Suc (nat (count k - 1))" using c by simp
  have e: "(Suc (head k) mod 128 + i) mod 128 = Suc (head k + i) mod 128" for i by (simp add: mod_simps)
  show "queued k = ring k ! head k # queued (k\<lparr>head := (head k + 1) mod KEYBOARD_BUF_SIZE, count := count k - 1\<rparr>)"
    using assms(1) unfolding queued_def n upt_conv_Cons [OF zero_less_Suc] map_Suc_upt [symmetric]
    by (simp add: e KEYBOARD_BUF_SIZE_def kb_ok_def)
  show "kb_ok (k\<lparr>head := (head k + 1) mod KEYBOARD_BUF_SIZE, count := count k - 1\<rparr>)"
    using assms c n by (auto simp: kb_ok_def KEYBOARD_BUF_SIZE_def e)
qed

text \<open>The memory after the characters \<open>cs\<close> were written at \<open>buf + sz\<close>.\<close>

fun written :: "u64 \<Rightarrow> nat \<Rightarrow> u8 list \<Rightarrow> cmem \<Rightarrow> cmem" where
  "written buf sz [] mem = mem"
| "written buf sz (c # cs) mem = written buf (sz + 1) cs (mem(buf + of_nat sz := c))"

lemma read_loop_ok:
  assumes "kb_ok k" "count k < 128" "sz \<le> unat n + 1"
  shows "\<exists>k'. read_loop buf n sz mem k = Some (sz + length (take (unat n + 1 - sz) (queued k)),
      written buf sz (take (unat n + 1 - sz) (queued k)) mem, k') \<and>
    kb_ok k' \<and> queued k' = drop (unat n + 1 - sz) (queued k) \<and> shift_l k' = shift_l k \<and> shift_r k' = shift_r k"
  using assms
proof (induction "nat (count k)" arbitrary: k sz mem)
  case 0
  then have "head k = tail k" "queued k = []" by (simp_all add: kb_ok_def queued_def)
  then show ?case using 0 by (subst read_loop.simps) simp
next
  case (Suc c)
  have ne: "head k \<noteq> tail k" using Suc.hyps(2) Suc.prems(1,2) ring_distinct [of "head k" 0 "nat (count k)"]
    by (auto simp: kb_ok_def)
  show ?case
  proof (cases "sz \<le> unat n")
    case False
    then have "unat n + 1 - sz = 0" by simp
    then show ?thesis using Suc.prems False by (subst read_loop.simps) simp
  next
    case True
    let ?k = "k\<lparr>head := (head k + 1) mod KEYBOARD_BUF_SIZE, count := count k - 1\<rparr>"
    note q = queued_step [OF Suc.prems(1) ne]
    have d: "unat n + 1 - sz = Suc (unat n + 1 - (sz + 1))" using True by simp
    have "c = nat (count ?k)" "count ?k < 128" "sz + 1 \<le> unat n + 1" using Suc.hyps(2) q(3,4) True by simp_all
    from Suc.hyps(1) [OF this(1) q(2) this(2,3), of "mem(buf + of_nat sz := ring k ! head k)"]
    show ?thesis using ne True Suc.prems(1) unfolding d q(1)
      by (subst read_loop.simps) (auto simp: kb_ok_def)
  qed
qed

lemma read_loop_stuck: "kb_ok k \<Longrightarrow> count k = 128 \<Longrightarrow> read_char buf n mem k = Some (0, mem, k)"
  by (subst read_char_def, subst read_loop.simps) (simp add: kb_ok_def)

section \<open>The decoding of scan codes\<close>

text \<open>
  What the keys mean: only the two shift keys have a state.  The prefixes 0xe0 and 0xe1 mean nothing
  to the code after them.
\<close>

definition key_of :: "u8 \<times> u8 \<Rightarrow> u8 \<Rightarrow> u8" where
  "key_of sh code = keymap ! (2 * unat (code AND 0x7f) + (if sh = (0, 0) then 0 else 1))"

fun typed :: "u8 \<times> u8 \<Rightarrow> u8 list \<Rightarrow> u8 list" where
  "typed sh [] = []"
| "typed (l, r) (code # codes) =
     (let make = (if bit code 7 then 0 else 1) :: u8; key = code AND 0x7f in
      if code = 0xe0 \<or> code = 0xe1 then typed (l, r) codes
      else if key = 0x2a then typed (make, r) codes
      else if key = 0x36 then typed (l, make) codes
      else if key = 0x1d \<or> key = 0x38 \<or> make = 0 \<or> key_of (l, r) code = 0 then typed (l, r) codes
      else key_of (l, r) code # typed (l, r) codes)"

fun shifts :: "u8 \<times> u8 \<Rightarrow> u8 list \<Rightarrow> u8 \<times> u8" where
  "shifts sh [] = sh"
| "shifts (l, r) (code # codes) =
     (let make = (if bit code 7 then 0 else 1) :: u8; key = code AND 0x7f in
      if code = 0xe0 \<or> code = 0xe1 then shifts (l, r) codes
      else if key = 0x2a then shifts (make, r) codes
      else if key = 0x36 then shifts (l, make) codes
      else shifts (l, r) codes)"

lemma shifts_append: "shifts sh (xs @ ys) = shifts (shifts sh xs) ys"
proof (induction xs arbitrary: sh)
  case (Cons c xs)
  then show ?case by (cases sh) (simp add: Let_def)
qed simp

lemma typed_append: "typed sh (xs @ ys) = typed sh xs @ typed (shifts sh xs) ys"
proof (induction xs arbitrary: sh)
  case (Cons c xs)
  then show ?case by (cases sh) (simp add: Let_def)
qed simp

lemma length_keymap: "length keymap = 256"
  by (simp add: keymap_def)

lemma pre_code_never: "sint (c :: u8) \<noteq> 0xe1" "sint (c :: u8) \<noteq> 0xe0"
  using sint_less [of c] by auto

lemma break_bit: "(code AND FLAG_BREAK \<noteq> 0) = bit (code :: u8) 7"
proof -
  have "bit FLAG_BREAK n \<longleftrightarrow> n = 7" if "n < 8" for n
  proof -
    have "FLAG_BREAK = push_bit 7 1" by (simp add: FLAG_BREAK_def)
    then have "bit FLAG_BREAK n \<longleftrightarrow> bit (push_bit 7 1 :: u8) n" by (rule arg_cong)
    then show ?thesis using that unfolding bit_push_bit_iff by (auto simp: bit_1_iff)
  qed
  then have "code AND FLAG_BREAK = (if bit code 7 then FLAG_BREAK else 0)"
    by (intro bit_word_eqI) (auto simp: bit_and_iff)
  then show ?thesis by (simp add: FLAG_BREAK_def)
qed

lemma key_index:
  assumes "l \<in> {0, 1}" "r \<in> {0, 1}"
  shows "unat (code AND 0x7f :: u8) * MAP_COLS + unat (l OR r :: u8) = 2 * unat (code AND 0x7f) + (if (l, r) = (0, 0) then 0 else 1)"
    and "unat (code AND 0x7f :: u8) * MAP_COLS + unat (l OR r :: u8) < length keymap"
proof -
  have lr: "unat (l OR r) = (if (l, r) = (0, 0) then 0 else 1)" using assms by auto
  show "unat (code AND 0x7f :: u8) * MAP_COLS + unat (l OR r :: u8) = 2 * unat (code AND 0x7f) + (if (l, r) = (0, 0) then 0 else 1)"
    unfolding lr by (simp add: MAP_COLS_def)
  have "code AND 0x7f \<le> 0x7f" by (rule word_and_le1)
  then have "unat (code AND 0x7f) \<le> 127" by (simp add: word_le_nat_alt)
  then show "unat (code AND 0x7f :: u8) * MAP_COLS + unat (l OR r :: u8) < length keymap"
    unfolding lr length_keymap by (simp add: MAP_COLS_def)
qed

definition flags :: "keyboard \<Rightarrow> u8 \<times> u8" where "flags k = (shift_l k, shift_r k)"

text \<open>One scan code: the character it types joins the queue unless the queue is full.\<close>

lemma annlysis_ok:
  assumes "kb_ok k"
  shows "\<exists>k'. annlysis_scancode code k = Some k' \<and> kb_ok k' \<and> flags k' = shifts (flags k) [code] \<and>
    queued k' = queued k @ (if count k = 128 then [] else typed (flags k) [code])"
proof -
  note d = annlysis_scancode_def pre_code_never break_bit Let_def flags_def kb_ok_def queued_def
  consider "code = 0xe0 \<or> code = 0xe1" | "code AND 0x7f \<in> {0x2a, 0x36, 0x1d, 0x38} \<or> bit code 7" "code \<noteq> 0xe0" "code \<noteq> 0xe1"
    | "code AND 0x7f \<notin> {0x2a, 0x36, 0x1d, 0x38}" "\<not> bit code 7" "code \<noteq> 0xe0" "code \<noteq> 0xe1" by blast
  then show ?thesis
  proof cases
    case 1
    then show ?thesis using assms by (auto simp: d)
  next
    case 2
    then show ?thesis using assms by (auto simp: d)
  next
    case 3
    have s: "shift_l k \<in> {0, 1}" "shift_r k \<in> {0, 1}" using assms by (simp_all add: kb_ok_def)
    have e: "annlysis_scancode code k = (if key_of (flags k) code = 0 then Some k else put_char (key_of (flags k) code) k)"
      using 3 key_index(2) [OF s, of code] unfolding annlysis_scancode_def key_of_def key_index(1) [OF s, symmetric] flags_def
      by (simp add: pre_code_never break_bit Let_def)
    show ?thesis
    proof (cases "key_of (flags k) code = 0")
      case True
      then show ?thesis using 3 assms by (simp add: e) (simp add: flags_def Let_def)
    next
      case False
      from put_char_ok [OF assms, of "key_of (flags k) code"]
      show ?thesis using 3 False by (auto simp: e flags_def Let_def)
    qed
  qed
qed

section \<open>Sessions\<close>

text \<open>The scan codes a wait took.\<close>

definition taken :: "u8 option list \<Rightarrow> u8 option list \<Rightarrow> u8 list" where
  "taken ins rest = List.map_filter id (take (length ins - length rest) ins)"

text \<open>
  The states the server's loop reaches, with the scan codes received and the characters delivered so
  far: an interrupt, a read, any other request.
\<close>

inductive kb_trace :: "keyboard \<Rightarrow> u8 list \<Rightarrow> u8 list \<Rightarrow> bool" where
  start: "kb_trace kb_start [] []"
| intr: "kb_trace k codes out \<Longrightarrow> annlysis_scancode c k = Some k' \<Longrightarrow> kb_trace k' (codes @ [c]) out"
| read: "kb_trace k codes out \<Longrightarrow> mtype m = MSG_FSREAD \<Longrightarrow> get_fs_read m = (ino, fsize, offset, buf, sz) \<Longrightarrow>
    kb_serve m ins mem k = Some (r, rest, mem', k') \<Longrightarrow>
    kb_trace k' (codes @ taken ins rest) (out @ map (\<lambda>i. mem' (buf + of_nat i)) [0 ..< nat r])"
| other: "kb_trace k codes out \<Longrightarrow> mtype m \<noteq> MSG_FSREAD \<Longrightarrow> kb_serve m ins mem k = Some (r, rest, mem', k') \<Longrightarrow>
    kb_trace k' codes out"

lemma map_filter_Cons: "List.map_filter id (x # xs) = (case x of None \<Rightarrow> [] | Some y \<Rightarrow> [y]) @ List.map_filter id xs"
  by (simp add: List.map_filter_simps split: option.splits)

lemma kb_wait_ok:
  "kb_ok k \<Longrightarrow> kb_wait ins k = Some (ok, rest, k') \<Longrightarrow>
    kb_ok k' \<and> length rest \<le> length ins \<and> flags k' = shifts (flags k) (taken ins rest) \<and>
    queued k' = queued k @ typed (flags k) (taken ins rest) \<and> (ok \<longleftrightarrow> count k' \<noteq> 0) \<and>
    (count k' = 128 \<longleftrightarrow> count k = 128)"
proof (induction ins arbitrary: k)
  case Nil
  then show ?case by (subst (asm) kb_wait.simps) (auto simp: taken_def List.map_filter_def split: if_splits)
next
  case (Cons i ins)
  show ?case
  proof (cases "count k \<noteq> 0 \<or> i = None")
    case True
    then show ?thesis using Cons.prems by (subst (asm) kb_wait.simps)
      (auto simp: taken_def List.map_filter_def split: if_splits option.splits)
  next
    case False
    then obtain c where c: "i = Some c" "count k = 0" by auto
    obtain k1 where k1: "annlysis_scancode c k = Some k1" "kb_ok k1" "flags k1 = shifts (flags k) [c]"
      "queued k1 = queued k @ typed (flags k) [c]"
      using annlysis_ok [OF Cons.prems(1), of c] c(2) by auto
    have w: "kb_wait ins k1 = Some (ok, rest, k')" using Cons.prems(2) c k1(1) by (subst (asm) kb_wait.simps) simp
    note ih = Cons.IH [OF k1(2) w]
    have t: "taken (i # ins) rest = c # taken ins rest"
      using ih c(1) by (simp add: taken_def Suc_diff_le map_filter_Cons)
    have "length (typed (flags k) [c]) \<le> 1" by (cases "flags k") (simp add: Let_def)
    then have "nat (count k1) \<le> 1" using k1(4) c(2) length_queued [of k1] length_queued [of k] by simp
    then have "count k1 \<noteq> 128" by auto
    moreover have "flags k' = shifts (flags k) ([c] @ taken ins rest)" "queued k' = queued k @ typed (flags k) ([c] @ taken ins rest)"
      using ih unfolding shifts_append typed_append k1(3,4) by simp_all
    ultimately show ?thesis using ih c(2) unfolding t by simp
  qed
qed

lemma written_other: "a \<notin> {buf + of_nat i | i. sz \<le> i \<and> i < sz + length cs} \<Longrightarrow> written buf sz cs mem a = mem a"
proof (induction cs arbitrary: sz mem)
  case (Cons c cs)
  have "a \<noteq> buf + of_nat sz" using Cons.prems by fastforce
  moreover have "a \<notin> {buf + of_nat i | i. sz + 1 \<le> i \<and> i < sz + 1 + length cs}" using Cons.prems by auto
  ultimately show ?case using Cons.IH by simp
qed simp

lemma written_read:
  "sz + length cs \<le> 2 ^ 64 \<Longrightarrow> map (\<lambda>i. written buf sz cs mem (buf + of_nat i)) [sz ..< sz + length cs] = cs"
proof (induction cs arbitrary: sz mem)
  case (Cons c cs)
  have "(of_nat sz :: u64) \<noteq> of_nat i" if "sz + 1 \<le> i" "i < sz + 1 + length cs" for i
    using that Cons.prems by (simp add: word_unat_eq_iff unat_of_nat)
  then have "buf + of_nat sz \<notin> {buf + of_nat i | i. sz + 1 \<le> i \<and> i < sz + 1 + length cs}" by auto
  from written_other [OF this] have "written buf sz (c # cs) mem (buf + of_nat sz) = c" by simp
  moreover have "map (\<lambda>i. written buf sz (c # cs) mem (buf + of_nat i)) [sz + 1 ..< sz + 1 + length cs] = cs"
    using Cons.IH [of "sz + 1"] Cons.prems unfolding written.simps by simp
  moreover have "[sz ..< sz + length (c # cs)] = sz # [sz + 1 ..< sz + 1 + length cs]"
    by (simp add: upt_conv_Cons del: upt_Suc)
  ultimately show ?case by simp
qed simp

text \<open>A successful read, in a state that is not full and in one that is.\<close>

lemma read_char_ok:
  assumes "kb_ok k" "count k < 128"
  shows "\<exists>k'. read_char buf n mem k = Some (length (take (unat n + 1) (queued k)), written buf 0 (take (unat n + 1) (queued k)) mem, k') \<and>
    kb_ok k' \<and> queued k' = drop (unat n + 1) (queued k) \<and> flags k' = flags k"
  using read_loop_ok [OF assms, of 0 n] by (auto simp: read_char_def flags_def)

lemma delivered:
  assumes "kb_ok k" "count k < 128" "read_char buf n mem k = Some (r, mem', k')"
  shows "kb_ok k' \<and> flags k' = flags k \<and> count k' < 128 \<and> map (\<lambda>i. mem' (buf + of_nat i)) [0 ..< r] @ queued k' = queued k"
proof -
  let ?t = "take (unat n + 1) (queued k)"
  have k': "kb_ok k'" "queued k' = drop (unat n + 1) (queued k)" "flags k' = flags k" and r: "r = length ?t" "mem' = written buf 0 ?t mem"
    using read_char_ok [OF assms(1,2), of buf n mem] assms(3) by auto
  have l: "length ?t \<le> 128" using assms(2) by simp
  have "map (\<lambda>i. written buf 0 ?t mem (buf + of_nat i)) [0 ..< length ?t] = ?t"
    using written_read [of 0 ?t buf mem] l by simp
  then have "map (\<lambda>i. mem' (buf + of_nat i)) [0 ..< r] @ queued k' = queued k"
    unfolding r k' by (simp only: append_take_drop_id)
  moreover have "nat (count k') \<le> nat (count k)" using k'(2) length_queued [of k'] length_queued [of k] by simp
  then have "count k' < 128" using assms(2) by linarith
  ultimately show ?thesis using k' by simp
qed

text \<open>A read request: the characters delivered and those still queued.\<close>

lemma kb_serve_read:
  assumes "kb_ok k" "mtype m = MSG_FSREAD" "get_fs_read m = (ino, fsize, offset, buf, sz)"
    "kb_serve m ins mem k = Some (r, rest, mem', k')"
  shows "kb_ok k'" "flags k' = shifts (flags k) (taken ins rest)"
    "map (\<lambda>i. mem' (buf + of_nat i)) [0 ..< nat r] @ queued k' = queued k @ typed (flags k) (taken ins rest)"
    "count k = 128 \<Longrightarrow> count k' = 128 \<and> taken ins rest = []"
proof -
  obtain ok rest1 k1 where w: "kb_wait ins k = Some (ok, rest1, k1)"
    and v: "(if \<not> ok then Some (-1, rest1, mem, k1) else Option.bind (read_char buf sz mem k1) (\<lambda>(n, mem, k). Some (int n, rest1, mem, k))) =
      Some (r, rest, mem', k')"
    using assms(4) unfolding kb_serve_def assms(3) by (auto simp: assms(2) split: bind_splits)
  note k1 = kb_wait_ok [OF assms(1) w]
  let ?o = "map (\<lambda>i. mem' (buf + of_nat i)) [0 ..< nat r]"
  have r: "rest = rest1" using v by (auto split: if_splits bind_splits)
  have a: "kb_ok k' \<and> flags k' = flags k1 \<and> ?o @ queued k' = queued k1 \<and> (count k1 < 128 \<longrightarrow> count k' < 128) \<and> (count k1 = 128 \<longrightarrow> k' = k1)"
  proof (cases "\<not> ok \<or> count k1 = 128")
    case True
    then show ?thesis using v k1 read_loop_stuck [of k1 buf sz mem] by (auto split: if_splits)
  next
    case False
    then have "count k1 < 128" using k1 by (auto simp: kb_ok_def)
    then show ?thesis using v False delivered [of k1 buf sz mem] k1 by (auto split: bind_splits)
  qed
  show "kb_ok k'" "flags k' = shifts (flags k) (taken ins rest)" "?o @ queued k' = queued k @ typed (flags k) (taken ins rest)"
    using a k1 unfolding r by simp_all
  show "count k' = 128 \<and> taken ins rest = []" if "count k = 128"
  proof
    show "count k' = 128" using that a k1 by simp
    have "rest1 = ins" using w that by (simp add: kb_wait.simps [of ins k])
    then show "taken ins rest = []" unfolding r by (simp add: taken_def List.map_filter_def)
  qed
qed

lemma trace_ok:
  "kb_trace k codes out \<Longrightarrow> kb_ok k \<and> flags k = shifts (0, 0) codes \<and> prefix (out @ queued k) (typed (0, 0) codes) \<and>
    (count k < 128 \<longrightarrow> out @ queued k = typed (0, 0) codes)"
proof (induction rule: kb_trace.induct)
  case start
  then show ?case by (simp add: kb_start_def init_buf_def kb_ok_def queued_def flags_def KEYBOARD_BUF_SIZE_def)
next
  case (intr k codes out c k')
  have k: "kb_ok k" "flags k = shifts (0, 0) codes" "prefix (out @ queued k) (typed (0, 0) codes)"
    "count k < 128 \<longrightarrow> out @ queued k = typed (0, 0) codes" using intr.IH by auto
  have k': "kb_ok k'" "flags k' = shifts (flags k) [c]" "queued k' = queued k @ (if count k = 128 then [] else typed (flags k) [c])"
    using annlysis_ok [OF k(1), of c] intr.hyps(2) by auto
  show ?case
  proof (cases "count k = 128")
    case True
    then have "count k' = 128" using k'(3) length_queued [of k'] length_queued [of k] by simp
    then show ?thesis using True k k' by (simp add: shifts_append typed_append prefix_prefix)
  next
    case False
    then have "count k < 128" using k(1) by (simp add: kb_ok_def)
    then have "out @ queued k' = typed (0, 0) (codes @ [c])"
      using False k k'(3) unfolding typed_append k(2) [symmetric] by simp
    then show ?thesis using k'(1,2) k(2) unfolding shifts_append by simp
  qed
next
  case (read k codes out m ino fsize offset buf sz ins mem r rest mem' k')
  have k: "kb_ok k" "flags k = shifts (0, 0) codes" "prefix (out @ queued k) (typed (0, 0) codes)"
    "count k < 128 \<longrightarrow> out @ queued k = typed (0, 0) codes" using read.IH by auto
  note k' = kb_serve_read [OF k(1) read.hyps(2-4)]
  show ?case
  proof (cases "count k = 128")
    case True
    then show ?thesis using k k' by simp
  next
    case False
    then have "out @ queued k = typed (0, 0) codes" using k(1,4) by (auto simp: kb_ok_def)
    then have "(out @ map (\<lambda>i. mem' (buf + of_nat i)) [0 ..< nat r]) @ queued k' = typed (0, 0) (codes @ taken ins rest)"
      using k'(3) k(2) unfolding typed_append by simp
    then show ?thesis using k'(1,2) k(2) unfolding shifts_append by simp
  qed
next
  case (other k codes out m ins mem r rest mem' k')
  then show ?case by (simp add: kb_serve_def)
qed

text \<open>The states after nothing but interrupts.\<close>

fun feed :: "u8 list \<Rightarrow> keyboard \<Rightarrow> keyboard option" where
  "feed [] k = Some k"
| "feed (c # cs) k = Option.bind (annlysis_scancode c k) (feed cs)"

lemma feed_trace: "kb_trace k codes out \<Longrightarrow> \<exists>k'. feed cs k = Some k' \<and> kb_trace k' (codes @ cs) out \<and>
    count k' = min 128 (count k + int (length (typed (flags k) cs)))"
proof (induction cs arbitrary: k codes)
  case Nil
  then show ?case using trace_ok [OF Nil] by (auto simp: kb_ok_def)
next
  case (Cons c cs)
  note k = trace_ok [OF Cons.prems]
  obtain k1 where k1: "annlysis_scancode c k = Some k1" "kb_ok k1" "flags k1 = shifts (flags k) [c]"
    "queued k1 = queued k @ (if count k = 128 then [] else typed (flags k) [c])" using annlysis_ok [of k c] k by blast
  have l: "length (typed (flags k) [c]) \<le> 1" by (cases "flags k") (simp add: Let_def)
  have "nat (count k1) = nat (count k) + (if count k = 128 then 0 else length (typed (flags k) [c]))"
    using k1(4) length_queued [of k1] length_queued [of k] by auto
  then have c1: "count k1 = min 128 (count k + int (length (typed (flags k) [c])))"
    using k k1(2) l by (auto simp: kb_ok_def min_def split: if_splits)
  obtain k2 where k2: "feed cs k1 = Some k2" "kb_trace k2 ((codes @ [c]) @ cs) out"
    "count k2 = min 128 (count k1 + int (length (typed (flags k1) cs)))"
    using Cons.IH [OF kb_trace.intr [OF Cons.prems k1(1)]] by blast
  have "typed (flags k) (c # cs) = typed (flags k) [c] @ typed (flags k1) cs"
    using typed_append [of "flags k" "[c]" cs] k1(3) by simp
  then have "count k2 = min 128 (count k + int (length (typed (flags k) (c # cs))))" using k2(3) c1 by auto
  then show ?case using k1(1) k2(1,2) by auto
qed

section \<open>Properties\<close>

text \<open>
  C35. In every state the server reaches, the ring is well formed, and every scan code is handled
  without an access outside the keymap or the ring, into a well-formed state again; so is every read
  request when a character is waiting.
\<close>

theorem keyboard_well_formed:
  assumes "kb_trace k codes out"
  shows "kb_ok k \<and> (\<exists>k'. annlysis_scancode c k = Some k' \<and> kb_ok k') \<and>
    (count k \<noteq> 0 \<and> mtype m = MSG_FSREAD \<longrightarrow> (\<exists>r mem' k'. kb_serve m ins mem k = Some (r, ins, mem', k') \<and> kb_ok k'))"
proof (intro conjI impI)
  show k: "kb_ok k" using trace_ok [OF assms] by simp
  show "\<exists>k'. annlysis_scancode c k = Some k' \<and> kb_ok k'" using annlysis_ok [OF k] by blast
  assume "count k \<noteq> 0 \<and> mtype m = MSG_FSREAD"
  then have m: "count k \<noteq> 0" "mtype m = MSG_FSREAD" by simp_all
  obtain ino fsize offset buf sz where g: "get_fs_read m = (ino, fsize, offset, buf, sz)" by (cases "get_fs_read m")
  have "\<exists>r mem' k'. read_char buf sz mem k = Some (r, mem', k') \<and> kb_ok k'"
  proof (cases "count k = 128")
    case True
    then show ?thesis using read_loop_stuck [OF k] k by auto
  next
    case False
    then have "count k < 128" using k by (simp add: kb_ok_def)
    then show ?thesis using read_char_ok [OF k] by blast
  qed
  then show "\<exists>r mem' k'. kb_serve m ins mem k = Some (r, ins, mem', k') \<and> kb_ok k'"
    using m g by (auto simp: kb_serve_def kb_wait.simps)
qed

text \<open>A keyboard on which the key \<open>a\<close> was pressed \<open>n\<close> times.\<close>

definition pressed :: "nat \<Rightarrow> keyboard" where
  "pressed n = the (feed (replicate n 0x1e) kb_start)"

lemma typed_a: "typed (0, 0) (replicate n 0x1e) = replicate n 0x61"
  by (induction n) (simp_all add: key_of_def keymap_def Let_def)

lemma pressed_trace: "kb_trace (pressed n) (replicate n 0x1e) [] \<and> count (pressed n) = min 128 (int n)"
proof -
  have s: "count kb_start = 0" "flags kb_start = (0, 0)" by (simp_all add: kb_start_def init_buf_def flags_def)
  show ?thesis using feed_trace [OF kb_trace.start, of "replicate n 0x1e"] unfolding pressed_def s typed_a by auto
qed

definition read_request :: message where
  "read_request = (put_fs_read 0 0 0 0x5000 16 zero_message)\<lparr>mtype := MSG_FSREAD\<rparr>"

lemma mtype_read_request: "mtype read_request = MSG_FSREAD"
  by (simp add: read_request_def)

theorem keyboard_well_formed_witness:
  "kb_ok (pressed 3) \<and> (\<exists>k'. annlysis_scancode 0x2a (pressed 3) = Some k' \<and> kb_ok k') \<and>
    (\<exists>r mem' k'. kb_serve read_request [] (\<lambda>a. 0) (pressed 3) = Some (r, [], mem', k') \<and> kb_ok k')"
  using keyboard_well_formed [of "pressed 3" "replicate 3 0x1e" "[]"] pressed_trace [of 3] mtype_read_request by auto

text \<open>
  C34. What was typed is read: in every state the server reaches, the characters delivered to the
  readers followed by those in the ring are the beginning of what the received scan codes type, in
  order, and all of it as long as the ring is not full.
\<close>

theorem keyboard_delivers:
  assumes "kb_trace k codes out"
  shows "prefix (out @ queued k) (typed (0, 0) codes) \<and> (count k < 128 \<longrightarrow> out @ queued k = typed (0, 0) codes)"
  using trace_ok [OF assms] by simp

theorem keyboard_delivers_witness:
  "queued (pressed 3) = [0x61, 0x61, 0x61]"
  using keyboard_delivers [of "pressed 3" "replicate 3 0x1e" "[]"] pressed_trace [of 3] unfolding typed_a
  by (simp add: numeral_3_eq_3)

text \<open>
  C36. A full ring is never emptied: once 128 characters wait, every read returns no character and
  every scan code leaves the ring as it is.
\<close>

theorem keyboard_dead:
  assumes "kb_trace k codes out" "count k = 128" "mtype m = MSG_FSREAD"
  shows "kb_serve m ins mem k = Some (0, ins, mem, k) \<and>
    (\<exists>k'. annlysis_scancode c k = Some k' \<and> count k' = 128 \<and> queued k' = queued k)"
proof
  have k: "kb_ok k" using trace_ok [OF assms(1)] by simp
  obtain ino fsize offset buf sz where g: "get_fs_read m = (ino, fsize, offset, buf, sz)" by (cases "get_fs_read m")
  show "kb_serve m ins mem k = Some (0, ins, mem, k)"
    using read_loop_stuck [OF k assms(2)] assms(2,3) by (simp add: kb_serve_def kb_wait.simps g)
  obtain k' where k': "annlysis_scancode c k = Some k'" "kb_ok k'" "queued k' = queued k" using annlysis_ok [OF k, of c] assms(2) by auto
  then have "nat (count k') = nat (count k)" using length_queued [of k'] length_queued [of k] by simp
  then show "\<exists>k'. annlysis_scancode c k = Some k' \<and> count k' = 128 \<and> queued k' = queued k" using k' assms(2) by auto
qed

theorem keyboard_dead_witness:
  "kb_serve read_request [] (\<lambda>a. 0) (pressed 128) = Some (0, [], \<lambda>a. 0, pressed 128)"
  using keyboard_dead [of "pressed 128" "replicate 128 0x1e" "[]"] pressed_trace [of 128] mtype_read_request by simp

end
