(* ===== verification/Syscall.thy ===== *)
theory Syscall
  imports Msg
begin

text \<open>
  The system call wrappers of the C library (\<open>src/src/libc/syscall.c\<close>).  Each fills a message,
  sends it to the server in charge and returns what the reply holds.  The call \<open>_sendrecv\<close> is the
  argument \<open>sr\<close>: it takes the receiver, the message and the state \<open>'w\<close> of the rest of the system
  and gives the status, the reply and the new state.  A message on the stack starts with
  unspecified contents, the argument \<open>m\<close>.
\<close>

type_synonym 'w sendrecv = "int \<Rightarrow> message \<Rightarrow> 'w \<Rightarrow> int \<times> message \<times> 'w"

section \<open>Sending a request\<close>

definition syscall :: "'w sendrecv \<Rightarrow> int \<Rightarrow> int \<Rightarrow> message \<Rightarrow> 'w \<Rightarrow> int \<times> message \<times> 'w" where
  "syscall sr who type m w =
     (let (status, m, w) = sr who (m\<lparr>mtype := type\<rparr>) w
      in (if status \<noteq> 0 then -1 else to_int (mtype m), m, w))"

text \<open>A null argument is \<open>None\<close>; the others are replaced by their kernel addresses.\<close>

definition kmap_args ::
  "'w sendrecv \<Rightarrow> u64 option \<Rightarrow> u64 option \<Rightarrow> u64 option \<Rightarrow> 'w \<Rightarrow> int \<times> (u64 option \<times> u64 option \<times> u64 option) \<times> 'w" where
  "kmap_args sr addr1 addr2 addr3 w =
     (let m = zero_message;
          m = (case addr1 of Some a \<Rightarrow> m\<lparr>w0 := a\<rparr> | None \<Rightarrow> m);
          m = (case addr2 of Some a \<Rightarrow> m\<lparr>w1 := a\<rparr> | None \<Rightarrow> m);
          m = (case addr3 of Some a \<Rightarrow> m\<lparr>w2 := a\<rparr> | None \<Rightarrow> m);
          (r, m, w) = syscall sr IPC_MM MSG_KMAP m w;
          (a1, a2, a3) = get_kmap m
      in if r \<noteq> 0 then (-1, (addr1, addr2, addr3), w)
         else (0, (map_option (\<lambda>_. a1) addr1, map_option (\<lambda>_. a2) addr2, map_option (\<lambda>_. a3) addr3), w))"

text \<open>The common case of one address.\<close>

definition kmap1 :: "'w sendrecv \<Rightarrow> u64 \<Rightarrow> 'w \<Rightarrow> u64 option \<times> 'w" where
  "kmap1 sr buf w =
     (let (r, (a, _), w) = kmap_args sr (Some buf) None None w in (if r \<noteq> 0 then None else a, w))"

section \<open>Files\<close>

definition read :: "'w sendrecv \<Rightarrow> message \<Rightarrow> cint \<Rightarrow> u64 \<Rightarrow> u64 \<Rightarrow> 'w \<Rightarrow> int \<times> 'w" where
  "read sr m fd buf nbytes w =
     (case kmap1 sr buf w of
        (None, w) \<Rightarrow> (-1, w)
      | (Some buf, w) \<Rightarrow>
          let (r, _, w) = syscall sr IPC_VFS MSG_READ (put_read fd buf nbytes m) w in (r, w))"

definition write_fd :: "'w sendrecv \<Rightarrow> message \<Rightarrow> cint \<Rightarrow> u64 \<Rightarrow> u64 \<Rightarrow> 'w \<Rightarrow> int \<times> 'w" where
  "write_fd sr m fd buf nbytes w =
     (case kmap1 sr buf w of
        (None, w) \<Rightarrow> (-1, w)
      | (Some buf, w) \<Rightarrow>
          let (r, _, w) = syscall sr IPC_VFS MSG_WRITE (put_write fd buf nbytes m) w in (r, w))"

definition O_CREAT :: cint where "O_CREAT = 64"

text \<open>The mode is an optional argument of \<open>open\<close> that only \<open>O_CREAT\<close> makes it fetch.\<close>

definition open_file :: "'w sendrecv \<Rightarrow> message \<Rightarrow> u64 \<Rightarrow> cint \<Rightarrow> u32 \<Rightarrow> 'w \<Rightarrow> int \<times> 'w" where
  "open_file sr m path oflag mode w =
     (case kmap1 sr path w of
        (None, w) \<Rightarrow> (-1, w)
      | (Some path, w) \<Rightarrow>
          let m = put_open path oflag (if oflag AND O_CREAT \<noteq> 0 then Some mode else None) m;
              (r, _, w) = syscall sr IPC_VFS MSG_OPEN m w
          in (r, w))"

definition close :: "'w sendrecv \<Rightarrow> message \<Rightarrow> cint \<Rightarrow> 'w \<Rightarrow> int \<times> 'w" where
  "close sr m fd w = (let (r, _, w) = syscall sr IPC_VFS MSG_CLOSE (put_close fd m) w in (r, w))"

definition lseek :: "'w sendrecv \<Rightarrow> message \<Rightarrow> cint \<Rightarrow> u64 \<Rightarrow> cint \<Rightarrow> 'w \<Rightarrow> int \<times> 'w" where
  "lseek sr m fd offset whence w =
     (let (r, _, w) = syscall sr IPC_VFS MSG_LSEEK (put_lseek fd offset whence m) w in (r, w))"

text \<open>\<open>getcwd\<close> returns the caller's pointer, or null.\<close>

definition getcwd :: "'w sendrecv \<Rightarrow> message \<Rightarrow> u64 \<Rightarrow> u64 \<Rightarrow> 'w \<Rightarrow> u64 \<times> 'w" where
  "getcwd sr m buf sz w =
     (case kmap1 sr buf w of
        (None, w) \<Rightarrow> (0, w)
      | (Some b, w) \<Rightarrow>
          let (r, _, w) = syscall sr IPC_VFS MSG_GETCWD (put_getcwd b sz m) w
          in (if r \<noteq> 0 then 0 else buf, w))"

definition chdir :: "'w sendrecv \<Rightarrow> message \<Rightarrow> u64 \<Rightarrow> 'w \<Rightarrow> int \<times> 'w" where
  "chdir sr m pathname w =
     (case kmap1 sr pathname w of
        (None, w) \<Rightarrow> (-1, w)
      | (Some p, w) \<Rightarrow> let (r, _, w) = syscall sr IPC_VFS MSG_CHDIR (put_chdir p m) w in (r, w))"

definition stat :: "'w sendrecv \<Rightarrow> message \<Rightarrow> u64 \<Rightarrow> u64 \<Rightarrow> 'w \<Rightarrow> int \<times> 'w" where
  "stat sr m pathname buf w =
     (case kmap_args sr (Some pathname) (Some buf) None w of
        (r, (Some p, Some b, _), w) \<Rightarrow>
          if r \<noteq> 0 then (-1, w)
          else let (r, _, w) = syscall sr IPC_VFS MSG_STAT (put_stat p b m) w in (r, w)
      | (r, _, w) \<Rightarrow> (-1, w))"

definition getdents :: "'w sendrecv \<Rightarrow> message \<Rightarrow> cint \<Rightarrow> u64 \<Rightarrow> u64 \<Rightarrow> 'w \<Rightarrow> int \<times> 'w" where
  "getdents sr m fd dirp nbytes w =
     (case kmap1 sr dirp w of
        (None, w) \<Rightarrow> (0, w)
      | (Some p, w) \<Rightarrow> let (r, _, w) = syscall sr IPC_VFS MSG_GETDENTS (put_getdents fd p nbytes m) w in (r, w))"

definition mkdir :: "'w sendrecv \<Rightarrow> message \<Rightarrow> u64 \<Rightarrow> u32 \<Rightarrow> 'w \<Rightarrow> int \<times> 'w" where
  "mkdir sr m name mode w =
     (case kmap1 sr name w of
        (None, w) \<Rightarrow> (-1, w)
      | (Some p, w) \<Rightarrow> let (r, _, w) = syscall sr IPC_VFS MSG_MKDIR (put_mkdir p mode m) w in (r, w))"

section \<open>Processes\<close>

definition fork :: "'w sendrecv \<Rightarrow> message \<Rightarrow> 'w \<Rightarrow> int \<times> 'w" where
  "fork sr m w = (let (r, _, w) = syscall sr IPC_MM MSG_FORK m w in (r, w))"

definition exit :: "'w sendrecv \<Rightarrow> message \<Rightarrow> cint \<Rightarrow> 'w \<Rightarrow> 'w" where
  "exit sr m status w = (let (_, _, w) = syscall sr IPC_KERNEL MSG_EXIT (put_exit status m) w in w)"

definition execve :: "'w sendrecv \<Rightarrow> message \<Rightarrow> u64 \<Rightarrow> u64 \<Rightarrow> u64 \<Rightarrow> 'w \<Rightarrow> int \<times> 'w" where
  "execve sr m pathname argv envp w =
     (let (r, _, w) = syscall sr IPC_MM MSG_EXECVE (put_execve pathname argv envp m) w in (r, w))"

definition brk :: "'w sendrecv \<Rightarrow> message \<Rightarrow> u64 \<Rightarrow> 'w \<Rightarrow> int \<times> 'w" where
  "brk sr m addr w = (let (r, _, w) = syscall sr IPC_MM MSG_BRK (put_brk addr m) w in (r, w))"

text \<open>The status word is stored only through a pointer that is not null and for a child that was found.\<close>

definition wait_child :: "'w sendrecv \<Rightarrow> message \<Rightarrow> bool \<Rightarrow> 'w \<Rightarrow> int \<times> cint option \<times> 'w" where
  "wait_child sr m statloc w =
     (let (status, m, w) = syscall sr IPC_KERNEL MSG_WAIT m w
      in if status \<le> 0 then (status, None, w)
         else (status, if statloc then Some (get_wait m) else None, w))"

text \<open>\<open>sbrk\<close> moves the end of the heap, the library's variable \<open>_brk\<close>; null is failure.\<close>

definition sbrk :: "'w sendrecv \<Rightarrow> message \<Rightarrow> u64 \<Rightarrow> u64 \<times> 'w \<Rightarrow> u64 \<times> u64 \<times> 'w" where
  "sbrk sr m sz = (\<lambda>(old_brk, w).
     let new_brk = old_brk + sz
     in if old_brk = new_brk then (old_brk, old_brk, w)
        else let (r, w) = brk sr m new_brk w
          in if r \<noteq> 0 then (0, old_brk, w) else (old_brk, new_brk, w))"

definition getpid :: "'w sendrecv \<Rightarrow> message \<Rightarrow> 'w \<Rightarrow> int \<times> 'w" where
  "getpid sr m w = (let (r, _, w) = syscall sr IPC_KERNEL MSG_GETPID m w in (r, w))"

section \<open>Interrupts and the block device\<close>

definition register_irq :: "'w sendrecv \<Rightarrow> message \<Rightarrow> cint \<Rightarrow> 'w \<Rightarrow> int \<times> 'w" where
  "register_irq sr m no_intr w =
     (let (status, m, w) = sr IPC_KERNEL (put_irq IRQ_REGISTER no_intr (m\<lparr>mtype := MSG_IRQ\<rparr>)) w
      in (if status \<noteq> 0 then -1 else to_int (mtype m), w))"

definition unregister_irq :: "'w sendrecv \<Rightarrow> message \<Rightarrow> cint \<Rightarrow> 'w \<Rightarrow> int \<times> 'w" where
  "unregister_irq sr m no_intr w =
     (let (status, m, w) = sr IPC_KERNEL (put_irq IRQ_UNREGISTER no_intr (m\<lparr>mtype := MSG_IRQ\<rparr>)) w
      in (if status \<noteq> 0 then -1 else to_int (mtype m), w))"

definition bdev_read :: "'w sendrecv \<Rightarrow> message \<Rightarrow> u64 \<Rightarrow> u64 \<Rightarrow> u64 \<Rightarrow> 'w \<Rightarrow> int \<times> 'w" where
  "bdev_read sr m pos buf sz w =
     (case kmap1 sr buf w of
        (None, w) \<Rightarrow> (-1, w)
      | (Some b, w) \<Rightarrow>
          let (status, m, w) = sr IPC_DISK (put_bdev_transfer pos b sz 0 (m\<lparr>mtype := MSG_BDEV_TRANSFER\<rparr>)) w
          in (if status \<noteq> 0 then -1 else to_int (mtype m), w))"

definition bdev_write :: "'w sendrecv \<Rightarrow> message \<Rightarrow> u64 \<Rightarrow> u64 \<Rightarrow> u64 \<Rightarrow> 'w \<Rightarrow> int \<times> 'w" where
  "bdev_write sr m pos buf sz w =
     (case kmap1 sr buf w of
        (None, w) \<Rightarrow> (-1, w)
      | (Some b, w) \<Rightarrow>
          let (status, m, w) = sr IPC_DISK (put_bdev_transfer pos b sz 1 (m\<lparr>mtype := MSG_BDEV_TRANSFER\<rparr>)) w
          in (if status \<noteq> 0 then -1 else to_int (mtype m), w))"

text \<open>\<open>bdev_part_read\<close> returns a \<open>long\<close>.\<close>

definition bdev_part_read :: "'w sendrecv \<Rightarrow> message \<Rightarrow> cint \<Rightarrow> u64 \<Rightarrow> u64 \<Rightarrow> u64 \<Rightarrow> 'w \<Rightarrow> int \<times> 'w" where
  "bdev_part_read sr m part pos buf sz w =
     (case kmap1 sr buf w of
        (None, w) \<Rightarrow> (-1, w)
      | (Some b, w) \<Rightarrow>
          let (status, m, w) = sr IPC_DISK (put_bdev_part part pos b sz (m\<lparr>mtype := MSG_BDEV_PART\<rparr>)) w
          in (if status \<noteq> 0 then -1 else mtype m, w))"

end
