(* ===== verification/UserHeap.thy ===== *)
theory UserHeap
  imports Syscall Allocator "HOL-Library.Multiset"
begin

text \<open>
  The heap of the C library (\<open>src/src/libc/malloc.c\<close>).  A block of memory is described by a node;
  a node is on the list of free blocks, on the list of busy blocks, or on the list of spare nodes.
  Nodes and blocks both come from \<open>sbrk\<close>.  The rings of nodes are lists of node addresses, the
  fields \<open>ptr\<close> and \<open>size\<close> a store by node address.

  The free list is sorted by address and has no two adjacent blocks; the blocks handed out are
  disjoint from each other, from the free ones and from the nodes.
\<close>

record m_node =
  ptr :: u64
  nsize :: u64

record 'w uheap =
  m_nodes :: "u64 \<Rightarrow> m_node"
  m_free_node :: "u64 list"
  m_free :: "u64 list"
  m_busy :: "u64 list"
  ubrk :: u64
  world :: 'w

definition EACH_BRK :: u64 where "EACH_BRK = 0x2000"

definition NODE_INC_SIZE :: nat where "NODE_INC_SIZE = 1024"

definition NODE_SIZE :: nat where "NODE_SIZE = 32"

definition upd_node :: "u64 \<Rightarrow> (m_node \<Rightarrow> m_node) \<Rightarrow> 'w uheap \<Rightarrow> 'w uheap" where
  "upd_node n f h = h\<lparr>m_nodes := (m_nodes h)(n := f (m_nodes h n))\<rparr>"

text \<open>\<open>sbrk\<close> on the heap's state; null is failure.\<close>

definition heap_sbrk :: "'w sendrecv \<Rightarrow> message \<Rightarrow> u64 \<Rightarrow> 'w uheap \<Rightarrow> u64 \<times> 'w uheap" where
  "heap_sbrk sr m sz h = (let (p, b, w) = sbrk sr m sz (ubrk h, world h) in (p, h\<lparr>ubrk := b, world := w\<rparr>))"

text \<open>The addresses of an array of nodes.\<close>

definition node_array :: "u64 \<Rightarrow> u64 list" where
  "node_array p = map (\<lambda>i. p + of_nat (NODE_SIZE * i)) [0..<NODE_INC_SIZE]"

definition take_node :: "'w uheap \<Rightarrow> u64 \<times> 'w uheap" where
  "take_node h =
     (let node = hd (m_free_node h)
      in (node, upd_node node (\<lambda>_. \<lparr>ptr = 0, nsize = 0\<rparr>) (h\<lparr>m_free_node := tl (m_free_node h)\<rparr>)))"

definition alloc_node :: "'w sendrecv \<Rightarrow> message \<Rightarrow> 'w uheap \<Rightarrow> u64 \<times> 'w uheap" where
  "alloc_node sr m h =
     (if m_free_node h = [] then
        let (newnodes, h) = heap_sbrk sr m (of_nat (NODE_INC_SIZE * NODE_SIZE)) h
        in if newnodes = 0 then (0, h) else take_node (h\<lparr>m_free_node := m_free_node h @ node_array newnodes\<rparr>)
      else take_node h)"

definition free_node :: "u64 \<Rightarrow> 'w uheap \<Rightarrow> 'w uheap" where
  "free_node n h = h\<lparr>m_free_node := n # m_free_node h\<rparr>"

definition malloc_init :: "'w sendrecv \<Rightarrow> message \<Rightarrow> 'w uheap \<Rightarrow> 'w uheap option" where
  "malloc_init sr m h =
     (let h = h\<lparr>m_free_node := [], m_free := [], m_busy := []\<rparr>;
          (nodes, h) = heap_sbrk sr m (of_nat (NODE_INC_SIZE * NODE_SIZE)) h
      in if nodes = 0 then Some h
         else
           let h = h\<lparr>m_free_node := m_free_node h @ node_array nodes\<rparr>;
               (n, h) = alloc_node sr m h
           in if n = 0 then None
              else
                let h = upd_node n (\<lambda>x. x\<lparr>nsize := EACH_BRK\<rparr>) h;
                    (p, h) = heap_sbrk sr m EACH_BRK h;
                    h = upd_node n (\<lambda>x. x\<lparr>ptr := p\<rparr>) h
                in Some (h\<lparr>m_free := n # m_free h\<rparr>))"

text \<open>The scan of \<open>merge_free\<close>: \<open>kept\<close> are the entries passed over.\<close>

fun merge_scan :: "u64 \<Rightarrow> u64 list \<Rightarrow> u64 list \<Rightarrow> 'w uheap \<Rightarrow> 'w uheap" where
  "merge_scan node kept [] h = h\<lparr>m_free := kept @ [node]\<rparr>"
| "merge_scan node kept (entry # rest) h =
     (let e = m_nodes h entry; n = m_nodes h node
      in if ptr e + nsize e = ptr n then
           merge_scan node kept rest
             (free_node entry (upd_node node (\<lambda>x. x\<lparr>ptr := ptr e, nsize := nsize x + nsize e\<rparr>) h))
         else if ptr n + nsize n = ptr e then
           merge_scan node kept rest (free_node entry (upd_node node (\<lambda>x. x\<lparr>nsize := nsize x + nsize e\<rparr>) h))
         else if ptr e > ptr n then h\<lparr>m_free := kept @ node # entry # rest\<rparr>
         else merge_scan node (kept @ [entry]) rest h)"

definition merge_free :: "u64 \<Rightarrow> 'w uheap \<Rightarrow> 'w uheap" where
  "merge_free node h = merge_scan node [] (m_free h) h"

text \<open>The rest of \<open>malloc\<close> with the node of a block that is large enough; \<open>None\<close> is a fault.\<close>

definition malloc_split :: "'w sendrecv \<Rightarrow> message \<Rightarrow> u64 \<Rightarrow> u64 \<Rightarrow> 'w uheap \<Rightarrow> u64 \<times> 'w uheap" where
  "malloc_split sr m sz node h =
     (let n = m_nodes h node;
          finish = (\<lambda>h. (ptr (m_nodes h node), h\<lparr>m_busy := m_busy h @ [node]\<rparr>))
      in if nsize n > sz then
           let (reminder, h) = alloc_node sr m h
           in if reminder = 0 then (0, h)
              else
                let h = upd_node reminder (\<lambda>x. x\<lparr>nsize := nsize n - sz, ptr := ptr n + sz\<rparr>) h;
                    h = upd_node node (\<lambda>x. x\<lparr>nsize := sz\<rparr>) h
                in finish (merge_free reminder h)
         else finish h)"

definition malloc :: "'w sendrecv \<Rightarrow> message \<Rightarrow> u64 \<Rightarrow> 'w uheap \<Rightarrow> (u64 \<times> 'w uheap) option" where
  "malloc sr m sz h =
     (let sz = (sz + 7) AND NOT 7
      in case List.find (\<lambda>pos. nsize (m_nodes h pos) \<ge> sz) (m_free h) of
           Some node \<Rightarrow> Some (malloc_split sr m sz node (h\<lparr>m_free := remove1 node (m_free h)\<rparr>))
         | None \<Rightarrow>
             let (node, h) = alloc_node sr m h
             in if node = 0 then None
                else
                  let h = upd_node node (\<lambda>x. x\<lparr>nsize := (if sz > EACH_BRK then sz else EACH_BRK)\<rparr>) h;
                      (p, h) = heap_sbrk sr m (nsize (m_nodes h node)) h;
                      h = upd_node node (\<lambda>x. x\<lparr>ptr := p\<rparr>) h
                  in if p = 0 then Some (0, h) else Some (malloc_split sr m sz node h))"

definition free :: "u64 \<Rightarrow> 'w uheap \<Rightarrow> 'w uheap" where
  "free p h =
     (if p = 0 then h
      else case List.find (\<lambda>pos. ptr (m_nodes h pos) = p) (m_busy h) of
        Some node \<Rightarrow> merge_free node (h\<lparr>m_busy := remove1 node (m_busy h)\<rparr>)
      | None \<Rightarrow> h)"

section \<open>The invariant\<close>

text \<open>The bytes of a block, and of a node, as natural numbers.\<close>

definition block_start :: "'w uheap \<Rightarrow> u64 \<Rightarrow> nat" where
  "block_start h n = unat (ptr (m_nodes h n))"

definition block_end :: "'w uheap \<Rightarrow> u64 \<Rightarrow> nat" where
  "block_end h n = unat (ptr (m_nodes h n)) + unat (nsize (m_nodes h n))"

definition block_bytes :: "'w uheap \<Rightarrow> u64 \<Rightarrow> nat set" where
  "block_bytes h n = {block_start h n ..< block_end h n}"

definition node_bytes :: "u64 \<Rightarrow> nat set" where
  "node_bytes n = {unat n ..< unat n + NODE_SIZE}"

definition gap :: "'w uheap \<Rightarrow> u64 \<Rightarrow> u64 \<Rightarrow> bool" where
  "gap h a b \<longleftrightarrow> block_end h a < block_start h b"

definition good_block :: "'w uheap \<Rightarrow> u64 \<Rightarrow> bool" where
  "good_block h n \<longleftrightarrow> 0 < block_start h n \<and> block_start h n < block_end h n \<and> block_end h n \<le> unat (ubrk h)"

definition all_nodes :: "'w uheap \<Rightarrow> u64 list" where
  "all_nodes h = m_free_node h @ m_free h @ m_busy h"

definition free_blocks :: "'w uheap \<Rightarrow> nat set" where
  "free_blocks h = (\<Union>b \<in> set (m_free h). block_bytes h b)"

definition nodes_ok :: "'w uheap \<Rightarrow> bool" where
  "nodes_ok h \<longleftrightarrow> distinct (all_nodes h) \<and> (\<forall>n \<in> set (all_nodes h). n \<noteq> 0 \<and> unat n + NODE_SIZE \<le> unat (ubrk h) \<and>
     node_bytes n \<inter> free_blocks h = {} \<and> (\<forall>b \<in> set (m_busy h). node_bytes n \<inter> block_bytes h b = {}) \<and>
     (\<forall>k \<in> set (all_nodes h). k \<noteq> n \<longrightarrow> node_bytes n \<inter> node_bytes k = {}))"

definition busy_ok :: "'w uheap \<Rightarrow> bool" where
  "busy_ok h \<longleftrightarrow> (\<forall>b \<in> set (m_busy h). good_block h b \<and> block_bytes h b \<inter> free_blocks h = {} \<and>
     (\<forall>c \<in> set (m_busy h). c \<noteq> b \<longrightarrow> block_bytes h b \<inter> block_bytes h c = {}))"

definition free_ok :: "'w uheap \<Rightarrow> bool" where
  "free_ok h \<longleftrightarrow> (\<forall>b \<in> set (m_free h). good_block h b) \<and> sorted_wrt (gap h) (m_free h)"

definition heap_inv :: "nat \<Rightarrow> 'w uheap \<Rightarrow> bool" where
  "heap_inv lim h \<longleftrightarrow> unat (ubrk h) \<le> lim \<and> lim < 2 ^ 62 \<and> ubrk h \<noteq> 0 \<and> nodes_ok h \<and> busy_ok h \<and> free_ok h"

text \<open>The free bytes: those of the free blocks and those the heap can still get.\<close>

definition heap_units :: "nat \<Rightarrow> 'w uheap \<Rightarrow> nat set" where
  "heap_units lim h = free_blocks h \<union> {unat (ubrk h) ..< lim}"

text \<open>What the heap relies on: the kernel does not move the end of the heap beyond \<open>lim\<close>.\<close>

definition brk_bounded :: "'w sendrecv \<Rightarrow> nat \<Rightarrow> bool" where
  "brk_bounded sr lim \<longleftrightarrow> (\<forall>m addr w. fst (brk sr m addr w) = 0 \<longrightarrow> unat addr \<le> lim)"

section \<open>Merging\<close>

lemma upd_node_sel [simp]:
  "m_free_node (upd_node n f h) = m_free_node h" "m_free (upd_node n f h) = m_free h" "m_busy (upd_node n f h) = m_busy h"
  "ubrk (upd_node n f h) = ubrk h" "world (upd_node n f h) = world h" "m_nodes (upd_node n f h) = (m_nodes h)(n := f (m_nodes h n))"
  by (simp_all add: upd_node_def)

lemma free_node_sel [simp]:
  "m_free_node (free_node n h) = n # m_free_node h" "m_free (free_node n h) = m_free h" "m_busy (free_node n h) = m_busy h"
  "ubrk (free_node n h) = ubrk h" "world (free_node n h) = world h" "m_nodes (free_node n h) = m_nodes h"
  by (simp_all add: free_node_def)

text \<open>A block keeps its bytes as long as its node keeps its fields.\<close>

lemma block_cong:
  assumes "m_nodes h' n = m_nodes h n"
  shows "block_start h' n = block_start h n" "block_end h' n = block_end h n" "block_bytes h' n = block_bytes h n"
  using assms by (simp_all add: block_start_def block_end_def block_bytes_def)

definition small_block :: "'w uheap \<Rightarrow> u64 \<Rightarrow> bool" where
  "small_block h n \<longleftrightarrow> 0 < block_start h n \<and> block_start h n < block_end h n \<and> block_end h n < 2 ^ 62"

lemma block_end_word:
  assumes "small_block h n"
  shows "unat (ptr (m_nodes h n) + nsize (m_nodes h n)) = block_end h n"
proof -
  have "block_end h n < 2 ^ LENGTH(64)" using assms by (simp add: small_block_def)
  then show ?thesis by (simp add: block_end_def unat_word_ariths)
qed

definition merge_ready :: "u64 \<Rightarrow> u64 list \<Rightarrow> u64 list \<Rightarrow> 'w uheap \<Rightarrow> bool" where
  "merge_ready node kept rest h \<longleftrightarrow> node \<notin> set (kept @ rest) \<and> distinct (kept @ rest) \<and> sorted_wrt (gap h) (kept @ rest) \<and>
     small_block h node \<and> (\<forall>b \<in> set (kept @ rest). small_block h b \<and> block_bytes h node \<inter> block_bytes h b = {}) \<and>
     (\<forall>k \<in> set kept. gap h k node)"

definition merged :: "u64 \<Rightarrow> u64 list \<Rightarrow> 'w uheap \<Rightarrow> 'w uheap \<Rightarrow> bool" where
  "merged node ns h h' \<longleftrightarrow> sorted_wrt (gap h') (m_free h') \<and> (\<forall>b \<in> set (m_free h'). small_block h' b) \<and>
     free_blocks h' = (\<Union>b \<in> set ns. block_bytes h b) \<union> block_bytes h node \<and>
     (\<forall>x. x \<noteq> node \<longrightarrow> m_nodes h' x = m_nodes h x) \<and> m_busy h' = m_busy h \<and> ubrk h' = ubrk h \<and> world h' = world h \<and>
     (\<exists>gone. m_free_node h' = gone @ m_free_node h \<and> mset gone + mset (m_free h') = add_mset node (mset ns))"

text \<open>One step of the scan that joins the block of \<open>node\<close> with the one of \<open>entry\<close>.\<close>

definition joined :: "u64 \<Rightarrow> u64 \<Rightarrow> 'w uheap \<Rightarrow> 'w uheap \<Rightarrow> bool" where
  "joined node entry h h' \<longleftrightarrow> (\<forall>x. x \<noteq> node \<longrightarrow> m_nodes h' x = m_nodes h x) \<and> m_free_node h' = entry # m_free_node h \<and>
     m_busy h' = m_busy h \<and> ubrk h' = ubrk h \<and> world h' = world h \<and> small_block h' node \<and>
     block_bytes h' node = block_bytes h node \<union> block_bytes h entry \<and>
     block_start h' node = min (block_start h node) (block_start h entry)"

lemma gap_disjoint: "gap h a b \<Longrightarrow> block_bytes h a \<inter> block_bytes h b = {}"
  by (auto simp: gap_def block_bytes_def)

lemma merge_ready_joined:
  assumes r: "merge_ready node kept (entry # rest) h" and j: "joined node entry h h'"
  shows "merge_ready node kept rest h'"
proof -
  have ne: "\<And>b. b \<in> set (kept @ rest) \<Longrightarrow> b \<noteq> node" using r by (auto simp: merge_ready_def)
  have c: "block_bytes h' b = block_bytes h b" "block_start h' b = block_start h b" "block_end h' b = block_end h b"
      "small_block h' b = small_block h b" if "b \<noteq> node" for b
    using j that block_cong [of h' b h] by (auto simp: joined_def small_block_def)
  have srt: "sorted_wrt (gap h) (kept @ rest)" "\<And>b. b \<in> set kept \<Longrightarrow> gap h b entry" "\<And>b. b \<in> set rest \<Longrightarrow> gap h entry b"
    using r by (auto simp: merge_ready_def sorted_wrt_append)
  have "sorted_wrt (gap h') (kept @ rest)"
    by (rule sorted_wrt_mono_rel [OF _ srt(1)]) (use ne c in \<open>simp add: gap_def\<close>)
  moreover have "gap h' k node" if "k \<in> set kept" for k
    using that srt(2) r j ne c(3) by (auto simp: gap_def merge_ready_def joined_def)
  moreover have "block_bytes h' node \<inter> block_bytes h' b = {}" if "b \<in> set (kept @ rest)" for b
  proof -
    have "block_bytes h node \<inter> block_bytes h b = {}" using r that by (auto simp: merge_ready_def)
    moreover have "block_bytes h entry \<inter> block_bytes h b = {}" using that srt(2,3) gap_disjoint by fastforce
    ultimately show ?thesis using j c(1) ne [OF that] by (auto simp: joined_def)
  qed
  ultimately show ?thesis using r j ne c(4) by (auto simp: merge_ready_def joined_def)
qed

lemma merged_joined:
  assumes m: "merged node (kept @ rest) h' h''" and j: "joined node entry h h'" and n: "node \<notin> set (kept @ entry # rest)"
  shows "merged node (kept @ entry # rest) h h''"
proof -
  have c: "block_bytes h' b = block_bytes h b" if "b \<in> set (kept @ rest)" for b
  proof -
    have "b \<noteq> node" using that n by auto
    then show ?thesis using j by (intro block_cong) (simp add: joined_def)
  qed
  have "free_blocks h'' = (\<Union>b \<in> set (kept @ rest). block_bytes h b) \<union> (block_bytes h node \<union> block_bytes h entry)"
    using m j c by (auto simp: merged_def joined_def)
  moreover obtain gone where "m_free_node h'' = gone @ entry # m_free_node h"
      "mset gone + mset (m_free h'') = add_mset node (mset (kept @ rest))"
    using m j by (auto simp: merged_def joined_def)
  then have "m_free_node h'' = (gone @ [entry]) @ m_free_node h \<and>
      mset (gone @ [entry]) + mset (m_free h'') = add_mset node (mset (kept @ entry # rest))" by simp
  ultimately show ?thesis using m j unfolding merged_def joined_def by auto
qed

lemma merge_stop:
  assumes r: "merge_ready node kept rest h" and g: "\<And>b. b \<in> set rest \<Longrightarrow> gap h node b"
  shows "merged node (kept @ rest) h (h\<lparr>m_free := kept @ node # rest\<rparr>)"
proof -
  have e: "gap (h\<lparr>m_free := ns\<rparr>) = gap h" "block_bytes (h\<lparr>m_free := ns\<rparr>) = block_bytes h"
      "small_block (h\<lparr>m_free := ns\<rparr>) = small_block h" for ns
    by (auto simp: fun_eq_iff gap_def block_bytes_def block_start_def block_end_def small_block_def)
  have "sorted_wrt (gap h) (kept @ node # rest)"
    using r g by (auto simp: merge_ready_def sorted_wrt_append)
  then show ?thesis using r unfolding merged_def free_blocks_def e by (auto simp: merge_ready_def)
qed

text \<open>What the comparison of the two blocks means when they are disjoint.\<close>

lemma disjoint_order:
  assumes "small_block h a" "small_block h b" "block_bytes h a \<inter> block_bytes h b = {}"
    "block_end h a \<noteq> block_start h b" "\<not> block_start h a > block_start h b"
  shows "gap h a b"
proof (rule ccontr)
  assume "\<not> gap h a b"
  then have "block_start h b \<in> block_bytes h a \<inter> block_bytes h b"
    using assms by (auto simp: gap_def small_block_def block_bytes_def)
  then show False using assms(3) by simp
qed

lemma merge_scan_spec:
  assumes "merge_ready node kept rest h"
  shows "merged node (kept @ rest) h (merge_scan node kept rest h)"
  using assms
proof (induction node kept rest h rule: merge_scan.induct)
  case (1 node kept h)
  then show ?case using merge_stop [of node kept "[]" h] by simp
next
  case (2 node kept entry rest h)
  let ?e = "m_nodes h entry" and ?n = "m_nodes h node"
  note r = "2.prems"
  have ne: "node \<noteq> entry" "node \<notin> set (kept @ entry # rest)" using r by (auto simp: merge_ready_def)
  have sm: "small_block h entry" "small_block h node" and dj: "block_bytes h entry \<inter> block_bytes h node = {}"
    using r by (auto simp: merge_ready_def)
  note w = block_end_word [OF sm(1)] block_end_word [OF sm(2)]
  have touch: "ptr ?e + nsize ?e = ptr ?n \<longleftrightarrow> block_end h entry = block_start h node"
      "ptr ?n + nsize ?n = ptr ?e \<longleftrightarrow> block_end h node = block_start h entry"
    by (metis w(1) block_start_def word_unat_eq_iff, metis w(2) block_start_def word_unat_eq_iff)
  have sz: "unat (nsize ?n + nsize ?e) = unat (nsize ?n) + unat (nsize ?e)"
    using sm by (simp add: small_block_def block_end_def block_start_def unat_word_ariths)
  consider (left) "ptr ?e + nsize ?e = ptr ?n" | (right) "ptr ?e + nsize ?e \<noteq> ptr ?n" "ptr ?n + nsize ?n = ptr ?e"
    | (stop) "ptr ?e + nsize ?e \<noteq> ptr ?n" "ptr ?n + nsize ?n \<noteq> ptr ?e" "ptr ?e > ptr ?n"
    | (pass) "ptr ?e + nsize ?e \<noteq> ptr ?n" "ptr ?n + nsize ?n \<noteq> ptr ?e" "\<not> ptr ?e > ptr ?n" by blast
  then show ?case
  proof cases
    case left
    let ?h = "free_node entry (upd_node node (\<lambda>x. x\<lparr>ptr := ptr ?e, nsize := nsize x + nsize ?e\<rparr>) h)"
    have "joined node entry h ?h"
      using sm ne(1) left touch(1) sz
      by (auto simp: joined_def small_block_def block_bytes_def block_start_def block_end_def min_def)
    then show ?thesis
      using "2.IH"(1) [OF refl refl left] merge_ready_joined [OF r] merged_joined ne(2) left by (simp add: Let_def)
  next
    case right
    let ?h = "free_node entry (upd_node node (\<lambda>x. x\<lparr>nsize := nsize x + nsize ?e\<rparr>) h)"
    have "joined node entry h ?h"
      using sm ne(1) right touch(2) sz
      by (auto simp: joined_def small_block_def block_bytes_def block_start_def block_end_def min_def)
    then show ?thesis
      using "2.IH"(2) [OF refl refl right] merge_ready_joined [OF r] merged_joined ne(2) right by (simp add: Let_def)
  next
    case stop
    have "gap h node entry"
      using disjoint_order [OF sm(2,1)] dj stop touch by (auto simp: word_less_nat_alt block_start_def)
    then have "gap h node b" if "b \<in> set (entry # rest)" for b
      using that r sm(1) by (fastforce simp: merge_ready_def sorted_wrt_append gap_def small_block_def)
    then show ?thesis using merge_stop [OF r] stop by (simp add: Let_def)
  next
    case pass
    have "gap h entry node"
      using disjoint_order [OF sm] dj pass touch by (auto simp: word_less_nat_alt block_start_def)
    then have "merge_ready node (kept @ [entry]) rest h" using r by (auto simp: merge_ready_def)
    then show ?thesis using "2.IH"(3) [OF refl refl pass] pass by (simp add: Let_def)
  qed
qed

lemma heap_invD:
  assumes "heap_inv lim h"
  shows "unat (ubrk h) \<le> lim" "lim < 2 ^ 62" "ubrk h \<noteq> 0" "nodes_ok h" "busy_ok h" "free_ok h"
  using assms by (simp_all add: heap_inv_def)

lemma block_upd [simp]:
  "block_start (h\<lparr>m_busy := x\<rparr>) = block_start h" "block_end (h\<lparr>m_busy := x\<rparr>) = block_end h" "block_bytes (h\<lparr>m_busy := x\<rparr>) = block_bytes h"
  "block_start (h\<lparr>m_free_node := x\<rparr>) = block_start h" "block_end (h\<lparr>m_free_node := x\<rparr>) = block_end h"
  "block_bytes (h\<lparr>m_free_node := x\<rparr>) = block_bytes h"
  "block_start (h\<lparr>m_free := x\<rparr>) = block_start h" "block_end (h\<lparr>m_free := x\<rparr>) = block_end h" "block_bytes (h\<lparr>m_free := x\<rparr>) = block_bytes h"
  by (simp_all add: fun_eq_iff block_start_def block_end_def block_bytes_def)

lemma free_blocks_upd [simp]:
  "free_blocks (h\<lparr>m_busy := x\<rparr>) = free_blocks h" "free_blocks (h\<lparr>m_free_node := x\<rparr>) = free_blocks h"
  by (simp_all add: free_blocks_def)

lemma good_small: "heap_inv lim h \<Longrightarrow> good_block h b \<Longrightarrow> small_block h b"
  by (auto simp: heap_inv_def good_block_def small_block_def)

lemma good_bytes: "good_block h b \<Longrightarrow> block_bytes h b \<subseteq> {..< unat (ubrk h)}"
  by (auto simp: good_block_def block_bytes_def)

lemma bytes_good:
  assumes "small_block h b" "block_bytes h b \<subseteq> {..< unat (ubrk h)}"
  shows "good_block h b"
proof -
  have "block_end h b - 1 \<in> block_bytes h b" using assms(1) by (auto simp: small_block_def block_bytes_def)
  then have "block_end h b - 1 < unat (ubrk h)" using assms(2) by blast
  then show ?thesis using assms(1) by (auto simp: small_block_def good_block_def)
qed

text \<open>\<open>node\<close> describes a block that is on no list yet.\<close>

definition loose :: "nat \<Rightarrow> u64 \<Rightarrow> 'w uheap \<Rightarrow> bool" where
  "loose lim node h \<longleftrightarrow> heap_inv lim (h\<lparr>m_busy := node # m_busy h\<rparr>)"

lemma loose_block:
  assumes "loose lim node h"
  shows "good_block h node" "small_block h node" "block_bytes h node \<inter> free_blocks h = {}" "node \<notin> set (m_free h)"
    "node \<notin> set (m_busy h)" "b \<in> set (m_busy h) \<Longrightarrow> block_bytes h node \<inter> block_bytes h b = {}"
proof -
  let ?g = "h\<lparr>m_busy := node # m_busy h\<rparr>"
  have i: "heap_inv lim ?g" using assms by (simp add: loose_def)
  have d: "distinct (all_nodes ?g)" using heap_invD(4) [OF i] by (simp add: nodes_ok_def)
  then show n: "node \<notin> set (m_free h)" "node \<notin> set (m_busy h)" by (auto simp: all_nodes_def)
  have b: "busy_ok ?g" using heap_invD(5) [OF i] .
  then show "good_block h node" "block_bytes h node \<inter> free_blocks h = {}" by (simp_all add: busy_ok_def good_block_def)
  then show "small_block h node" using heap_invD(1,2) [OF i] by (auto simp: good_block_def small_block_def)
  show "b \<in> set (m_busy h) \<Longrightarrow> block_bytes h node \<inter> block_bytes h b = {}" using b n(2) by (auto simp: busy_ok_def)
qed

lemma merge_free_merged:
  assumes l: "loose lim node h"
  shows "merged node (m_free h) h (merge_free node h)"
proof -
  let ?g = "h\<lparr>m_busy := node # m_busy h\<rparr>"
  have i: "heap_inv lim ?g" using l by (simp add: loose_def)
  note f = heap_invD(6) [OF i]
  have s: "sorted_wrt (gap h) (m_free h)" using f by (simp add: free_ok_def gap_def [abs_def])
  have "\<And>b. b \<in> set (m_free h) \<Longrightarrow> small_block h b"
    using f heap_invD(1,2) [OF i] by (fastforce simp: free_ok_def good_block_def small_block_def)
  moreover have "distinct (m_free h)" using heap_invD(4) [OF i] by (simp add: nodes_ok_def all_nodes_def)
  ultimately have "merge_ready node [] (m_free h) h"
    using s loose_block [OF l] by (auto simp: merge_ready_def free_blocks_def)
  then show ?thesis using merge_scan_spec [of node "[]" "m_free h" h] by (simp add: merge_free_def)
qed

lemma merge_free_spec:
  assumes l: "loose lim node h"
  defines "h' \<equiv> merge_free node h"
  shows "heap_inv lim h'" "m_busy h' = m_busy h" "free_blocks h' = free_blocks h \<union> block_bytes h node" "ubrk h' = ubrk h"
    "\<And>x. x \<noteq> node \<Longrightarrow> m_nodes h' x = m_nodes h x"
proof -
  let ?g = "h\<lparr>m_busy := node # m_busy h\<rparr>"
  have m: "merged node (m_free h) h h'" using merge_free_merged [OF l] by (simp add: h'_def)
  show b: "m_busy h' = m_busy h" and u: "ubrk h' = ubrk h" and f: "free_blocks h' = free_blocks h \<union> block_bytes h node"
    and x: "\<And>x. x \<noteq> node \<Longrightarrow> m_nodes h' x = m_nodes h x"
    using m by (auto simp: merged_def free_blocks_def)
  have i: "heap_inv lim ?g" using l by (simp add: loose_def)
  have bb: "block_bytes h' c = block_bytes h c" "good_block h' c = good_block h c" if "c \<in> set (m_busy h)" for c
  proof -
    have "c \<noteq> node" using that loose_block(5) [OF l] by auto
    then have "m_nodes h' c = m_nodes h c" by (rule x)
    then show "block_bytes h' c = block_bytes h c" "good_block h' c = good_block h c"
      using block_cong [of h' c h] u by (simp_all add: good_block_def)
  qed
  have "mset (all_nodes h') = mset (all_nodes ?g)"
    using m by (auto simp: merged_def all_nodes_def)
  then have st: "set (all_nodes h') = set (all_nodes ?g)" "distinct (all_nodes h') = distinct (all_nodes ?g)"
    by (auto dest: mset_eq_setD mset_eq_imp_distinct_iff)
  have "nodes_ok h'"
    using heap_invD(4) [OF i] unfolding nodes_ok_def st b u f using bb(1) by auto
  moreover have "busy_ok h'"
    using heap_invD(5) [OF i] loose_block(6) [OF l] unfolding busy_ok_def b f using bb by (auto simp: good_block_def)
  moreover have "free_blocks h \<subseteq> {..< unat (ubrk h)}"
    using heap_invD(6) [OF i] by (fastforce simp: free_blocks_def free_ok_def good_block_def block_bytes_def)
  then have "free_blocks h' \<subseteq> {..< unat (ubrk h')}" using good_bytes [OF loose_block(1) [OF l]] unfolding f u by simp
  then have "block_bytes h' c \<subseteq> {..< unat (ubrk h')}" if "c \<in> set (m_free h')" for c
    using that by (fastforce simp: free_blocks_def)
  then have "good_block h' c" if "c \<in> set (m_free h')" for c
    using that m bytes_good [of h' c] by (simp add: merged_def)
  then have "free_ok h'" using m by (simp add: free_ok_def merged_def)
  ultimately show "heap_inv lim h'" using heap_invD(1-3) [OF i] u by (simp add: heap_inv_def)
qed

section \<open>Growing\<close>

text \<open>The invariant depends on the lists, the end of the heap and the blocks on the lists.\<close>

lemma heap_inv_cong:
  assumes l: "m_free_node h' = m_free_node h" "m_free h' = m_free h" "m_busy h' = m_busy h" "ubrk h' = ubrk h"
    and n: "\<And>b. b \<in> set (m_free h) \<union> set (m_busy h) \<Longrightarrow> m_nodes h' b = m_nodes h b"
  shows "heap_inv lim h' \<longleftrightarrow> heap_inv lim h" "free_blocks h' = free_blocks h"
proof -
  have c: "block_bytes h' b = block_bytes h b" "good_block h' b = good_block h b"
      "block_start h' b = block_start h b" "block_end h' b = block_end h b" if "b \<in> set (m_free h) \<union> set (m_busy h)" for b
    using block_cong [OF n [OF that]] l(4) by (simp_all add: good_block_def)
  show f: "free_blocks h' = free_blocks h" using c(1) l(2) by (simp add: free_blocks_def)
  have "sorted_wrt (gap h') (m_free h) = sorted_wrt (gap h) (m_free h)"
    using sorted_wrt_mono_rel [of "m_free h" "gap h" "gap h'"] sorted_wrt_mono_rel [of "m_free h" "gap h'" "gap h"] c(3,4)
    by (auto simp: gap_def)
  then have "free_ok h' = free_ok h" using c(2) l(2) by (auto simp: free_ok_def)
  moreover have "busy_ok h' = busy_ok h" using c l(3) f by (auto simp: busy_ok_def)
  moreover have "nodes_ok h' = nodes_ok h" using c l f by (auto simp: nodes_ok_def all_nodes_def)
  ultimately show "heap_inv lim h' \<longleftrightarrow> heap_inv lim h" using l(4) by (simp add: heap_inv_def)
qed

lemma heap_sbrk_cases:
  assumes b: "brk_bounded sr lim" and i: "unat (ubrk h) \<le> lim" "lim < 2 ^ 62" "ubrk h \<noteq> 0" and z: "0 < unat sz" "unat sz < 2 ^ 62"
    and s: "heap_sbrk sr m sz h = (p, h')"
  obtains w where "p = 0" "h' = h\<lparr>world := w\<rparr>"
  | w where "p = ubrk h" "h' = h\<lparr>ubrk := ubrk h + sz, world := w\<rparr>" "unat (ubrk h + sz) = unat (ubrk h) + unat sz"
      "unat (ubrk h) + unat sz \<le> lim"
proof -
  have u: "unat (ubrk h + sz) = unat (ubrk h) + unat sz" using i z by (simp add: unat_word_ariths)
  have ne: "ubrk h \<noteq> ubrk h + sz" using z by auto
  obtain r w where r: "brk sr m (ubrk h + sz) (world h) = (r, w)" by force
  show thesis
  proof (cases "r = 0")
    case True
    then have "unat (ubrk h + sz) \<le> lim" using b r unfolding brk_bounded_def by (metis fst_conv)
    moreover have "p = ubrk h" "h' = h\<lparr>ubrk := ubrk h + sz, world := w\<rparr>"
      using s r True ne by (auto simp: heap_sbrk_def sbrk_def Let_def)
    ultimately show thesis using that(2) u by simp
  next
    case False
    then have "p = 0" "h' = h\<lparr>world := w\<rparr>" using s r ne by (auto simp: heap_sbrk_def sbrk_def Let_def)
    then show thesis by (rule that(1))
  qed
qed

lemma node_array_at:
  assumes "unat p + NODE_INC_SIZE * NODE_SIZE < 2 ^ 63" "n \<in> set (node_array p)"
  obtains i where "i < NODE_INC_SIZE" "n = p + of_nat (NODE_SIZE * i)" "unat n = unat p + NODE_SIZE * i"
proof -
  obtain i where i: "i < NODE_INC_SIZE" "n = p + of_nat (NODE_SIZE * i)" using assms(2) by (auto simp: node_array_def)
  then have "unat n = unat p + NODE_SIZE * i"
    using assms(1) by (simp add: unat_word_ariths unat_of_nat NODE_SIZE_def NODE_INC_SIZE_def)
  then show thesis using that i by blast
qed

lemma node_array_props:
  assumes a: "unat p + NODE_INC_SIZE * NODE_SIZE < 2 ^ 63"
  shows "distinct (node_array p)" "\<And>n. n \<in> set (node_array p) \<Longrightarrow> node_bytes n \<subseteq> {unat p ..< unat p + NODE_INC_SIZE * NODE_SIZE}"
    "\<And>n k. n \<in> set (node_array p) \<Longrightarrow> k \<in> set (node_array p) \<Longrightarrow> n \<noteq> k \<Longrightarrow> node_bytes n \<inter> node_bytes k = {}"
    "node_array p \<noteq> []"
proof -
  have "unat (p + of_nat (NODE_SIZE * i)) = unat p + NODE_SIZE * i" if "i < NODE_INC_SIZE" for i
    using a that by (simp add: unat_word_ariths unat_of_nat NODE_SIZE_def NODE_INC_SIZE_def)
  then have "inj_on (\<lambda>i. p + of_nat (NODE_SIZE * i)) (set [0..<NODE_INC_SIZE])"
    by (intro inj_onI) (metis add_left_cancel atLeast_upt lessThan_iff mult_left_cancel NODE_SIZE_def zero_neq_numeral)
  then show "distinct (node_array p)" by (simp add: node_array_def distinct_map)
  show "node_array p \<noteq> []" by (simp add: node_array_def NODE_INC_SIZE_def)
  show "node_bytes n \<subseteq> {unat p ..< unat p + NODE_INC_SIZE * NODE_SIZE}" if "n \<in> set (node_array p)" for n
    by (rule node_array_at [OF a that]) (auto simp: node_bytes_def NODE_SIZE_def NODE_INC_SIZE_def)
  show "node_bytes n \<inter> node_bytes k = {}" if nk: "n \<in> set (node_array p)" "k \<in> set (node_array p)" "n \<noteq> k" for n k
  proof -
    obtain i where i: "unat n = unat p + NODE_SIZE * i" by (rule node_array_at [OF a nk(1)])
    obtain j where j: "unat k = unat p + NODE_SIZE * j" by (rule node_array_at [OF a nk(2)])
    have "i \<noteq> j" using i j nk(3) by (metis word_unat_eq_iff)
    then show ?thesis using i j by (auto simp: node_bytes_def NODE_SIZE_def)
  qed
qed

text \<open>A node on no list, with its place reserved.\<close>

definition spare :: "nat \<Rightarrow> u64 \<Rightarrow> 'w uheap \<Rightarrow> bool" where
  "spare lim n h \<longleftrightarrow> heap_inv lim (h\<lparr>m_free_node := n # m_free_node h\<rparr>)"

lemma spare_facts:
  assumes "spare lim n h"
  shows "heap_inv lim h" "n \<noteq> 0" "n \<notin> set (all_nodes h)"
proof -
  let ?g = "h\<lparr>m_free_node := n # m_free_node h\<rparr>"
  have i: "heap_inv lim ?g" using assms by (simp add: spare_def)
  note n = heap_invD(4) [OF i]
  show "n \<noteq> 0" "n \<notin> set (all_nodes h)" using n by (auto simp: nodes_ok_def all_nodes_def)
  have "nodes_ok h" using n by (auto simp: nodes_ok_def all_nodes_def)
  moreover have "busy_ok h" "free_ok h"
    using heap_invD(5,6) [OF i] by (simp_all add: busy_ok_def free_ok_def good_block_def gap_def [abs_def])
  ultimately show "heap_inv lim h" using heap_invD(1-3) [OF i] by (simp add: heap_inv_def)
qed

lemma heap_below: "heap_inv lim h \<Longrightarrow> n \<in> set (all_nodes h) \<Longrightarrow> node_bytes n \<subseteq> {..< unat (ubrk h)}"
  "heap_inv lim h \<Longrightarrow> b \<in> set (m_busy h) \<Longrightarrow> block_bytes h b \<subseteq> {..< unat (ubrk h)}"
  "heap_inv lim h \<Longrightarrow> free_blocks h \<subseteq> {..< unat (ubrk h)}"
  using good_bytes [of h]
  by (fastforce simp: heap_inv_def nodes_ok_def node_bytes_def busy_ok_def free_ok_def free_blocks_def good_block_def block_bytes_def)+

lemma grow_brk:
  assumes i: "heap_inv lim h" and k: "unat (ubrk h) \<le> unat k" "unat k \<le> lim"
  shows "heap_inv lim (h\<lparr>ubrk := k, world := w\<rparr>)"
proof -
  let ?g = "h\<lparr>ubrk := k, world := w\<rparr>"
  have e: "block_start ?g = block_start h" "block_end ?g = block_end h" "block_bytes ?g = block_bytes h" "free_blocks ?g = free_blocks h"
      "all_nodes ?g = all_nodes h"
    by (simp_all add: fun_eq_iff block_start_def block_end_def block_bytes_def free_blocks_def all_nodes_def)
  have g: "good_block ?g b" if "good_block h b" for b using that k(1) by (auto simp: good_block_def e)
  have k0: "k \<noteq> 0" using heap_invD(3) [OF i] k(1) by (auto simp: unat_eq_zero)
  have "nodes_ok ?g" using heap_invD(4) [OF i] k(1) unfolding nodes_ok_def e by fastforce
  moreover have "busy_ok ?g" using heap_invD(5) [OF i] g unfolding busy_ok_def e by simp
  moreover have "free_ok ?g" using heap_invD(6) [OF i] g unfolding free_ok_def gap_def [abs_def] e by simp
  ultimately show ?thesis using heap_invD(2) [OF i] k(2) k0 by (simp add: heap_inv_def)
qed

lemma grow_nodes:
  assumes i: "heap_inv lim h" and k: "unat k = unat (ubrk h) + NODE_INC_SIZE * NODE_SIZE" "unat k \<le> lim"
  shows "heap_inv lim (h\<lparr>ubrk := k, world := w, m_free_node := m_free_node h @ node_array (ubrk h)\<rparr>)"
proof -
  let ?p = "ubrk h" and ?g = "h\<lparr>ubrk := k, world := w\<rparr>"
  let ?f = "?g\<lparr>m_free_node := m_free_node h @ node_array ?p\<rparr>"
  have ig: "heap_inv lim ?g" using grow_brk [OF i] k by simp
  have a: "unat ?p + NODE_INC_SIZE * NODE_SIZE < 2 ^ 63" using k heap_invD(2) [OF i] by simp
  note na = node_array_props [OF a]
  have new: "n \<noteq> 0 \<and> unat n + NODE_SIZE \<le> unat k \<and> node_bytes n \<inter> {..< unat ?p} = {}" if "n \<in> set (node_array ?p)" for n
  proof -
    have "unat ?p \<noteq> 0" using heap_invD(3) [OF i] by (simp add: unat_eq_zero)
    moreover have "unat n \<in> node_bytes n" "unat n + NODE_SIZE - 1 \<in> node_bytes n" by (auto simp: node_bytes_def NODE_SIZE_def)
    ultimately show ?thesis using na(2) [OF that] k(1) by (fastforce simp: NODE_SIZE_def)
  qed
  have old: "node_bytes n \<subseteq> {..< unat ?p}" if "n \<in> set (all_nodes h)" for n using heap_below(1) [OF i that] .
  have ne: "n \<notin> set (all_nodes h)" if "n \<in> set (node_array ?p)" for n
  proof
    assume "n \<in> set (all_nodes h)"
    then have "node_bytes n = {}" using old [of n] new [OF that] by blast
    then show False by (simp add: node_bytes_def NODE_SIZE_def)
  qed
  have st: "set (all_nodes ?f) = set (all_nodes h) \<union> set (node_array ?p)" by (auto simp: all_nodes_def)
  have "distinct (all_nodes ?f)"
    using heap_invD(4) [OF i] na(1) ne by (auto simp: nodes_ok_def all_nodes_def)
  moreover have "node_bytes n \<inter> node_bytes j = {}" if nj: "n \<in> set (all_nodes ?f)" "j \<in> set (all_nodes ?f)" "j \<noteq> n" for n j
  proof -
    have o: "node_bytes n \<inter> node_bytes j = {}" if "n \<in> set (all_nodes h)" "j \<in> set (all_nodes h)"
      using that heap_invD(4) [OF i] nj(3) by (auto simp: nodes_ok_def)
    have m: "node_bytes x \<inter> node_bytes y = {}" if "x \<in> set (all_nodes h)" "y \<in> set (node_array ?p)" for x y
      using old [OF that(1)] new [OF that(2)] by blast
    show ?thesis
      using nj(1,2) unfolding st
      by (elim UnE) (simp add: o, simp add: m, subst Int_commute, simp add: m, use na(3) nj(3) in blast)
  qed
  moreover have fb: "free_blocks ?f \<subseteq> {..< unat ?p}" "\<And>b. b \<in> set (m_busy h) \<Longrightarrow> block_bytes ?f b \<subseteq> {..< unat ?p}"
    using heap_below(2,3) [OF i] by (auto simp: free_blocks_def block_bytes_def block_start_def block_end_def)
  have "n \<noteq> 0 \<and> unat n + NODE_SIZE \<le> unat (ubrk ?f) \<and> node_bytes n \<inter> free_blocks ?f = {} \<and>
      (\<forall>b \<in> set (m_busy ?f). node_bytes n \<inter> block_bytes ?f b = {})" if "n \<in> set (all_nodes ?f)" for n
  proof (cases "n \<in> set (node_array ?p)")
    case True
    then show ?thesis using new [OF True] fb by fastforce
  next
    case False
    then have "n \<in> set (all_nodes ?g)" using that by (auto simp: all_nodes_def)
    then show ?thesis using heap_invD(4) [OF ig] by (simp add: nodes_ok_def)
  qed
  ultimately have "nodes_ok ?f" unfolding nodes_ok_def by simp
  moreover have "busy_ok ?f" "free_ok ?f"
    using heap_invD(5,6) [OF ig] by (simp_all add: busy_ok_def free_ok_def good_block_def gap_def [abs_def])
  ultimately show ?thesis using heap_invD(1-3) [OF ig] by (simp add: heap_inv_def)
qed

end
