(* ===== verification/HeapTrace.thy ===== *)
theory HeapTrace
  imports UserHeap
begin

text \<open>
  \<open>malloc\<close> and \<open>free\<close> of the C library as an allocator: the contract \<open>arena\<close> and what follows for
  every sequence of calls.
\<close>

section \<open>Nodes\<close>

lemma take_node_spec:
  assumes i: "heap_inv lim h" and f: "m_free_node h \<noteq> []" and t: "take_node h = (n, h')"
  shows "spare lim n h'" "m_free h' = m_free h" "m_busy h' = m_busy h" "ubrk h' = ubrk h"
    "\<And>x. x \<noteq> n \<Longrightarrow> m_nodes h' x = m_nodes h x"
proof -
  obtain r where r: "m_free_node h = n # r" using f t by (cases "m_free_node h") (auto simp: take_node_def Let_def)
  have h': "h' = upd_node n (\<lambda>_. \<lparr>ptr = 0, nsize = 0\<rparr>) (h\<lparr>m_free_node := r\<rparr>)" using t r by (simp add: take_node_def Let_def)
  show "m_free h' = m_free h" "m_busy h' = m_busy h" "ubrk h' = ubrk h" "\<And>x. x \<noteq> n \<Longrightarrow> m_nodes h' x = m_nodes h x"
    by (simp_all add: h')
  have "n \<notin> set (m_free h) \<union> set (m_busy h)"
    using heap_invD(4) [OF i] r by (auto simp: nodes_ok_def all_nodes_def)
  then show "spare lim n h'"
    unfolding spare_def by (subst heap_inv_cong(1) [of _ h]) (auto simp: h' r i)
qed

lemma alloc_node_cases:
  assumes i: "heap_inv lim h" and b: "brk_bounded sr lim" and a: "alloc_node sr m h = (n, h')"
  obtains w where "n = 0" "h' = h\<lparr>world := w\<rparr>"
  | "n \<noteq> 0" "spare lim n h'" "m_free h' = m_free h" "m_busy h' = m_busy h" "\<And>x. x \<noteq> n \<Longrightarrow> m_nodes h' x = m_nodes h x"
      "unat (ubrk h) \<le> unat (ubrk h')"
proof (cases "m_free_node h = []")
  case False
  then have t: "take_node h = (n, h')" using a by (simp add: alloc_node_def)
  note s = take_node_spec [OF i False t]
  show thesis using that(2) spare_facts(2) [OF s(1)] s by simp
next
  case True
  obtain p g where g: "heap_sbrk sr m (of_nat (NODE_INC_SIZE * NODE_SIZE)) h = (p, g)" by force
  have z: "unat (of_nat (NODE_INC_SIZE * NODE_SIZE) :: u64) = NODE_INC_SIZE * NODE_SIZE"
    by (simp add: NODE_INC_SIZE_def NODE_SIZE_def)
  show thesis
  proof (rule heap_sbrk_cases [OF b heap_invD(1-3) [OF i] _ _ g], goal_cases)
    case 1
    then show ?case by (simp add: NODE_INC_SIZE_def NODE_SIZE_def)
  next
    case 2
    then show ?case by (simp add: NODE_INC_SIZE_def NODE_SIZE_def)
  next
    case (3 w)
    then show ?case using that(1) [of w] a g True by (simp add: alloc_node_def)
  next
    case (4 w)
    let ?f = "g\<lparr>m_free_node := m_free_node g @ node_array p\<rparr>"
    have fi: "heap_inv lim ?f"
      using grow_nodes [OF i, of "ubrk g" w] 4 z by simp
    have "p \<noteq> 0" using 4(1) heap_invD(3) [OF i] by simp
    then have t: "take_node ?f = (n, h')" using a g True by (simp add: alloc_node_def)
    have "m_free_node ?f \<noteq> []" by (simp add: node_array_def NODE_INC_SIZE_def)
    note s = take_node_spec [OF fi this t]
    show ?case
    proof (rule that(2))
      show "n \<noteq> 0" by (rule spare_facts(2) [OF s(1)])
      show "spare lim n h'" "m_free h' = m_free h" "m_busy h' = m_busy h" "unat (ubrk h) \<le> unat (ubrk h')"
        using s 4 by simp_all
      show "m_nodes h' x = m_nodes h x" if "x \<noteq> n" for x using s(5) [OF that] 4 by simp
    qed
  qed
qed

text \<open>A node that describes free space of its own is ready for \<open>merge_free\<close> or for the busy list.\<close>

lemma loose_intro:
  assumes s: "spare lim n h" and g: "good_block h n" and f: "block_bytes h n \<inter> free_blocks h = {}"
    and b: "\<And>b. b \<in> set (m_busy h) \<Longrightarrow> block_bytes h n \<inter> block_bytes h b = {}"
    and k: "\<And>k. k \<in> insert n (set (all_nodes h)) \<Longrightarrow> node_bytes k \<inter> block_bytes h n = {}"
  shows "loose lim n h"
proof -
  let ?s = "h\<lparr>m_free_node := n # m_free_node h\<rparr>" and ?g = "h\<lparr>m_busy := n # m_busy h\<rparr>"
  have i: "heap_inv lim ?s" using s by (simp add: spare_def)
  have st: "set (all_nodes ?g) = insert n (set (all_nodes h))" "set (all_nodes ?s) = insert n (set (all_nodes h))"
    by (auto simp: all_nodes_def)
  have d: "distinct (all_nodes ?g)" using heap_invD(4) [OF i] by (auto simp: nodes_ok_def all_nodes_def)
  have "nodes_ok ?g"
    using heap_invD(4) [OF i] k d unfolding nodes_ok_def st by auto
  moreover have "block_bytes h b \<inter> block_bytes h n = {}" if "b \<in> set (m_busy h)" for b using b [OF that] by blast
  then have "busy_ok ?g"
    using heap_invD(5) [OF i] g f b by (auto simp: busy_ok_def good_block_def)
  moreover have "free_ok ?g" using heap_invD(6) [OF i] by (simp add: free_ok_def good_block_def gap_def [abs_def])
  ultimately show ?thesis using heap_invD(1-3) [OF i] by (simp add: loose_def heap_inv_def)
qed

section \<open>Splitting\<close>

lemma heap_inv_perm:
  assumes "mset xs = mset (m_busy h)" "heap_inv lim h" shows "heap_inv lim (h\<lparr>m_busy := xs\<rparr>)"
proof -
  let ?g = "h\<lparr>m_busy := xs\<rparr>"
  have m: "set xs = set (m_busy h)" using assms(1) by (rule mset_eq_setD)
  have "mset (all_nodes ?g) = mset (all_nodes h)" using assms(1) by (simp add: all_nodes_def)
  then have st: "set (all_nodes ?g) = set (all_nodes h)" "distinct (all_nodes ?g) = distinct (all_nodes h)"
    by (auto dest: mset_eq_setD mset_eq_imp_distinct_iff)
  have "nodes_ok ?g" using heap_invD(4) [OF assms(2)] unfolding nodes_ok_def st by (simp add: m)
  moreover have "busy_ok ?g" "free_ok ?g"
    using heap_invD(5,6) [OF assms(2)] by (simp_all add: m busy_ok_def free_ok_def good_block_def gap_def [abs_def])
  ultimately show ?thesis using heap_invD(1-3) [OF assms(2)] by (simp add: heap_inv_def)
qed

lemma heap_inv_shrink:
  assumes i: "heap_inv lim h" and n: "node \<in> set (m_busy h)" and z: "0 < unat sz" "unat sz \<le> unat (nsize (m_nodes h node))"
  shows "heap_inv lim (upd_node node (\<lambda>x. x\<lparr>nsize := sz\<rparr>) h)"
    "free_blocks (upd_node node (\<lambda>x. x\<lparr>nsize := sz\<rparr>) h) = free_blocks h"
proof -
  let ?g = "upd_node node (\<lambda>x. x\<lparr>nsize := sz\<rparr>) h"
  have nf: "node \<notin> set (m_free h)" using heap_invD(4) [OF i] n by (auto simp: nodes_ok_def all_nodes_def)
  have c: "block_bytes ?g b = block_bytes h b" "block_start ?g b = block_start h b" "block_end ?g b = block_end h b" if "b \<noteq> node" for b
    using that by (simp_all add: block_bytes_def block_start_def block_end_def)
  have nn: "b \<noteq> node" if "b \<in> set (m_free h)" for b using that nf by auto
  have sub: "block_bytes ?g b \<subseteq> block_bytes h b" for b
    using z(2) c(1) by (cases "b = node") (auto simp: block_bytes_def block_start_def block_end_def)
  have g: "good_block ?g b" if "good_block h b" for b
    using that z by (cases "b = node") (auto simp: good_block_def block_start_def block_end_def)
  show f: "free_blocks ?g = free_blocks h"
    unfolding free_blocks_def upd_node_sel by (intro SUP_cong refl c(1) nn)
  have e: "all_nodes ?g = all_nodes h" by (simp add: all_nodes_def)
  have dj: "A \<inter> block_bytes ?g b = {}" if "A \<inter> block_bytes h b = {}" for A b using that sub [of b] by blast
  have "nodes_ok ?g" using heap_invD(4) [OF i] dj unfolding nodes_ok_def e f by simp
  moreover have bz: "good_block ?g b \<and> block_bytes ?g b \<inter> free_blocks h = {} \<and>
      (\<forall>c \<in> set (m_busy h). c \<noteq> b \<longrightarrow> block_bytes ?g b \<inter> block_bytes ?g c = {})" if b: "b \<in> set (m_busy h)" for b
  proof (intro conjI ballI impI)
    have o: "good_block h b" "block_bytes h b \<inter> free_blocks h = {}"
      using heap_invD(5) [OF i] b by (auto simp: busy_ok_def)
    show "good_block ?g b" by (rule g [OF o(1)])
    show "block_bytes ?g b \<inter> free_blocks h = {}" using o(2) sub [of b] by blast
    fix c assume "c \<in> set (m_busy h)" "c \<noteq> b"
    then have "block_bytes h b \<inter> block_bytes h c = {}" using heap_invD(5) [OF i] b by (auto simp: busy_ok_def)
    then show "block_bytes ?g b \<inter> block_bytes ?g c = {}" using sub [of b] sub [of c] by blast
  qed
  have "busy_ok ?g" unfolding busy_ok_def f upd_node_sel by (intro ballI bz)
  moreover have srt: "sorted_wrt (gap h) (m_free h)" using heap_invD(6) [OF i] by (simp add: free_ok_def)
  have "sorted_wrt (gap ?g) (m_free h)"
  proof (rule sorted_wrt_mono_rel [OF _ srt])
    fix x y assume "x \<in> set (m_free h)" "y \<in> set (m_free h)" "gap h x y"
    then show "gap ?g x y" using c(2) [OF nn] c(3) [OF nn] by (simp add: gap_def)
  qed
  then have "free_ok ?g" using heap_invD(6) [OF i] g by (simp add: free_ok_def)
  ultimately show "heap_inv lim ?g" using heap_invD(1-3) [OF i] by (simp add: heap_inv_def)
qed

lemma alloc_node_busy: "alloc_node sr m (h\<lparr>m_busy := x\<rparr>) = (let (n, h') = alloc_node sr m h in (n, h'\<lparr>m_busy := x\<rparr>))"
  by (simp add: alloc_node_def take_node_def heap_sbrk_def upd_node_def case_prod_beta Let_def)

lemma busy_commute:
  "upd_node n f (h\<lparr>m_busy := x\<rparr>) = (upd_node n f h)\<lparr>m_busy := x\<rparr>" "free_node n (h\<lparr>m_busy := x\<rparr>) = (free_node n h)\<lparr>m_busy := x\<rparr>"
  by (simp_all add: upd_node_def free_node_def)

lemma merge_scan_busy: "merge_scan node kept rest (h\<lparr>m_busy := x\<rparr>) = (merge_scan node kept rest h)\<lparr>m_busy := x\<rparr>"
  by (induction node kept rest h rule: merge_scan.induct) (simp_all add: Let_def busy_commute)

lemma merge_free_busy: "merge_free node (h\<lparr>m_busy := x\<rparr>) = (merge_free node h)\<lparr>m_busy := x\<rparr>"
  by (simp add: merge_free_def merge_scan_busy)

lemma merge_free_keeps_busy: "m_busy (merge_free node h) = m_busy h"
proof -
  have "m_busy (merge_scan node kept rest h) = m_busy h" for kept rest
    by (induction node kept rest h rule: merge_scan.induct) (simp_all add: Let_def)
  then show ?thesis by (simp add: merge_free_def)
qed

text \<open>The part of a block that \<open>malloc\<close> hands out.\<close>

definition took :: "nat \<Rightarrow> u64 \<Rightarrow> u64 \<Rightarrow> 'w uheap \<Rightarrow> 'w uheap \<Rightarrow> bool" where
  "took lim sz node h h' \<longleftrightarrow> heap_inv lim h' \<and> m_busy h' = m_busy h @ [node] \<and> unat (ubrk h) \<le> unat (ubrk h') \<and>
     m_nodes h' node = \<lparr>ptr = ptr (m_nodes h node), nsize = sz\<rparr> \<and> (\<forall>b \<in> set (m_busy h). m_nodes h' b = m_nodes h b) \<and>
     free_blocks h' = free_blocks h \<union> (block_bytes h node - block_bytes h' node)"

definition refused :: "nat \<Rightarrow> 'w uheap \<Rightarrow> 'w uheap \<Rightarrow> bool" where
  "refused lim h h' \<longleftrightarrow> heap_inv lim h' \<and> m_busy h' = m_busy h \<and> unat (ubrk h) \<le> unat (ubrk h') \<and>
     (\<forall>b \<in> set (m_busy h). m_nodes h' b = m_nodes h b) \<and> free_blocks h' \<subseteq> free_blocks h"

lemma loose_inv: "loose lim node h \<Longrightarrow> heap_inv lim h"
proof -
  assume l: "loose lim node h"
  let ?g = "h\<lparr>m_busy := node # m_busy h\<rparr>"
  have i: "heap_inv lim ?g" using l by (simp add: loose_def)
  have "nodes_ok h" using heap_invD(4) [OF i] by (auto simp: nodes_ok_def all_nodes_def)
  moreover have "busy_ok h" using heap_invD(5) [OF i] by (auto simp: busy_ok_def good_block_def)
  moreover have "free_ok h" using heap_invD(6) [OF i] by (simp add: free_ok_def good_block_def gap_def [abs_def])
  ultimately show ?thesis using heap_invD(1-3) [OF i] by (simp add: heap_inv_def)
qed

text \<open>The node of the rest of a block, before it is merged into the free list.\<close>

lemma rest_loose:
  assumes l: "loose lim node h" and r: "spare lim r (h1\<lparr>m_busy := node # m_busy h\<rparr>)" and f1: "m_free h1 = m_free h"
    and n1': "\<forall>x. x \<noteq> r \<longrightarrow> m_nodes h1 x = m_nodes h x" and u1: "unat (ubrk h) \<le> unat (ubrk h1)"
    and z: "0 < unat sz" "sz < nsize (m_nodes h node)"
    and H: "H = (upd_node node (\<lambda>x. x\<lparr>nsize := sz\<rparr>) (upd_node r
      (\<lambda>x. x\<lparr>nsize := nsize (m_nodes h node) - sz, ptr := ptr (m_nodes h node) + sz\<rparr>) h1))\<lparr>m_busy := m_busy h @ [node]\<rparr>"
  shows "loose lim r H" "block_bytes H r = block_bytes h node - block_bytes H node" "free_blocks H = free_blocks h"
    "m_nodes H node = \<lparr>ptr = ptr (m_nodes h node), nsize = sz\<rparr>" "\<And>b. b \<in> set (m_busy h) \<Longrightarrow> m_nodes H b = m_nodes h b" "r \<noteq> node"
    "r \<notin> set (m_busy h)"
proof -
  have n1: "\<And>x. x \<noteq> r \<Longrightarrow> m_nodes h1 x = m_nodes h x" using n1' by blast
  let ?n = "m_nodes h node"
  let ?S = "h1\<lparr>m_busy := node # m_busy h, m_free_node := r # m_free_node h1\<rparr>"
  have S: "heap_inv lim ?S" using r by (simp add: spare_def)
  have rn: "r \<notin> set (m_free_node h1 @ m_free h @ node # m_busy h)" using spare_facts(3) [OF r] f1 by (simp add: all_nodes_def)
  then show rne: "r \<noteq> node" and rb: "r \<notin> set (m_busy h)" by auto
  note lb = loose_block [OF l]
  have nb: "\<And>b. b \<in> set (m_free h) \<union> set (m_busy h) \<Longrightarrow> b \<noteq> r \<and> b \<noteq> node" using rn lb(4,5) by auto
  have Hm: "m_nodes H node = \<lparr>ptr = ptr ?n, nsize = sz\<rparr>" "m_nodes H r = \<lparr>ptr = ptr ?n + sz, nsize = nsize ?n - sz\<rparr>"
      "\<And>x. x \<noteq> r \<Longrightarrow> x \<noteq> node \<Longrightarrow> m_nodes H x = m_nodes h x"
    using rne rne [symmetric] n1 by (simp_all add: H)
  show "m_nodes H node = \<lparr>ptr = ptr ?n, nsize = sz\<rparr>" and Hb: "\<And>b. b \<in> set (m_busy h) \<Longrightarrow> m_nodes H b = m_nodes h b"
    using Hm(1,3) nb by auto
  have sz: "unat sz < unat (nsize ?n)" "unat (nsize ?n - sz) = unat (nsize ?n) - unat sz"
    using z(2) by (simp_all add: word_less_nat_alt unat_sub_if')
  have pt: "unat (ptr ?n + sz) = unat (ptr ?n) + unat sz"
    using lb(2) sz by (simp add: small_block_def block_end_def unat_word_ariths)
  have bb: "block_bytes H r = {block_start h node + unat sz ..< block_end h node}"
      "block_bytes H node = {block_start h node ..< block_start h node + unat sz}"
    using sz pt by (simp_all add: block_bytes_def block_start_def block_end_def Hm)
  then show rest: "block_bytes H r = block_bytes h node - block_bytes H node"
    using lb(2) sz by (auto simp: block_bytes_def small_block_def block_end_def block_start_def)
  show free: "free_blocks H = free_blocks h"
  proof -
    have "m_free H = m_free h" by (simp add: H f1)
    moreover have "block_bytes H b = block_bytes h b" if "b \<in> set (m_free h)" for b
      using that nb by (intro block_cong Hm(3)) auto
    ultimately show ?thesis by (simp add: free_blocks_def)
  qed
  let ?T = "(upd_node node (\<lambda>x. x\<lparr>nsize := sz\<rparr>) ?S)\<lparr>m_busy := m_busy h @ [node]\<rparr>"
  have T: "heap_inv lim ?T"
    using heap_inv_shrink(1) [OF S, of node sz] z(1) sz n1 [of node] rne
    by (intro heap_inv_perm) (simp_all add: less_imp_le)
  have sp: "spare lim r H"
    unfolding spare_def
  proof (subst heap_inv_cong(1) [of _ ?T])
    show "m_nodes (H\<lparr>m_free_node := r # m_free_node H\<rparr>) b = m_nodes ?T b" if "b \<in> set (m_free ?T) \<union> set (m_busy ?T)" for b
      using that f1 nb rne by (auto simp: H)
  qed (simp_all add: H T)
  have "block_start H r = block_start h node + unat sz" "block_end H r = block_end h node" "ubrk H = ubrk h1"
    using sz pt unfolding block_start_def block_end_def Hm(2) by (simp_all add: H)
  then have "good_block H r" using lb(1) u1 sz by (simp add: good_block_def block_end_def block_start_def)
  moreover have "block_bytes H r \<inter> free_blocks H = {}" using lb(3) rest unfolding free by blast
  moreover have "block_bytes H r \<inter> block_bytes H b = {}" if "b \<in> set (m_busy H)" for b
    using that rest lb(6) Hb block_cong(3) [of H b h] by (auto simp: H)
  moreover have "node_bytes k \<inter> block_bytes H r = {}" if "k \<in> insert r (set (all_nodes H))" for k
  proof -
    have "k \<in> set (all_nodes ?S)" using that by (auto simp: H all_nodes_def)
    then have "node_bytes k \<inter> block_bytes ?S node = {}" using heap_invD(4) [OF S] by (simp add: nodes_ok_def)
    moreover have "block_bytes ?S node = block_bytes h node" by (rule block_cong) (use n1 rne in simp)
    ultimately show ?thesis using rest by blast
  qed
  ultimately show "loose lim r H" using loose_intro [OF sp] by blast
qed

lemma alloc_node_keeps_busy: "alloc_node sr m h = (r, h') \<Longrightarrow> m_busy h' = m_busy h"
  by (auto simp: alloc_node_def take_node_def heap_sbrk_def upd_node_def case_prod_beta Let_def split: if_splits)

lemma heap_eq_busy: "h1\<lparr>m_busy := x\<rparr> = h\<lparr>m_busy := x, world := w\<rparr> \<Longrightarrow> m_busy h1 = m_busy h \<Longrightarrow> h1 = h\<lparr>world := w\<rparr>"
  by (cases h1; cases h) simp

lemma malloc_split_cases:
  assumes l: "loose lim node h" and b: "brk_bounded sr lim" and z: "0 < unat sz" "sz \<le> nsize (m_nodes h node)"
    and s: "malloc_split sr m sz node h = (p, h')"
  shows "(p = 0 \<and> refused lim h h') \<or> (p = ptr (m_nodes h node) \<and> took lim sz node h h')"
proof (cases "sz = nsize (m_nodes h node)")
  case True
  then have h': "h' = h\<lparr>m_busy := m_busy h @ [node]\<rparr>" "p = ptr (m_nodes h node)"
    using s by (simp_all add: malloc_split_def Let_def)
  have "heap_inv lim h'"
    unfolding h' using heap_inv_perm [of "m_busy h @ [node]" "h\<lparr>m_busy := node # m_busy h\<rparr>"] l by (simp add: loose_def)
  then show ?thesis using h' True by (simp add: took_def)
next
  case False
  then have lt: "sz < nsize (m_nodes h node)" using z(2) by simp
  let ?n = "m_nodes h node"
  let ?g = "h\<lparr>m_busy := node # m_busy h\<rparr>"
  have ig: "heap_inv lim ?g" using l by (simp add: loose_def)
  obtain r h1 where a: "alloc_node sr m h = (r, h1)" by force
  have ag: "alloc_node sr m ?g = (r, h1\<lparr>m_busy := node # m_busy h\<rparr>)" by (simp add: alloc_node_busy a)
  show ?thesis
  proof (rule alloc_node_cases [OF ig b ag])
    fix w assume r: "r = 0" and e: "h1\<lparr>m_busy := node # m_busy h\<rparr> = ?g\<lparr>world := w\<rparr>"
    have "p = 0" "h' = h\<lparr>world := w\<rparr>"
      using s a lt r heap_eq_busy [OF e alloc_node_keeps_busy [OF a]] by (simp_all add: malloc_split_def Let_def)
    then show ?thesis using heap_inv_cong(1) [of h' h lim] heap_inv_cong(2) [of h' h] loose_inv [OF l] by (simp add: refused_def)
  next
    let ?g1 = "h1\<lparr>m_busy := node # m_busy h\<rparr>"
    assume r: "r \<noteq> 0" "spare lim r ?g1" "m_free ?g1 = m_free ?g" "m_busy ?g1 = m_busy ?g" 
      "\<And>x. x \<noteq> r \<Longrightarrow> m_nodes ?g1 x = m_nodes ?g x" "unat (ubrk ?g) \<le> unat (ubrk ?g1)"
    let ?h2 = "upd_node node (\<lambda>x. x\<lparr>nsize := sz\<rparr>) (upd_node r (\<lambda>x. x\<lparr>nsize := nsize ?n - sz, ptr := ptr ?n + sz\<rparr>) h1)"
    define H where "H = ?h2\<lparr>m_busy := m_busy h @ [node]\<rparr>"
    have h1: "m_free h1 = m_free h" "\<forall>x. x \<noteq> r \<longrightarrow> m_nodes h1 x = m_nodes h x" "unat (ubrk h) \<le> unat (ubrk h1)"
      using r(3,5,6) by simp_all
    note rl = rest_loose [OF l r(2) h1 z(1) lt H_def]
    note mf = merge_free_spec [OF rl(1)]
    have H': "merge_free r H = (merge_free r ?h2)\<lparr>m_busy := m_busy h @ [node]\<rparr>" unfolding H_def by (rule merge_free_busy)
    have "m_busy (merge_free r ?h2) = m_busy h"
      using alloc_node_keeps_busy [OF a] by (simp add: merge_free_keeps_busy)
    then have h': "h' = merge_free r H" "p = ptr (m_nodes (merge_free r H) node)"
      using s a lt r(1) unfolding H' by (auto simp: malloc_split_def Let_def)
    have nd: "m_nodes (merge_free r H) node = \<lparr>ptr = ptr ?n, nsize = sz\<rparr>" using mf(5) [of node] rl(4,6) by simp
    have bs: "m_nodes (merge_free r H) b = m_nodes h b" if "b \<in> set (m_busy h)" for b
      using mf(5) [of b] rl(5) [OF that] rl(7) that by auto
    have "block_bytes (merge_free r H) node = block_bytes H node" by (rule block_cong) (simp add: nd rl(4))
    then have "took lim sz node h (merge_free r H)"
      using mf(1-4) rl(2,3) nd bs h1(3) by (simp add: took_def H_def)
    then show ?thesis using h' nd by simp
  qed
qed

section \<open>Allocation\<close>

definition rounded :: "u64 \<Rightarrow> u64" where
  "rounded sz = (sz + 7) AND NOT 7"

lemma unat_rounded:
  assumes "unat sz + 7 < 2 ^ 64" shows "unat (rounded sz) = (unat sz + 7) div 8 * 8"
proof -
  have m: "(7 :: u64) = mask 3" by (simp add: mask_eq_exp_minus_1)
  have "rounded sz = push_bit 3 (drop_bit 3 (sz + 7))"
    unfolding rounded_def by (rule bit_word_eqI) (subst (2) m, auto simp: bit_simps not_less)
  then have r: "rounded sz = (sz + 7) div 8 * 8" by (simp add: push_bit_eq_mult drop_bit_eq_div)
  have u: "unat (sz + 7) = unat sz + 7" using assms by (simp add: unat_word_ariths)
  have "(unat sz + 7) div 8 * 8 < 2 ^ 64" using assms by (rule le_less_trans [rotated]) simp
  then show ?thesis unfolding r by (simp add: unat_word_ariths(2) unat_div u)
qed

text \<open>The first fit leaves the free list.\<close>

lemma detach_free:
  assumes i: "heap_inv lim h" and n: "node \<in> set (m_free h)"
  shows "loose lim node (h\<lparr>m_free := remove1 node (m_free h)\<rparr>)"
    "free_blocks (h\<lparr>m_free := remove1 node (m_free h)\<rparr>) = free_blocks h - block_bytes h node"
    "block_bytes h node \<subseteq> free_blocks h"
proof -
  let ?f = "remove1 node (m_free h)"
  let ?g = "h\<lparr>m_free := ?f\<rparr>"
  let ?b = "?g\<lparr>m_busy := node # m_busy h\<rparr>"
  show sub: "block_bytes h node \<subseteq> free_blocks h" using n by (auto simp: free_blocks_def)
  have d: "distinct (m_free h)" using heap_invD(4) [OF i] by (simp add: nodes_ok_def all_nodes_def)
  then have f: "set ?f = set (m_free h) - {node}" by simp
  have srt: "sorted_wrt (gap h) (m_free h)" using heap_invD(6) [OF i] by (simp add: free_ok_def)
  have apart: "block_bytes h node \<inter> block_bytes h b = {}" if "b \<in> set ?f" for b
  proof -
    obtain xs ys where l: "m_free h = xs @ node # ys" using n split_list by fast
    then have "gap h b node \<or> gap h node b"
      using srt that d by (auto simp: sorted_wrt_append remove1_append split: if_splits)
    then show ?thesis using gap_disjoint [of h] by blast
  qed
  show fb: "free_blocks ?g = free_blocks h - block_bytes h node"
    using apart n f unfolding free_blocks_def by (auto simp: f)
  have "mset (all_nodes ?b) = mset (all_nodes h)"
    using n by (simp add: all_nodes_def)
  then have st: "set (all_nodes ?b) = set (all_nodes h)" "distinct (all_nodes ?b) = distinct (all_nodes h)"
    by (auto dest: mset_eq_setD mset_eq_imp_distinct_iff)
  have "node_bytes n \<inter> block_bytes h node = {}" if "n \<in> set (all_nodes h)" for n
  proof -
    have "node_bytes n \<inter> free_blocks h = {}" using that heap_invD(4) [OF i] by (simp add: nodes_ok_def)
    then show ?thesis using sub by blast
  qed
  then have nok: "nodes_ok ?b"
    using heap_invD(4) [OF i] unfolding nodes_ok_def st free_blocks_upd fb by auto
  have "good_block h node" using heap_invD(6) [OF i] n by (simp add: free_ok_def)
  moreover have "block_bytes h b \<inter> block_bytes h node = {} \<and> block_bytes h node \<inter> block_bytes h b = {}" if "b \<in> set (m_busy h)" for b
  proof -
    have "block_bytes h b \<inter> free_blocks h = {}" using that heap_invD(5) [OF i] by (simp add: busy_ok_def)
    then show ?thesis using sub by blast
  qed
  ultimately have bok: "busy_ok ?b"
    using heap_invD(5) [OF i] unfolding busy_ok_def free_blocks_upd fb by (auto simp: good_block_def)
  moreover have "sorted_wrt (gap h) ?f" 
    using srt d by (simp add: distinct_remove1_removeAll removeAll_filter_not_eq sorted_wrt_filter)
  then have "free_ok ?b"
    using heap_invD(6) [OF i] f by (simp add: free_ok_def good_block_def gap_def [abs_def])
  then show "loose lim node ?g" using nok bok heap_invD(1-3) [OF i] by (simp add: loose_def heap_inv_def)
qed

text \<open>A new node for the bytes between the old and the new end of the heap.\<close>

lemma fresh_loose:
  assumes s: "spare lim n h" and z: "0 < unat sz" "unat (ubrk h + sz) = unat (ubrk h) + unat sz" "unat (ubrk h) + unat sz \<le> lim"
    and g: "g = (upd_node n (\<lambda>_. \<lparr>ptr = ubrk h, nsize = sz\<rparr>) h)\<lparr>ubrk := ubrk h + sz, world := w\<rparr>"
  shows "loose lim n g" "block_bytes g n = {unat (ubrk h) ..< unat (ubrk h) + unat sz}" "free_blocks g = free_blocks h"
    "\<And>b. b \<in> set (m_busy h) \<Longrightarrow> m_nodes g b = m_nodes h b"
proof -
  have i: "heap_inv lim h" and nn: "n \<notin> set (all_nodes h)" using spare_facts [OF s] by simp_all
  have ne: "b \<noteq> n" if "b \<in> set (m_free h) \<union> set (m_busy h)" for b using that nn by (auto simp: all_nodes_def)
  let ?s = "h\<lparr>m_free_node := n # m_free_node h\<rparr>"
  let ?u = "?s\<lparr>ubrk := ubrk h + sz, world := w\<rparr>"
  have u: "heap_inv lim ?u" using s z by (intro grow_brk) (simp_all add: spare_def)
  have sp: "spare lim n g"
    unfolding spare_def by (subst heap_inv_cong(1) [of _ ?u]) (use ne u in \<open>auto simp: g\<close>)
  have gb: "block_start g n = unat (ubrk h)" "block_end g n = unat (ubrk h) + unat sz"
    by (simp_all add: g block_start_def block_end_def)
  then show bb: "block_bytes g n = {unat (ubrk h) ..< unat (ubrk h) + unat sz}" by (simp add: block_bytes_def)
  show "m_nodes g b = m_nodes h b" if "b \<in> set (m_busy h)" for b using that ne by (auto simp: g)
  have cb: "block_bytes g b = block_bytes h b" if "b \<in> set (m_free h) \<union> set (m_busy h)" for b
    using ne [OF that] by (intro block_cong) (simp add: g)
  then show fr: "free_blocks g = free_blocks h" by (simp add: free_blocks_def g)
  have n0: "unat (ubrk h) \<noteq> 0" using heap_invD(3) [OF i] by (simp add: unat_eq_zero)
  have "good_block g n" using gb z n0 by (simp add: good_block_def g)
  moreover have "block_bytes g n \<inter> free_blocks g = {}" using heap_below(3) [OF i] unfolding bb fr by fastforce
  moreover have "block_bytes g n \<inter> block_bytes g b = {}" if "b \<in> set (m_busy g)" for b
    using that heap_below(2) [OF i, of b] cb [of b] unfolding bb by (fastforce simp: g)
  moreover have "node_bytes k \<inter> block_bytes g n = {}" if "k \<in> insert n (set (all_nodes g))" for k
  proof -
    have "k \<in> set (all_nodes ?s)" using that by (auto simp: g all_nodes_def)
    then have "node_bytes k \<subseteq> {..< unat (ubrk h)}" using heap_below(1) [of lim ?s k] s by (simp add: spare_def)
    then show ?thesis unfolding bb by fastforce
  qed
  ultimately show "loose lim n g" using loose_intro [OF sp] by blast
qed

text \<open>The outcome of \<open>malloc\<close>: null, or the node of a new block of the rounded size.\<close>

definition granted :: "nat \<Rightarrow> u64 \<Rightarrow> u64 \<Rightarrow> 'w uheap \<Rightarrow> 'w uheap \<Rightarrow> bool" where
  "granted lim sz p h h' \<longleftrightarrow> (\<exists>node. heap_inv lim h' \<and> node \<notin> set (m_busy h) \<and> m_busy h' = m_busy h @ [node] \<and>
     m_nodes h' node = \<lparr>ptr = p, nsize = sz\<rparr> \<and> (\<forall>b \<in> set (m_busy h). m_nodes h' b = m_nodes h b) \<and>
     block_bytes h' node \<subseteq> heap_units lim h \<and> heap_units lim h' \<subseteq> heap_units lim h - block_bytes h' node)"

lemma took_granted:
  assumes t: "took lim sz node g h'" and l: "loose lim node g" and sz: "unat sz \<le> unat (nsize (m_nodes g node))"
    and b: "m_busy g = m_busy h" "\<And>b. b \<in> set (m_busy h) \<Longrightarrow> m_nodes g b = m_nodes h b"
    and u: "block_bytes g node \<subseteq> heap_units lim h" "free_blocks g \<subseteq> heap_units lim h" "{unat (ubrk g) ..< lim} \<subseteq> heap_units lim h"
  shows "granted lim sz (ptr (m_nodes g node)) h h'"
proof -
  have i: "heap_inv lim h'" and n: "m_nodes h' node = \<lparr>ptr = ptr (m_nodes g node), nsize = sz\<rparr>"
    and f: "free_blocks h' = free_blocks g \<union> (block_bytes g node - block_bytes h' node)" and ub: "unat (ubrk g) \<le> unat (ubrk h')"
    using t by (simp_all add: took_def)
  have sub: "block_bytes h' node \<subseteq> block_bytes g node" using n sz by (auto simp: block_bytes_def block_start_def block_end_def)
  have dj: "block_bytes g node \<inter> free_blocks g = {}" using loose_block(3) [OF l] .
  have "block_bytes h' node \<subseteq> {..< unat (ubrk h')}" using t by (intro heap_below(2) [OF i]) (simp add: took_def)
  then have "{unat (ubrk h') ..< lim} \<inter> block_bytes h' node = {}" by auto
  moreover have "{unat (ubrk h') ..< lim} \<subseteq> {unat (ubrk g) ..< lim}" using ub by auto
  moreover have "free_blocks h' \<inter> block_bytes h' node = {}" using sub dj unfolding f by blast
  moreover have "free_blocks h' \<subseteq> heap_units lim h" using u(1,2) unfolding f by blast
  ultimately have "heap_units lim h' \<subseteq> heap_units lim h - block_bytes h' node"
    using u(3) unfolding heap_units_def [of lim h'] by blast
  moreover have "block_bytes h' node \<subseteq> heap_units lim h" using sub u(1) by blast
  ultimately show ?thesis
    using t b loose_block(5) [OF l] unfolding granted_def by (intro exI [of _ node]) (simp add: took_def)
qed

lemma refused_trans:
  assumes "refused lim g h'" "m_busy g = m_busy h" "unat (ubrk h) \<le> unat (ubrk g)" "\<And>b. b \<in> set (m_busy h) \<Longrightarrow> m_nodes g b = m_nodes h b"
    "free_blocks g \<subseteq> free_blocks h"
  shows "refused lim h h'"
  using assms by (auto simp: refused_def)

lemma malloc_fit:
  assumes i: "heap_inv lim h" and b: "brk_bounded sr lim" and z: "0 < unat sz" and n: "node \<in> set (m_free h)" "sz \<le> nsize (m_nodes h node)"
    and s: "malloc_split sr m sz node (h\<lparr>m_free := remove1 node (m_free h)\<rparr>) = (p, h')"
  shows "(p = 0 \<and> refused lim h h') \<or> (p \<noteq> 0 \<and> granted lim sz p h h')"
proof -
  let ?g = "h\<lparr>m_free := remove1 node (m_free h)\<rparr>"
  note d = detach_free [OF i n(1)]
  have n': "sz \<le> nsize (m_nodes ?g node)" using n(2) by simp
  have p0: "ptr (m_nodes ?g node) \<noteq> 0" using loose_block(1) [OF d(1)] by (auto simp: good_block_def block_start_def)
  have "granted lim sz (ptr (m_nodes ?g node)) h h'" if "took lim sz node ?g h'"
    by (rule took_granted [OF that d(1)]) (use n(2) d(2,3) in \<open>auto simp: heap_units_def word_le_nat_alt\<close>)
  moreover have "refused lim h h'" if "refused lim ?g h'"
    by (rule refused_trans [OF that]) (use d(2) in auto)
  ultimately show ?thesis using malloc_split_cases [OF d(1) b z n' s] p0 by auto
qed

lemma block_fields:
  "upd_node n (\<lambda>x. x\<lparr>ptr := p\<rparr>) ((upd_node n (\<lambda>x. x\<lparr>nsize := S\<rparr>) h)\<lparr>ubrk := b, world := w\<rparr>) =
   (upd_node n (\<lambda>_. \<lparr>ptr = p, nsize = S\<rparr>) h)\<lparr>ubrk := b, world := w\<rparr>"
proof -
  have e: "x\<lparr>nsize := S, ptr := p\<rparr> = \<lparr>ptr = p, nsize = S\<rparr>" for x :: m_node by (cases x) simp
  show ?thesis by (cases h) (simp add: upd_node_def e)
qed

lemma malloc_fresh:
  assumes i: "heap_inv lim h" and b: "brk_bounded sr lim" and z: "0 < unat sz" "sz \<le> S" "unat S < 2 ^ 62"
    and a: "alloc_node sr m h = (n, h1)" "n \<noteq> 0" and k: "heap_sbrk sr m S (upd_node n (\<lambda>x. x\<lparr>nsize := S\<rparr>) h1) = (p, h2)"
    and r: "r = (let h3 = upd_node n (\<lambda>x. x\<lparr>ptr := p\<rparr>) h2 in if p = 0 then (0, h3) else malloc_split sr m sz n h3)"
  shows "(fst r = 0 \<and> refused lim h (snd r)) \<or> (fst r \<noteq> 0 \<and> granted lim sz (fst r) h (snd r))"
proof (rule alloc_node_cases [OF i b a(1)])
  assume n: "spare lim n h1" "m_free h1 = m_free h" "m_busy h1 = m_busy h" "\<And>x. x \<noteq> n \<Longrightarrow> m_nodes h1 x = m_nodes h x"
    "unat (ubrk h) \<le> unat (ubrk h1)"
  have i1: "heap_inv lim h1" and nn: "n \<notin> set (all_nodes h1)" using spare_facts [OF n(1)] by simp_all
  have ne: "x \<noteq> n" if "x \<in> set (m_free h) \<union> set (m_busy h)" for x using that nn n(2,3) by (auto simp: all_nodes_def)
  have f1: "free_blocks h1 = free_blocks h"
    unfolding free_blocks_def n(2) using ne n(4) by (intro SUP_cong refl block_cong) auto
  let ?h = "upd_node n (\<lambda>x. x\<lparr>nsize := S\<rparr>) h1"
  have S0: "0 < unat S" using z(1,2) by (auto simp: word_le_nat_alt)
  have bd: "unat (ubrk ?h) \<le> lim" "lim < 2 ^ 62" "ubrk ?h \<noteq> 0" using heap_invD(1-3) [OF i1] by simp_all
  show ?thesis
  proof (rule heap_sbrk_cases [OF b bd S0 z(3) k])
    fix w assume p: "p = 0" "h2 = ?h\<lparr>world := w\<rparr>"
    let ?h3 = "upd_node n (\<lambda>x. x\<lparr>ptr := p\<rparr>) h2"
    have c: "heap_inv lim ?h3" "free_blocks ?h3 = free_blocks h1"
      using heap_inv_cong [of ?h3 h1] ne n(2,3) i1 by (auto simp: p)
    then have "refused lim h ?h3" using n f1 ne by (auto simp: refused_def p)
    then show ?thesis using r p by simp
  next
    fix w assume p: "p = ubrk ?h" "h2 = ?h\<lparr>ubrk := ubrk ?h + S, world := w\<rparr>" "unat (ubrk ?h + S) = unat (ubrk ?h) + unat S"
      "unat (ubrk ?h) + unat S \<le> lim"
    let ?h3 = "upd_node n (\<lambda>x. x\<lparr>ptr := p\<rparr>) h2"
    have h3: "?h3 = (upd_node n (\<lambda>_. \<lparr>ptr = ubrk h1, nsize = S\<rparr>) h1)\<lparr>ubrk := ubrk h1 + S, world := w\<rparr>"
      unfolding p by (simp add: block_fields)
    have pz: "unat (ubrk h1 + S) = unat (ubrk h1) + unat S" "unat (ubrk h1) + unat S \<le> lim" using p(3,4) by simp_all
    note fl = fresh_loose [OF n(1) S0 pz h3]
    have p0: "p \<noteq> 0" using bd(3) p(1) by simp
    obtain q h' where s: "malloc_split sr m sz n ?h3 = (q, h')" by force
    have nz: "sz \<le> nsize (m_nodes ?h3 n)" "ptr (m_nodes ?h3 n) = p" "m_busy ?h3 = m_busy h"
      "\<And>b. b \<in> set (m_busy h) \<Longrightarrow> m_nodes ?h3 b = m_nodes h b" "unat (ubrk h) \<le> unat (ubrk ?h3)"
      using z(2) n(3-5) ne pz by (auto simp: p)
    have sub: "free_blocks ?h3 \<subseteq> heap_units lim h" using fl(3) f1 by (simp add: heap_units_def)
    have "block_bytes ?h3 n \<subseteq> heap_units lim h" unfolding fl(2) using pz(2) n(5) by (auto simp: heap_units_def)
    moreover have "{unat (ubrk ?h3) ..< lim} \<subseteq> heap_units lim h" using nz(5) by (auto simp: heap_units_def)
    ultimately have "granted lim sz p h h'" if "took lim sz n ?h3 h'"
      using took_granted [OF that fl(1) _ nz(3,4) _ sub] nz(1,2) by (simp add: word_le_nat_alt)
    moreover have "refused lim h h'" if "refused lim ?h3 h'"
      using refused_trans [OF that nz(3,5,4)] fl(3) f1 by simp
    ultimately show ?thesis using malloc_split_cases [OF fl(1) b z(1) nz(1) s] nz(2) p0 s r by auto
  qed
qed (use a(2) in simp)

lemma malloc_cases:
  assumes i: "heap_inv lim h" and b: "brk_bounded sr lim" and q: "0 < unat q" "unat q \<le> 2 ^ 61"
    and s: "malloc sr m q h = Some (p, h')"
  shows "(p = 0 \<and> refused lim h h') \<or> (p \<noteq> 0 \<and> granted lim (rounded q) p h h')"
proof -
  let ?sz = "rounded q"
  have sz: "unat ?sz = (unat q + 7) div 8 * 8" using q by (intro unat_rounded) simp
  then have z: "0 < unat ?sz" "unat ?sz < 2 ^ 62" using q by simp_all
  show ?thesis
  proof (cases "List.find (\<lambda>pos. nsize (m_nodes h pos) \<ge> ?sz) (m_free h)")
    case (Some node)
    then have n: "node \<in> set (m_free h)" "?sz \<le> nsize (m_nodes h node)" by (auto simp: find_Some_iff)
    have "malloc_split sr m ?sz node (h\<lparr>m_free := remove1 node (m_free h)\<rparr>) = (p, h')"
      using s Some by (simp add: malloc_def [folded rounded_def])
    then show ?thesis by (rule malloc_fit [OF i b z(1) n])
  next
    case None
    define S where "S = (if ?sz > EACH_BRK then ?sz else EACH_BRK)"
    have S: "?sz \<le> S" "unat S < 2 ^ 62" using z(2) by (auto simp: S_def EACH_BRK_def)
    obtain n h1 where a: "alloc_node sr m h = (n, h1)" by force
    obtain k h2 where k: "heap_sbrk sr m S (upd_node n (\<lambda>x. x\<lparr>nsize := S\<rparr>) h1) = (k, h2)" by force
    have n0: "n \<noteq> 0" and r: "(p, h') = (let h3 = upd_node n (\<lambda>x. x\<lparr>ptr := k\<rparr>) h2 in if k = 0 then (0, h3) else malloc_split sr m ?sz n h3)"
      using s None a k by (auto simp: malloc_def [folded rounded_def] S_def Let_def split: if_splits)
    show ?thesis using malloc_fresh [OF i b z(1) S a n0 k r] by simp
  qed
qed

section \<open>Release\<close>

lemma free_busy:
  assumes i: "heap_inv lim h" and n: "node \<in> set (m_busy h)" and p: "ptr (m_nodes h node) = p"
  shows "heap_inv lim (free p h)" "m_busy (free p h) = remove1 node (m_busy h)" "ubrk (free p h) = ubrk h"
    "free_blocks (free p h) = free_blocks h \<union> block_bytes h node" "\<And>x. x \<noteq> node \<Longrightarrow> m_nodes (free p h) x = m_nodes h x"
proof -
  have bk: "good_block h b" "b \<noteq> node \<Longrightarrow> block_bytes h node \<inter> block_bytes h b = {}" if "b \<in> set (m_busy h)" for b
    using heap_invD(5) [OF i] n that by (auto simp: busy_ok_def)
  have "b = node" if "b \<in> set (m_busy h)" "ptr (m_nodes h b) = p" for b
  proof (rule ccontr)
    assume "b \<noteq> node"
    moreover have "unat p \<in> block_bytes h node \<inter> block_bytes h b"
      using bk(1) [OF n] bk(1) [OF that(1)] p that(2) by (auto simp: good_block_def block_bytes_def block_start_def)
    ultimately show False using bk(2) [OF that(1)] by blast
  qed
  moreover obtain b where f: "List.find (\<lambda>pos. ptr (m_nodes h pos) = p) (m_busy h) = Some b"
    using n p by (cases "List.find (\<lambda>pos. ptr (m_nodes h pos) = p) (m_busy h)") (auto simp: find_None_iff)
  ultimately have "b = node" by (auto simp: find_Some_iff)
  let ?g = "h\<lparr>m_busy := remove1 node (m_busy h)\<rparr>"
  have "p \<noteq> 0" using bk(1) [OF n] p by (auto simp: good_block_def block_start_def)
  then have e: "free p h = merge_free node ?g" using f \<open>b = node\<close> by (simp add: free_def)
  have "loose lim node ?g"
    unfolding loose_def using heap_inv_perm [OF _ i, of "node # remove1 node (m_busy h)"] n by simp
  note m = merge_free_spec [OF this]
  show "heap_inv lim (free p h)" "m_busy (free p h) = remove1 node (m_busy h)" "ubrk (free p h) = ubrk h"
    "free_blocks (free p h) = free_blocks h \<union> block_bytes h node" "\<And>x. x \<noteq> node \<Longrightarrow> m_nodes (free p h) x = m_nodes h x"
    unfolding e using m by simp_all
qed

section \<open>The contract\<close>

definition heap_request :: "'w sendrecv \<Rightarrow> message \<Rightarrow> u64 \<Rightarrow> 'w uheap \<Rightarrow> ((u64 \<times> u64) option \<times> 'w uheap) option" where
  "heap_request sr m q h =
     (if q = 0 \<or> unat q > 2 ^ 61 then None
      else map_option (\<lambda>(p, h). (if p = 0 then None else Some (p, rounded q), h)) (malloc sr m q h))"

definition heap_release :: "u64 \<times> u64 \<Rightarrow> 'w uheap \<Rightarrow> 'w uheap option" where
  "heap_release x h = Some (free (fst x) h)"

definition heap_held :: "'w uheap \<Rightarrow> u64 \<times> u64 \<Rightarrow> bool" where
  "heap_held h x \<longleftrightarrow> (\<exists>b \<in> set (m_busy h). m_nodes h b = \<lparr>ptr = fst x, nsize = snd x\<rparr>)"

definition heap_extent :: "u64 \<times> u64 \<Rightarrow> nat set" where
  "heap_extent x = {unat (fst x) ..< unat (fst x) + unat (snd x)}"

definition heap_fits :: "u64 \<Rightarrow> u64 \<times> u64 \<Rightarrow> bool" where
  "heap_fits q x \<longleftrightarrow> fst x \<noteq> 0 \<and> unat q \<le> unat (snd x)"

lemma extent_block: "m_nodes h b = \<lparr>ptr = fst x, nsize = snd x\<rparr> \<Longrightarrow> heap_extent x = block_bytes h b"
  by (simp add: heap_extent_def block_bytes_def block_start_def block_end_def)

interpretation user_heap: arena "\<lambda>h. heap_inv lim h \<and> brk_bounded sr lim" "heap_units lim" heap_held heap_extent heap_fits
  "heap_request sr m" heap_release for lim sr m
proof
  fix h h' :: "'a uheap" and x q
  assume i: "heap_inv lim h \<and> brk_bounded sr lim" and a: "heap_request sr m q h = Some (Some x, h')"
  then obtain p where p: "malloc sr m q h = Some (p, h')" "p \<noteq> 0" "x = (p, rounded q)" and q: "0 < unat q" "unat q \<le> 2 ^ 61"
    by (auto simp: heap_request_def unat_eq_zero word_neq_0_conv unat_gt_0 split: if_splits)
  then have g: "granted lim (rounded q) p h h'" using malloc_cases [OF _ _ q p(1)] i by blast
  then obtain n where n: "m_nodes h' n = \<lparr>ptr = p, nsize = rounded q\<rparr>" "m_busy h' = m_busy h @ [n]"
      "\<forall>b \<in> set (m_busy h). m_nodes h' b = m_nodes h b" "heap_inv lim h'"
      "block_bytes h' n \<subseteq> heap_units lim h" "heap_units lim h' \<subseteq> heap_units lim h - block_bytes h' n"
    unfolding granted_def by blast
  have "unat q \<le> unat (rounded q)" using unat_rounded [of q] q by simp
  moreover have "heap_extent x = block_bytes h' n" using n(1) p(3) by (intro extent_block) simp
  ultimately show "(heap_inv lim h' \<and> brk_bounded sr lim) \<and> heap_fits q x \<and> heap_extent x \<subseteq> heap_units lim h \<and>
      heap_units lim h' \<subseteq> heap_units lim h - heap_extent x \<and> heap_held h' x \<and> (\<forall>y. heap_held h y \<longrightarrow> heap_held h' y)"
    using i n p by (auto simp: heap_fits_def heap_held_def)
next
  fix h h' :: "'a uheap" and q
  assume i: "heap_inv lim h \<and> brk_bounded sr lim" and a: "heap_request sr m q h = Some (None, h')"
  then have p: "malloc sr m q h = Some (0, h')" and q: "0 < unat q" "unat q \<le> 2 ^ 61"
    by (auto simp: heap_request_def unat_eq_zero unat_gt_0 split: if_splits)
  then have "refused lim h h'" using malloc_cases [OF _ _ q p] i by blast
  then show "(heap_inv lim h' \<and> brk_bounded sr lim) \<and> heap_units lim h' \<subseteq> heap_units lim h \<and> (\<forall>y. heap_held h y \<longrightarrow> heap_held h' y)"
    using i by (auto simp: refused_def heap_units_def heap_held_def)
next
  fix h h' :: "'a uheap" and x
  assume i: "heap_inv lim h \<and> brk_bounded sr lim" and x: "heap_held h x" and a: "heap_release x h = Some h'"
  obtain n where n: "n \<in> set (m_busy h)" "m_nodes h n = \<lparr>ptr = fst x, nsize = snd x\<rparr>" using x by (auto simp: heap_held_def)
  have h': "h' = free (fst x) h" using a by (simp add: heap_release_def)
  note f = free_busy [of lim h n "fst x", folded h']
  have e: "heap_extent x = block_bytes h n" by (rule extent_block [OF n(2)])
  have "heap_held h' y" if y: "heap_held h y" "heap_extent x \<inter> heap_extent y = {}" for y
  proof -
    obtain k where k: "k \<in> set (m_busy h)" "m_nodes h k = \<lparr>ptr = fst y, nsize = snd y\<rparr>" using y(1) by (auto simp: heap_held_def)
    have "good_block h n" using i n(1) by (auto simp: heap_inv_def busy_ok_def)
    then have "block_bytes h n \<noteq> {}" by (auto simp: good_block_def block_bytes_def)
    then have "k \<noteq> n" using y(2) extent_block [OF k(2)] e by auto
    then show ?thesis using f k i n by (auto simp: heap_held_def intro!: bexI [of _ k])
  qed
  then show "(heap_inv lim h' \<and> brk_bounded sr lim) \<and> heap_units lim h' \<subseteq> heap_units lim h \<union> heap_extent x \<and>
      (\<forall>y. heap_held h y \<and> heap_extent x \<inter> heap_extent y = {} \<longrightarrow> heap_held h' y)"
    using f i n e by (auto simp: heap_units_def)
qed

section \<open>The start\<close>

lemma heap_sbrk_lists: "heap_sbrk sr m sz h = (p, h') \<Longrightarrow> m_free h' = m_free h"
  by (auto simp: heap_sbrk_def case_prod_beta Let_def)

lemma malloc_init_inv:
  assumes b: "brk_bounded sr lim" "lim < 2 ^ 62" and u: "ubrk h0 \<noteq> 0" "unat (ubrk h0) \<le> lim"
    and s: "malloc_init sr m h0 = Some h" and f: "m_free h \<noteq> []" "ptr (m_nodes h (hd (m_free h))) \<noteq> 0"
  shows "heap_inv lim h"
proof -
  let ?e = "h0\<lparr>m_free_node := [], m_free := [], m_busy := []\<rparr>"
  have e: "heap_inv lim ?e" using b(2) u by (simp add: heap_inv_def nodes_ok_def all_nodes_def busy_ok_def free_ok_def)
  obtain p g where g: "heap_sbrk sr m (of_nat (NODE_INC_SIZE * NODE_SIZE)) ?e = (p, g)" by force
  have z: "unat (of_nat (NODE_INC_SIZE * NODE_SIZE) :: u64) = NODE_INC_SIZE * NODE_SIZE"
    by (simp add: NODE_INC_SIZE_def NODE_SIZE_def)
  have z2: "0 < unat (of_nat (NODE_INC_SIZE * NODE_SIZE) :: u64)" "unat (of_nat (NODE_INC_SIZE * NODE_SIZE) :: u64) < 2 ^ 62"
    unfolding z by (simp_all add: NODE_INC_SIZE_def NODE_SIZE_def)
  show ?thesis
  proof (rule heap_sbrk_cases [OF b(1) heap_invD(1-3) [OF e] z2 g])
    fix w assume "p = 0" "g = ?e\<lparr>world := w\<rparr>"
    then show ?thesis using s g f(1) by (auto simp: malloc_init_def)
  next
    fix w assume p: "p = ubrk ?e" "g = ?e\<lparr>ubrk := ubrk ?e + of_nat (NODE_INC_SIZE * NODE_SIZE), world := w\<rparr>"
      "unat (ubrk ?e + of_nat (NODE_INC_SIZE * NODE_SIZE)) = unat (ubrk ?e) + unat (of_nat (NODE_INC_SIZE * NODE_SIZE) :: u64)"
      "unat (ubrk ?e) + unat (of_nat (NODE_INC_SIZE * NODE_SIZE) :: u64) \<le> lim"
    let ?f = "g\<lparr>m_free_node := m_free_node g @ node_array p\<rparr>"
    have fi: "heap_inv lim ?f" using grow_nodes [OF e, of "ubrk g" w] p z by simp
    have fe: "m_free_node ?f \<noteq> []" by (simp add: node_array_def NODE_INC_SIZE_def)
    obtain n h1 where t: "take_node ?f = (n, h1)" by force
    note n = take_node_spec [OF fi fe t]
    have n0: "n \<noteq> 0" "m_free h1 = []" "m_busy h1 = []" using spare_facts(2) [OF n(1)] n(2,3) p by simp_all
    note i1 = spare_facts(1) [OF n(1)]
    let ?h = "upd_node n (\<lambda>x. x\<lparr>nsize := EACH_BRK\<rparr>) h1"
    obtain k h2 where k: "heap_sbrk sr m EACH_BRK ?h = (k, h2)" by force
    have "alloc_node sr m ?f = (n, h1)" unfolding alloc_node_def if_not_P [OF fe] by (rule t)
    then have h: "h = (upd_node n (\<lambda>x. x\<lparr>ptr := k\<rparr>) h2)\<lparr>m_free := [n]\<rparr>"
      using s g k n0 p(1) u(1) heap_sbrk_lists [OF k] by (simp add: malloc_init_def Let_def)
    have bd: "unat (ubrk ?h) \<le> lim" "ubrk ?h \<noteq> 0" using heap_invD [OF i1] by simp_all
    show ?thesis
    proof (rule heap_sbrk_cases [OF b(1) bd(1) b(2) bd(2) _ _ k])
      fix w assume "k = 0" "h2 = ?h\<lparr>world := w\<rparr>"
      then show ?thesis using f(2) h by simp
    next
      fix w assume q: "k = ubrk ?h" "h2 = ?h\<lparr>ubrk := ubrk ?h + EACH_BRK, world := w\<rparr>"
        "unat (ubrk ?h + EACH_BRK) = unat (ubrk ?h) + unat EACH_BRK" "unat (ubrk ?h) + unat EACH_BRK \<le> lim"
      let ?g = "upd_node n (\<lambda>x. x\<lparr>ptr := k\<rparr>) h2"
      have e: "0 < unat EACH_BRK" by (simp add: EACH_BRK_def)
      have "loose lim n ?g"
        by (rule fresh_loose(1) [OF n(1) e]) (use q in \<open>simp_all add: block_fields\<close>)
      moreover have "merge_free n ?g = h" using h n0(2) q(2) by (simp add: merge_free_def)
      ultimately show ?thesis using merge_free_spec(1) by metis
    qed (simp_all add: EACH_BRK_def)
  qed
qed


section \<open>An example\<close>

definition example_brk :: "unit sendrecv" where
  "example_brk who m w = (0, m\<lparr>mtype := (if get_brk m \<le> 0x100000000 then 0 else -1)\<rparr>, w)"

definition example_heap0 :: "unit uheap" where
  "example_heap0 = \<lparr>m_nodes = (\<lambda>_. \<lparr>ptr = 0, nsize = 0\<rparr>), m_free_node = [], m_free = [], m_busy = [], ubrk = 0x400000, world = ()\<rparr>"

lemma example_brk_eq: "brk example_brk m addr w = (if addr \<le> 0x100000000 then 0 else -1, w)"
  by (simp add: brk_def syscall_def example_brk_def put_brk_def get_brk_def to_int_def)

lemma example_brk_bounded: "brk_bounded example_brk 0x100000000"
  by (auto simp: brk_bounded_def example_brk_eq word_le_nat_alt)

lemma node_array_Cons: "node_array p = p # map (\<lambda>i. p + of_nat (NODE_SIZE * i)) [1..<NODE_INC_SIZE]"
proof -
  have "[0..<NODE_INC_SIZE] = 0 # [1..<NODE_INC_SIZE]"
    using upt_conv_Cons [of 0 NODE_INC_SIZE] by (simp add: NODE_INC_SIZE_def del: upt_Suc upt_rec_numeral)
  then show ?thesis unfolding node_array_def by simp
qed

definition example_heap :: "unit uheap" where
  "example_heap = \<lparr>m_nodes = (\<lambda>_. \<lparr>ptr = 0, nsize = 0\<rparr>)(0x400000 := \<lparr>ptr = 0x408000, nsize = 0x2000\<rparr>),
     m_free_node = map (\<lambda>i. 0x400000 + of_nat (NODE_SIZE * i)) [1..<NODE_INC_SIZE], m_free = [0x400000], m_busy = [],
     ubrk = 0x40a000, world = ()\<rparr>"

lemma example_init: "malloc_init example_brk zero_message example_heap0 = Some example_heap"
proof -
  have "NODE_INC_SIZE * NODE_SIZE = 32768" by (simp add: NODE_INC_SIZE_def NODE_SIZE_def)
  then show ?thesis
    unfolding malloc_init_def example_heap0_def example_heap_def
    by (simp add: heap_sbrk_def sbrk_def example_brk_eq node_array_Cons alloc_node_def take_node_def upd_node_def EACH_BRK_def
        fun_eq_iff del: of_nat_mult upt_Suc)
qed

lemma example_request: "\<exists>h. heap_request example_brk zero_message 100 example_heap = Some (Some (0x408000, 104), h)"
proof -
  have "[1..<NODE_INC_SIZE] = 1 # [2..<NODE_INC_SIZE]"
    using upt_conv_Cons [of 1 NODE_INC_SIZE] by (simp add: NODE_INC_SIZE_def numeral_2_eq_2 del: upt_Suc upt_rec_numeral)
  then have f: "m_free_node example_heap = 0x400020 # map (\<lambda>i. 0x400000 + of_nat (NODE_SIZE * i)) [2..<NODE_INC_SIZE]"
    by (simp add: example_heap_def NODE_SIZE_def del: upt_Suc upt_rec_numeral of_nat_mult)
  have r: "rounded 100 = 104" by (simp add: rounded_def)
  have o: "m_free example_heap = [0x400000]" "m_nodes example_heap 0x400000 = \<lparr>ptr = 0x408000, nsize = 0x2000\<rparr>" "m_busy example_heap = []"
    by (simp_all add: example_heap_def)
  have "\<exists>h. malloc example_brk zero_message 100 example_heap = Some (0x408000, h)"
    unfolding malloc_def [folded rounded_def] r Let_def
    by (simp add: o f malloc_split_def alloc_node_def take_node_def merge_free_def Let_def)
  then obtain h where "malloc example_brk zero_message 100 example_heap = Some (0x408000, h)" by blast
  then show ?thesis by (intro exI [of _ h]) (simp add: heap_request_def r)
qed


end
