(* ===== verification/Vfs.thy ===== *)
theory Vfs
  imports HashMap Msg
begin

text \<open>
  The file system server (\<open>src/src/srv/vfs/vfs.c\<close>).  Directory entries, open files and the file
  tables of processes are objects named by addresses, 0 is null, and \<open>malloc\<close> gives the next
  address: it is assumed not to run out of memory (the code only prints a message when it does).
  The file systems and drivers the server calls are the argument \<open>srv\<close>; their state is \<open>'w\<close>.
  A dereference of null or an access behind an array is \<open>None\<close>.
\<close>

section \<open>Data\<close>

type_synonym dptr = nat
type_synonym fptr = nat
type_synonym tptr = nat

definition DE_NORMAL :: u32 where "DE_NORMAL = 1"

definition DE_DEV :: u32 where "DE_DEV = 2"

record dentry =
  f_fs_pid :: int
  f_flags :: u32
  f_ino :: u64
  f_count :: int
  f_size :: u64
  f_mode :: u32
  f_name :: string
  f_parent :: dptr
  f_children :: "dptr list"

record ofile =
  fl_mode :: u32
  f_dentry :: dptr
  f_pos :: u64

definition NR_FILES :: nat where "NR_FILES = 64"

record proc_file =
  pf_pid :: int
  filp :: "fptr list"
  cwd :: dptr

record vfs =
  dentries :: "dptr \<Rightarrow> dentry"
  files :: "fptr \<Rightarrow> ofile"
  tables :: "tptr \<Rightarrow> proc_file"
  file_map :: "tptr buckets"
  brk_ptr :: nat
  root_entry :: dptr
  v_stdin :: dptr
  v_stdout :: dptr
  v_stderr :: dptr
  mounts :: "(int \<times> dptr) list"

text \<open>
  The calls to the servers behind a directory entry, by the process id of the server.  \<open>None\<close> is a
  failed \<open>_kmap\<close> or \<open>_sendrecv\<close>; a lookup also gives the number, size and mode of the file.
\<close>

record 'w servers =
  srv_lookup :: "int \<Rightarrow> u64 \<Rightarrow> string \<Rightarrow> 'w \<Rightarrow> (int \<times> u64 \<times> u64 \<times> u32) option \<times> 'w"
  srv_read :: "int \<Rightarrow> u64 \<Rightarrow> u64 \<Rightarrow> u64 \<Rightarrow> u64 \<Rightarrow> u64 \<Rightarrow> 'w \<Rightarrow> int option \<times> 'w"
  srv_write :: "int \<Rightarrow> u64 \<Rightarrow> u64 \<Rightarrow> u64 \<Rightarrow> u64 \<Rightarrow> u64 \<Rightarrow> 'w \<Rightarrow> int option \<times> 'w"
  srv_stat :: "int \<Rightarrow> u64 \<Rightarrow> u64 \<Rightarrow> 'w \<Rightarrow> int option \<times> 'w"
  srv_getdents :: "int \<Rightarrow> u64 \<Rightarrow> u64 \<Rightarrow> u64 \<Rightarrow> u64 \<Rightarrow> 'w \<Rightarrow> int option \<times> 'w"
  srv_mkdir :: "int \<Rightarrow> u64 \<Rightarrow> u64 \<Rightarrow> u32 \<Rightarrow> 'w \<Rightarrow> int option \<times> 'w"
  srv_mount :: "int \<Rightarrow> cint \<Rightarrow> 'w \<Rightarrow> (u64 \<times> u64 \<times> u32) option \<times> 'w"

definition upd_dentry :: "dptr \<Rightarrow> (dentry \<Rightarrow> dentry) \<Rightarrow> vfs \<Rightarrow> vfs" where
  "upd_dentry d f s = s\<lparr>dentries := (dentries s)(d := f (dentries s d))\<rparr>"

definition upd_file :: "fptr \<Rightarrow> (ofile \<Rightarrow> ofile) \<Rightarrow> vfs \<Rightarrow> vfs" where
  "upd_file p f s = s\<lparr>files := (files s)(p := f (files s p))\<rparr>"

definition upd_table :: "tptr \<Rightarrow> (proc_file \<Rightarrow> proc_file) \<Rightarrow> vfs \<Rightarrow> vfs" where
  "upd_table t f s = s\<lparr>tables := (tables s)(t := f (tables s t))\<rparr>"

definition malloc :: "vfs \<Rightarrow> nat \<times> vfs" where
  "malloc s = (brk_ptr s, s\<lparr>brk_ptr := brk_ptr s + 1\<rparr>)"

section \<open>The table of processes\<close>

definition FILE_MAP_SIZE :: int where "FILE_MAP_SIZE = 1024"

definition file_bucket :: "int \<Rightarrow> nat" where
  "file_bucket pid = nat (pid mod FILE_MAP_SIZE)"

definition map_proc_file :: "int \<Rightarrow> vfs \<Rightarrow> tptr option" where
  "map_proc_file pid s = bucket_find (\<lambda>t. pf_pid (tables s t)) pid (file_map s (file_bucket pid))"

definition unmap_proc_file :: "int \<Rightarrow> vfs \<Rightarrow> vfs" where
  "unmap_proc_file pid s =
     (case map_proc_file pid s of
        None \<Rightarrow> s
      | Some t \<Rightarrow>
          let i = file_bucket pid in s\<lparr>file_map := (file_map s)(i := remove1 t (file_map s i))\<rparr>)"

definition append_proc_file :: "tptr \<Rightarrow> vfs \<Rightarrow> int \<times> vfs" where
  "append_proc_file t s =
     (let pid = pf_pid (tables s t); i = file_bucket pid
      in case bucket_find (\<lambda>t. pf_pid (tables s t)) pid (file_map s i) of
           Some _ \<Rightarrow> (-1, s)
         | None \<Rightarrow> (0, s\<lparr>file_map := (file_map s)(i := file_map s i @ [t])\<rparr>))"

section \<open>Open files\<close>

definition make_filp :: "u32 \<Rightarrow> dptr \<Rightarrow> vfs \<Rightarrow> fptr \<times> vfs" where
  "make_filp mode entry s =
     (let (p, s) = malloc s;
          s = upd_file p (\<lambda>_. \<lparr>fl_mode = mode, f_dentry = entry, f_pos = 0\<rparr>) s
      in (p, upd_dentry entry (\<lambda>d. d\<lparr>f_count := f_count d + 1\<rparr>) s))"

definition free_filp :: "fptr \<Rightarrow> vfs \<Rightarrow> vfs" where
  "free_filp p s = upd_dentry (f_dentry (files s p)) (\<lambda>d. d\<lparr>f_count := f_count d - 1\<rparr>) s"

definition set_filp :: "tptr \<Rightarrow> nat \<Rightarrow> fptr \<Rightarrow> vfs \<Rightarrow> vfs" where
  "set_filp t fd p s = upd_table t (\<lambda>f. f\<lparr>filp := (filp f)[fd := p]\<rparr>) s"

text \<open>The three standard files of a table.\<close>

definition std_files :: "tptr \<Rightarrow> vfs \<Rightarrow> vfs" where
  "std_files t s =
     (let (p, s) = make_filp (f_mode (dentries s (v_stdin s))) (v_stdin s) s;
          s = set_filp t 0 p s;
          (p, s) = make_filp (f_mode (dentries s (v_stdout s))) (v_stdout s) s;
          s = set_filp t 1 p s;
          (p, s) = make_filp (f_mode (dentries s (v_stderr s))) (v_stderr s) s
      in set_filp t 2 p s)"

definition init_proc_file :: "int \<Rightarrow> vfs \<Rightarrow> tptr \<times> vfs" where
  "init_proc_file pid s =
     (let (t, s) = malloc s;
          s = upd_table t (\<lambda>_. \<lparr>pf_pid = pid, filp = replicate NR_FILES 0, cwd = root_entry s\<rparr>) s;
          s = upd_dentry (root_entry s) (\<lambda>d. d\<lparr>f_count := f_count d + 1\<rparr>) s
      in (t, std_files t s))"

text \<open>A process that is not in the table yet gets a table of its own.\<close>

definition get_table :: "int \<Rightarrow> vfs \<Rightarrow> tptr \<times> vfs" where
  "get_table pid s =
     (case map_proc_file pid s of
        Some t \<Rightarrow> (t, s)
      | None \<Rightarrow> let (t, s) = init_proc_file pid s in (t, snd (append_proc_file t s)))"

definition getfilp :: "int \<Rightarrow> cint \<Rightarrow> vfs \<Rightarrow> fptr \<times> vfs" where
  "getfilp pid fd s =
     (let (t, s) = get_table pid s
      in (if \<not> (sint fd \<ge> 0 \<and> sint fd < int NR_FILES) then 0 else filp (tables s t) ! nat (sint fd), s))"

section \<open>Paths\<close>

text \<open>The buffer of \<open>vfs_lookup\<close> has 256 bytes.\<close>

definition getfilename :: "string \<Rightarrow> string option" where
  "getfilename sptr =
     (let name = takeWhile (\<lambda>c. c \<noteq> CHR ''/'') sptr in if length name < 256 then Some name else None)"

text \<open>\<open>f_name\<close> has 128 bytes.\<close>

definition vfs_lookup_in_fs :: "'w servers \<Rightarrow> dptr \<Rightarrow> string \<Rightarrow> vfs \<Rightarrow> 'w \<Rightarrow> (dptr \<times> vfs \<times> 'w) option" where
  "vfs_lookup_in_fs srv par filename s w =
     (let (child, s) = malloc s;
          (r, w) = srv_lookup srv (f_fs_pid (dentries s par)) (f_ino (dentries s par)) filename w
      in case r of
           None \<Rightarrow> Some (0, s, w)
         | Some (retval, ino, sz, mode) \<Rightarrow>
             if retval \<noteq> 0 then Some (0, s, w)
             else if \<not> length filename < 128 then None
             else
               let s = upd_dentry child (\<lambda>_. \<lparr>f_fs_pid = f_fs_pid (dentries s par), f_flags = DE_NORMAL, f_ino = ino,
                     f_count = 1, f_size = sz, f_mode = mode, f_name = filename, f_parent = par, f_children = []\<rparr>) s;
                   s = upd_dentry par (\<lambda>d. d\<lparr>f_children := child # f_children d\<rparr>) s;
                   s = upd_dentry par (\<lambda>d. d\<lparr>f_count := f_count d + 1\<rparr>) s
               in Some (child, s, w))"

definition skip_slash :: "string \<Rightarrow> string" where
  "skip_slash sptr = (case sptr of c # r \<Rightarrow> if c = CHR ''/'' then r else sptr | [] \<Rightarrow> [])"

lemma skip_slash_shorter:
  assumes "getfilename sptr = Some name" "sptr \<noteq> []"
  shows "length (skip_slash (drop (length name) sptr)) < length sptr"
proof -
  have n: "name = takeWhile (\<lambda>c. c \<noteq> CHR ''/'') sptr" using assms(1) by (auto simp: getfilename_def Let_def split: if_splits)
  show ?thesis
  proof (cases "name = []")
    case True
    then obtain r where "sptr = CHR ''/'' # r" using n assms(2) by (cases sptr) (auto split: if_splits)
    then show ?thesis using True by (simp add: skip_slash_def)
  next
    case False
    have "length (skip_slash t) \<le> length t" for t by (auto simp: skip_slash_def split: list.splits)
    then have "length (skip_slash (drop (length name) sptr)) \<le> length sptr - length name" by (metis length_drop)
    moreover have "0 < length name" "length name \<le> length sptr" using False n by (simp_all add: length_takeWhile_le)
    ultimately show ?thesis by linarith
  qed
qed

function walk :: "'w servers \<Rightarrow> string \<Rightarrow> dptr \<Rightarrow> vfs \<Rightarrow> 'w \<Rightarrow> (dptr \<times> vfs \<times> 'w) option" where
  "walk srv sptr cur s w =
     (if sptr = [] then Some (cur, s, w)
      else Option.bind (getfilename sptr) (\<lambda>filename.
        let sptr = skip_slash (drop (length filename) sptr)
        in if filename = ''..'' then
             if cur = 0 then None else walk srv sptr (f_parent (dentries s cur)) s w
           else if filename = ''.'' then walk srv sptr cur s w
           else if cur = 0 then None
           else case List.find (\<lambda>pos. f_name (dentries s pos) = filename) (f_children (dentries s cur)) of
             Some next \<Rightarrow> walk srv sptr next (upd_dentry next (\<lambda>d. d\<lparr>f_count := f_count d + 1\<rparr>) s) w
           | None \<Rightarrow>
               (case vfs_lookup_in_fs srv cur filename s w of
                  None \<Rightarrow> None
                | Some (next, s, w) \<Rightarrow> if next = 0 then Some (0, s, w) else walk srv sptr next s w)))"
  by pat_completeness auto

termination
  by (relation "measure (\<lambda>(srv, sptr, cur, s, w). length sptr)") (auto dest: skip_slash_shorter)

declare walk.simps [simp del]

definition vfs_lookup :: "'w servers \<Rightarrow> dptr \<Rightarrow> string \<Rightarrow> vfs \<Rightarrow> 'w \<Rightarrow> (dptr \<times> vfs \<times> 'w) option" where
  "vfs_lookup srv cwd' path s w =
     (case path of
        c # r \<Rightarrow> if c = CHR ''/'' then walk srv r (root_entry s) s w else walk srv path cwd' s w
      | [] \<Rightarrow> walk srv path cwd' s w)"

section \<open>Requests on open files\<close>

definition vfs_read :: "'w servers \<Rightarrow> int \<Rightarrow> cint \<Rightarrow> u64 \<Rightarrow> u64 \<Rightarrow> vfs \<Rightarrow> 'w \<Rightarrow> int \<times> vfs \<times> 'w" where
  "vfs_read srv pid fd buf sz s w =
     (let (p, s) = getfilp pid fd s
      in if p = 0 then (-1, s, w)
         else
           let d = dentries s (f_dentry (files s p));
               (r, w) = srv_read srv (f_fs_pid d) (f_ino d) (f_size d) (f_pos (files s p)) buf sz w
           in case r of
                None \<Rightarrow> (-1, s, w)
              | Some retval \<Rightarrow>
                  (to_int retval,
                   if retval > 0 then upd_file p (\<lambda>f. f\<lparr>f_pos := f_pos f + of_int retval\<rparr>) s else s, w))"

definition vfs_write :: "'w servers \<Rightarrow> int \<Rightarrow> cint \<Rightarrow> u64 \<Rightarrow> u64 \<Rightarrow> vfs \<Rightarrow> 'w \<Rightarrow> int \<times> vfs \<times> 'w" where
  "vfs_write srv pid fd buf sz s w =
     (let (p, s) = getfilp pid fd s
      in if p = 0 then (-1, s, w)
         else
           let d = dentries s (f_dentry (files s p));
               (r, w) = srv_write srv (f_fs_pid d) (f_ino d) (f_size d) (f_pos (files s p)) buf sz w
           in case r of
                None \<Rightarrow> (-1, s, w)
              | Some retval \<Rightarrow>
                  (to_int retval,
                   if retval > 0 then upd_file p (\<lambda>f. f\<lparr>f_pos := f_pos f + of_int retval\<rparr>) s else s, w))"

definition O_APPEND :: cint where "O_APPEND = 1024"

definition free_fd :: "fptr list \<Rightarrow> nat option" where
  "free_fd fs = List.find (\<lambda>fd. fs ! fd = 0) [0..<NR_FILES]"

definition vfs_open :: "'w servers \<Rightarrow> int \<Rightarrow> string \<Rightarrow> cint \<Rightarrow> vfs \<Rightarrow> 'w \<Rightarrow> (int \<times> vfs \<times> 'w) option" where
  "vfs_open srv pid path oflag s w =
     (let (t, s) = get_table pid s
      in Option.bind (vfs_lookup srv (cwd (tables s t)) path s w) (\<lambda>(entry, s, w).
           if entry = 0 then Some (-1, s, w)
           else
             let (p, s) = make_filp (f_mode (dentries s entry)) entry s;
                 s = (if oflag AND O_APPEND \<noteq> 0
                      then upd_file p (\<lambda>f. f\<lparr>f_pos := f_size (dentries s entry)\<rparr>) s else s)
             in case free_fd (filp (tables s t)) of
                  Some fd \<Rightarrow> Some (int fd, set_filp t fd p s, w)
                | None \<Rightarrow> Some (-1, s, w)))"

definition vfs_close :: "int \<Rightarrow> cint \<Rightarrow> vfs \<Rightarrow> (int \<times> vfs) option" where
  "vfs_close pid fd s =
     Option.bind (map_proc_file pid s) (\<lambda>t.
       if \<not> (0 \<le> sint fd \<and> sint fd < int NR_FILES) then None
       else
         let p = filp (tables s t) ! nat (sint fd)
         in if p = 0 then Some (0, s)
            else Some (0, set_filp t (nat (sint fd)) 0 (free_filp p s)))"

definition SEEK_SET :: cint where "SEEK_SET = 0"

definition SEEK_CUR :: cint where "SEEK_CUR = 1"

definition SEEK_END :: cint where "SEEK_END = 2"

definition vfs_lseek :: "int \<Rightarrow> cint \<Rightarrow> u64 \<Rightarrow> cint \<Rightarrow> vfs \<Rightarrow> int \<times> vfs" where
  "vfs_lseek pid fd offset whence s =
     (let (p, s) = getfilp pid fd s
      in if p = 0 then (-1, s)
         else
           let f = files s p;
               pos = (if whence = SEEK_SET then Some offset
                      else if whence = SEEK_CUR then Some (f_pos f + offset)
                      else if whence = SEEK_END then Some (f_size (dentries s (f_dentry f)) + offset)
                      else None)
           in case pos of
                None \<Rightarrow> (-1, s)
              | Some pos \<Rightarrow> if sint pos < 0 then (-1, s) else (sint pos, upd_file p (\<lambda>f. f\<lparr>f_pos := pos\<rparr>) s))"

section \<open>Working directories\<close>

text \<open>
  The caller's buffer, by offsets from its start; the code passes over a negative result of the
  recursion, so offsets may be negative.
\<close>

type_synonym cbuf = "int \<Rightarrow> char"

definition put_chars :: "string \<Rightarrow> int \<Rightarrow> cbuf \<Rightarrow> cbuf" where
  "put_chars cs n b = (\<lambda>i. if n \<le> i \<and> i < n + int (length cs) then cs ! nat (i - n) else b i)"

partial_function (option) getcwdstr :: "vfs \<Rightarrow> dptr \<Rightarrow> int \<Rightarrow> cbuf \<Rightarrow> (int \<times> cbuf) option" where
  "getcwdstr s entry sz buf =
     (let name = f_name (dentries s entry); len = int (length name)
      in if entry = root_entry s then
           if sz < len + 1 then Some (-1, buf)
           else Some (len, put_chars (name @ [CHR 0x00]) 0 buf)
         else if entry = 0 then None
         else
           Option.bind (getcwdstr s (f_parent (dentries s entry)) sz buf) (\<lambda>(n, buf).
             if sz < len + 2 then Some (-1, buf)
             else Some (n + len + 1, put_chars (name @ [CHR ''/'', CHR 0x00]) n buf)))"

definition vfs_getcwd :: "int \<Rightarrow> cbuf \<Rightarrow> u64 \<Rightarrow> vfs \<Rightarrow> (int \<times> cbuf) option" where
  "vfs_getcwd pid buf sz s =
     (case map_proc_file pid s of
        None \<Rightarrow> Some (-1, buf)
      | Some t \<Rightarrow>
          Option.bind (getcwdstr s (cwd (tables s t)) (sint (ucast sz :: u32)) buf) (\<lambda>(n, buf).
            Some (if n < 0 then -1 else 0, buf)))"

definition vfs_chdir :: "'w servers \<Rightarrow> int \<Rightarrow> string \<Rightarrow> vfs \<Rightarrow> 'w \<Rightarrow> (int \<times> vfs \<times> 'w) option" where
  "vfs_chdir srv pid pathname s w =
     (case map_proc_file pid s of
        None \<Rightarrow> Some (-1, s, w)
      | Some t \<Rightarrow>
          Option.bind (vfs_lookup srv (cwd (tables s t)) pathname s w) (\<lambda>(newcwd, s, w).
            if newcwd = 0 then Some (-1, s, w)
            else
              let s = upd_dentry (cwd (tables s t)) (\<lambda>d. d\<lparr>f_count := f_count d - 1\<rparr>) s
              in Some (0, upd_table t (\<lambda>f. f\<lparr>cwd := newcwd\<rparr>) s, w)))"

definition vfs_stat :: "'w servers \<Rightarrow> int \<Rightarrow> string \<Rightarrow> u64 \<Rightarrow> vfs \<Rightarrow> 'w \<Rightarrow> (int \<times> vfs \<times> 'w) option" where
  "vfs_stat srv pid pathname buf s w =
     (case map_proc_file pid s of
        None \<Rightarrow> Some (-1, s, w)
      | Some t \<Rightarrow>
          Option.bind (vfs_lookup srv (cwd (tables s t)) pathname s w) (\<lambda>(entry, s, w).
            if entry = 0 then Some (-1, s, w)
            else
              let (r, w) = srv_stat srv (f_fs_pid (dentries s entry)) (f_ino (dentries s entry)) buf w
              in Some (if r = None then -1 else 0, s, w)))"

definition vfs_getdents :: "'w servers \<Rightarrow> int \<Rightarrow> cint \<Rightarrow> u64 \<Rightarrow> u64 \<Rightarrow> vfs \<Rightarrow> 'w \<Rightarrow> int \<times> vfs \<times> 'w" where
  "vfs_getdents srv pid fd dirp nbytes s w =
     (let (p, s) = getfilp pid fd s
      in if p = 0 then (-1, s, w)
         else
           let d = dentries s (f_dentry (files s p));
               (r, w) = srv_getdents srv (f_fs_pid d) (f_ino d) nbytes (f_pos (files s p)) dirp w
           in case r of
                None \<Rightarrow> (-1, s, w)
              | Some retval \<Rightarrow>
                  if retval < 0 then (-1, s, w)
                  else (retval, upd_file p (\<lambda>f. f\<lparr>f_pos := f_pos f + of_int retval\<rparr>) s, w))"

definition vfs_mkdir :: "'w servers \<Rightarrow> int \<Rightarrow> u64 \<Rightarrow> u32 \<Rightarrow> vfs \<Rightarrow> 'w \<Rightarrow> int \<times> vfs \<times> 'w" where
  "vfs_mkdir srv pid name mode s w =
     (case map_proc_file pid s of
        None \<Rightarrow> (-1, s, w)
      | Some t \<Rightarrow>
          let d = dentries s (cwd (tables s t));
              (r, w) = srv_mkdir srv (f_fs_pid d) (f_ino d) name mode w
          in (case r of None \<Rightarrow> -1 | Some retval \<Rightarrow> to_int retval, s, w))"

section \<open>Processes\<close>

text \<open>The copy of one open file of the parent; 0 stays 0.\<close>

definition fork_fd :: "tptr \<Rightarrow> tptr \<Rightarrow> nat \<Rightarrow> vfs \<Rightarrow> vfs" where
  "fork_fd pt t fd s =
     (let pfilp = filp (tables s pt) ! fd
      in if pfilp = 0 then s
         else
           let (p, s) = malloc s;
               s = upd_file p (\<lambda>_. files s pfilp) s;
               s = upd_dentry (f_dentry (files s p)) (\<lambda>d. d\<lparr>f_count := f_count d + 1\<rparr>) s
           in set_filp t fd p s)"

definition vfs_forkfs :: "int \<Rightarrow> int \<Rightarrow> vfs \<Rightarrow> int \<times> vfs" where
  "vfs_forkfs ppid pid s =
     (let (pt, s) = get_table ppid s;
          (t, s) = malloc s;
          s = upd_table t (\<lambda>_. \<lparr>pf_pid = pid, filp = replicate NR_FILES 0, cwd = cwd (tables s pt)\<rparr>) s;
          s = upd_dentry (cwd (tables s t)) (\<lambda>d. d\<lparr>f_count := f_count d + 1\<rparr>) s;
          s = fold (fork_fd pt t) [0..<NR_FILES] s;
          s = snd (append_proc_file t s)
      in (0, s))"

definition exec_fd :: "tptr \<Rightarrow> nat \<Rightarrow> vfs \<Rightarrow> vfs" where
  "exec_fd t fd s =
     (let p = filp (tables s t) ! fd; s = (if p \<noteq> 0 then free_filp p s else s)
      in set_filp t fd 0 s)"

definition vfs_execfs :: "int \<Rightarrow> vfs \<Rightarrow> int \<times> vfs" where
  "vfs_execfs pid s =
     (case map_proc_file pid s of
        None \<Rightarrow> let (t, s) = init_proc_file pid s in (0, snd (append_proc_file t s))
      | Some t \<Rightarrow> (0, std_files t (fold (exec_fd t) [0..<NR_FILES] s)))"

definition free_fd_at :: "tptr \<Rightarrow> nat \<Rightarrow> vfs \<Rightarrow> vfs" where
  "free_fd_at t fd s = (let p = filp (tables s t) ! fd in if p = 0 then s else free_filp p s)"

definition vfs_freefs :: "int \<Rightarrow> vfs \<Rightarrow> int \<times> vfs" where
  "vfs_freefs pid s =
     (case map_proc_file pid s of
        None \<Rightarrow> (0, s)
      | Some t \<Rightarrow> (0, unmap_proc_file pid (fold (free_fd_at t) [0..<NR_FILES] s)))"

section \<open>Start\<close>

definition mount_root :: "'w servers \<Rightarrow> int \<Rightarrow> cint \<Rightarrow> vfs \<Rightarrow> 'w \<Rightarrow> int \<times> vfs \<times> 'w" where
  "mount_root srv fs_pid part s w =
     (let (d, s) = malloc s;
          s = s\<lparr>root_entry := d\<rparr>;
          (r, w) = srv_mount srv fs_pid part w
      in case r of
           None \<Rightarrow> (-1, s, w)
         | Some (ino, sz, mode) \<Rightarrow>
             let s = upd_dentry d (\<lambda>_. \<lparr>f_fs_pid = fs_pid, f_flags = DE_NORMAL, f_ino = ino, f_count = 1, f_size = sz,
                   f_mode = mode, f_name = ''/'', f_parent = d, f_children = []\<rparr>) s;
                 (_, s) = malloc s
             in (0, s\<lparr>mounts := mounts s @ [(fs_pid, d)]\<rparr>, w))"

definition dev_table :: "(string \<times> int \<times> u32) list" where
  "dev_table = [(''video'', IPC_VIDEO, 0x92), (''keyboard'', IPC_KB, 0x124)]"

definition mount_dev_file :: "dptr \<Rightarrow> nat \<times> string \<times> int \<times> u32 \<Rightarrow> vfs \<Rightarrow> vfs" where
  "mount_dev_file dev_dir = (\<lambda>(i, name, driver_pid, mode) s.
     let (dev, s) = malloc s;
         s = upd_dentry dev (\<lambda>_. \<lparr>f_fs_pid = driver_pid, f_flags = DE_DEV, f_ino = of_nat i, f_count = 1, f_size = 0,
               f_mode = mode, f_name = name, f_parent = 0, f_children = []\<rparr>) s;
         s = upd_dentry dev_dir (\<lambda>d. d\<lparr>f_children := f_children d @ [dev]\<rparr>) s;
         s = upd_dentry dev_dir (\<lambda>d. d\<lparr>f_count := f_count d + 1\<rparr>) s
     in if driver_pid = IPC_VIDEO then s\<lparr>v_stdout := dev, v_stderr := dev\<rparr>
        else if driver_pid = IPC_KB then s\<lparr>v_stdin := dev\<rparr> else s)"

definition mount_dev :: "vfs \<Rightarrow> int \<times> vfs" where
  "mount_dev s =
     (let (dev_dir, s) = malloc s;
          s = upd_dentry dev_dir (\<lambda>_. \<lparr>f_fs_pid = IPC_KERNEL, f_flags = DE_DEV, f_ino = 0, f_count = 0, f_size = 0,
                f_mode = 0x1b6, f_name = ''dev'', f_parent = 0, f_children = []\<rparr>) s;
          s = upd_dentry (root_entry s) (\<lambda>d. d\<lparr>f_children := f_children d @ [dev_dir]\<rparr>) s;
          s = upd_dentry (root_entry s) (\<lambda>d. d\<lparr>f_count := f_count d + 1\<rparr>) s;
          s = fold (mount_dev_file dev_dir) (enumerate 0 dev_table) s
      in (0, s))"

text \<open>The part of \<open>main\<close> behind the arguments; \<open>None\<close> is the endless loop after a failure.\<close>

definition vfs_start :: "'w servers \<Rightarrow> cint \<Rightarrow> vfs \<Rightarrow> 'w \<Rightarrow> (vfs \<times> 'w) option" where
  "vfs_start srv part s w =
     (let s = s\<lparr>file_map := (\<lambda>_. []), mounts := []\<rparr>;
          (r, s, w) = mount_root srv IPC_EXT2 part s w
      in if r \<noteq> 0 then None else let (r, s) = mount_dev s in if r \<noteq> 0 then None else Some (s, w))"

section \<open>Serving a request\<close>

text \<open>
  One turn of \<open>do_process\<close>: the result is the reply's \<open>retval\<close>.  \<open>str\<close> reads a string at a kernel
  address and \<open>cb\<close> is the caller's buffer of a \<open>getcwd\<close>.
\<close>

definition vfs_dispatch ::
  "'w servers \<Rightarrow> (u64 \<Rightarrow> string) \<Rightarrow> message \<Rightarrow> vfs \<Rightarrow> 'w \<Rightarrow> (int \<times> vfs \<times> 'w) option" where
  "vfs_dispatch srv str m s w =
     (let src = msrc m; type = mtype m
      in if type = MSG_READ then case get_read m of (fd, buf, sz) \<Rightarrow> Some (vfs_read srv src fd buf sz s w)
         else if type = MSG_WRITE then case get_read m of (fd, buf, sz) \<Rightarrow> Some (vfs_write srv src fd buf sz s w)
         else if type = MSG_OPEN then case get_open m of (path, oflag, mode) \<Rightarrow> vfs_open srv src (str path) oflag s w
         else if type = MSG_CLOSE then map_option (\<lambda>(r, s). (r, s, w)) (vfs_close src (get_close m) s)
         else if type = MSG_LSEEK then
           case get_lseek m of (fd, offset, whence) \<Rightarrow> let (r, s) = vfs_lseek src fd offset whence s in Some (r, s, w)
         else if type = MSG_CHDIR then vfs_chdir srv src (str (get_chdir m)) s w
         else if type = MSG_STAT then case get_stat m of (path, buf) \<Rightarrow> vfs_stat srv src (str path) buf s w
         else if type = MSG_GETDENTS then case get_getdents m of (fd, p, n) \<Rightarrow> Some (vfs_getdents srv src fd p n s w)
         else if type = MSG_MKDIR then case get_mkdir m of (name, mode) \<Rightarrow> Some (vfs_mkdir srv src name mode s w)
         else if type = MSG_FORKFS then let (r, s) = vfs_forkfs src (sint (get_forkfs m)) s in Some (r, s, w)
         else if type = MSG_EXECFS then let (r, s) = vfs_execfs src s in Some (r, s, w)
         else if type = MSG_FREEFS then let (r, s) = vfs_freefs src s in Some (r, s, w)
         else Some (-1, s, w))"

definition vfs_serve ::
  "'w servers \<Rightarrow> (u64 \<Rightarrow> string) \<Rightarrow> message \<Rightarrow> cbuf \<Rightarrow> vfs \<Rightarrow> 'w \<Rightarrow> (int \<times> cbuf \<times> vfs \<times> 'w) option" where
  "vfs_serve srv str m cb s w =
     (if mtype m = MSG_GETCWD then
        case get_getcwd m of (_, sz) \<Rightarrow> map_option (\<lambda>(r, cb). (r, cb, s, w)) (vfs_getcwd (msrc m) cb sz s)
      else map_option (\<lambda>(r, s, w). (r, cb, s, w)) (vfs_dispatch srv str m s w))"

end
