(* ===== verification/VfsSafe.thy ===== *)
theory VfsSafe
  imports Vfs
begin

text \<open>
  The tables of open files of the file system server: what stays well formed under every request,
  and that a process cannot reach the open files of another.
\<close>

section \<open>The table of processes is a map\<close>

definition file_hash_ok :: "vfs \<Rightarrow> bool" where
  "file_hash_ok s \<longleftrightarrow> buckets_ok (\<lambda>t. pf_pid (tables s t)) file_bucket (file_map s)"

definition mapped :: "vfs \<Rightarrow> tptr set" where
  "mapped s = {t. \<exists>i. t \<in> set (file_map s i)}"

lemma map_proc_file_Some:
  "map_proc_file pid s = Some t \<Longrightarrow> t \<in> mapped s \<and> pf_pid (tables s t) = pid"
  by (auto simp: map_proc_file_def mapped_def dest!: bucket_find_Some)

lemma map_proc_file_iff:
  assumes "file_hash_ok s"
  shows "map_proc_file pid s = Some t \<longleftrightarrow> t \<in> mapped s \<and> pf_pid (tables s t) = pid"
proof
  assume t: "t \<in> mapped s \<and> pf_pid (tables s t) = pid"
  then obtain i where i: "t \<in> set (file_map s i)" by (auto simp: mapped_def)
  have "file_bucket pid = i" "distinct (map (\<lambda>t. pf_pid (tables s t)) (file_map s i))"
    using assms i t by (auto simp: file_hash_ok_def buckets_ok_def)
  then show "map_proc_file pid s = Some t"
    using bucket_find_distinct [of "\<lambda>t. pf_pid (tables s t)" "file_map s i" t] i t by (simp add: map_proc_file_def)
qed (rule map_proc_file_Some)

lemma mapped_add: "mapped (s\<lparr>file_map := (file_map s)(i := file_map s i @ [t])\<rparr>) = insert t (mapped s)"
proof -
  have "u \<in> set (((file_map s)(i := file_map s i @ [t])) j) \<longleftrightarrow> u \<in> set (file_map s j) \<or> j = i \<and> u = t" for u j by auto
  then show ?thesis unfolding mapped_def by (simp del: fun_upd_apply) blast
qed

lemma append_proc_file_new:
  assumes "file_hash_ok s" "map_proc_file (pf_pid (tables s t)) s = None"
  shows "fst (append_proc_file t s) = 0" "file_hash_ok (snd (append_proc_file t s))"
    "mapped (snd (append_proc_file t s)) = insert t (mapped s)"
    "tables (snd (append_proc_file t s)) = tables s" "files (snd (append_proc_file t s)) = files s"
    "brk_ptr (snd (append_proc_file t s)) = brk_ptr s" "dentries (snd (append_proc_file t s)) = dentries s"
proof -
  let ?i = "file_bucket (pf_pid (tables s t))"
  have e: "append_proc_file t s = (0, s\<lparr>file_map := (file_map s)(?i := file_map s ?i @ [t])\<rparr>)"
    using assms(2) by (simp add: append_proc_file_def map_proc_file_def Let_def)
  show "fst (append_proc_file t s) = 0" "tables (snd (append_proc_file t s)) = tables s"
    "files (snd (append_proc_file t s)) = files s" "brk_ptr (snd (append_proc_file t s)) = brk_ptr s"
    "dentries (snd (append_proc_file t s)) = dentries s"
    by (simp_all add: e)
  show "mapped (snd (append_proc_file t s)) = insert t (mapped s)" unfolding e snd_conv by (rule mapped_add)
  show "file_hash_ok (snd (append_proc_file t s))"
    using assms buckets_ok_add [of "\<lambda>t. pf_pid (tables s t)" file_bucket "file_map s" t]
    by (simp add: e file_hash_ok_def map_proc_file_def)
qed

lemma append_proc_file_old: "map_proc_file (pf_pid (tables s t)) s \<noteq> None \<Longrightarrow> append_proc_file t s = (-1, s)"
  by (auto simp: append_proc_file_def map_proc_file_def Let_def)

lemma unmap_proc_file_sel [simp]:
  "tables (unmap_proc_file pid s) = tables s" "files (unmap_proc_file pid s) = files s"
  "dentries (unmap_proc_file pid s) = dentries s" "brk_ptr (unmap_proc_file pid s) = brk_ptr s"
  by (auto simp: unmap_proc_file_def Let_def split: option.splits)

lemma unmap_proc_file_map:
  assumes "file_hash_ok s"
  shows "file_hash_ok (unmap_proc_file pid s)"
    "mapped (unmap_proc_file pid s) = {t \<in> mapped s. pf_pid (tables s t) \<noteq> pid}"
proof -
  show "file_hash_ok (unmap_proc_file pid s)"
    using assms buckets_ok_remove
    by (auto simp: file_hash_ok_def unmap_proc_file_def Let_def split: option.splits)
  show "mapped (unmap_proc_file pid s) = {t \<in> mapped s. pf_pid (tables s t) \<noteq> pid}"
  proof (cases "map_proc_file pid s")
    case None
    then have "\<not> (t \<in> mapped s \<and> pf_pid (tables s t) = pid)" for t using map_proc_file_iff [OF assms, of pid t] by simp
    then show ?thesis using None by (auto simp: unmap_proc_file_def)
  next
    case (Some t)
    have t: "t \<in> mapped s" "pf_pid (tables s t) = pid" using map_proc_file_Some [OF Some] by auto
    have one: "u \<in> mapped s \<Longrightarrow> pf_pid (tables s u) = pid \<Longrightarrow> u = t" for u
      using map_proc_file_iff [OF assms, of pid u] Some by simp
    have b: "u \<in> set (file_map s i) \<Longrightarrow> file_bucket (pf_pid (tables s u)) = i" for u i
      using assms by (auto simp: file_hash_ok_def buckets_ok_def)
    have d: "distinct (file_map s i)" for i
      using assms by (auto simp: file_hash_ok_def buckets_ok_def distinct_map)
    let ?i = "file_bucket pid"
    have "u \<in> set (((file_map s)(?i := remove1 t (file_map s ?i))) j) \<longleftrightarrow> u \<in> set (file_map s j) \<and> u \<noteq> t" for u j
      using b [of t j] t(2) set_remove1_eq [OF d [of ?i]] by auto
    then have m: "u \<in> mapped (unmap_proc_file pid s) \<longleftrightarrow> u \<in> mapped s \<and> u \<noteq> t" for u
      by (simp add: mapped_def unmap_proc_file_def Some Let_def del: fun_upd_apply)
    show ?thesis
    proof (rule set_eqI)
      fix u
      show "u \<in> mapped (unmap_proc_file pid s) \<longleftrightarrow> u \<in> {t \<in> mapped s. pf_pid (tables s t) \<noteq> pid}"
        using m [of u] one [of u] t(2) by auto
    qed
  qed
qed

text \<open>The contract of \<open>HashMap\<close>, for the tables of open files.\<close>

definition enter_table :: "int \<Rightarrow> tptr \<Rightarrow> vfs \<Rightarrow> vfs" where
  "enter_table pid t s = snd (append_proc_file t (upd_table t (\<lambda>f. f\<lparr>pf_pid := pid\<rparr>) s))"

lemma file_map_cong:
  assumes "t \<notin> mapped s"
  shows "map_proc_file j (upd_table t f s) = map_proc_file j s" "file_hash_ok (upd_table t f s) = file_hash_ok s"
proof -
  have e: "\<And>i u. u \<in> set (file_map s i) \<Longrightarrow> pf_pid (tables (upd_table t f s) u) = pf_pid (tables s u)"
    using assms by (auto simp: mapped_def upd_table_def)
  note c = buckets_cong [of "file_map s" "\<lambda>u. pf_pid (tables (upd_table t f s) u)" "\<lambda>u. pf_pid (tables s u)", OF e]
  have m: "file_map (upd_table t f s) = file_map s" by (simp add: upd_table_def)
  show "map_proc_file j (upd_table t f s) = map_proc_file j s" unfolding map_proc_file_def m by (rule c(2))
  show "file_hash_ok (upd_table t f s) = file_hash_ok s" unfolding file_hash_ok_def m by (rule c(1))
qed

interpretation file_table: registry file_hash_ok "\<lambda>s k. map_proc_file k s" "\<lambda>s k t. t \<notin> mapped s" enter_table unmap_proc_file
proof
  fix s k t
  assume a: "file_hash_ok s" "map_proc_file k s = None" "t \<notin> mapped s"
  let ?s = "upd_table t (\<lambda>f. f\<lparr>pf_pid := k\<rparr>) s"
  have p: "pf_pid (tables ?s t) = k" by (simp add: upd_table_def)
  have ok: "file_hash_ok ?s" "map_proc_file k ?s = None" using a file_map_cong by simp_all
  note new = append_proc_file_new [of ?s t, unfolded p, OF ok]
  show e: "file_hash_ok (enter_table k t s)" using new(2) by (simp add: enter_table_def)
  fix j
  have m: "mapped ?s = mapped s" by (simp add: mapped_def upd_table_def)
  have "map_proc_file j (enter_table k t s) = Some u \<longleftrightarrow> (if j = k then Some t else map_proc_file j s) = Some u" for u
    using map_proc_file_iff [OF e, of j u] map_proc_file_iff [OF a(1), of j u] map_proc_file_iff [OF a(1), of k u] a p new(3,4) m
    by (auto simp: enter_table_def upd_table_def split: if_splits)
  then show "map_proc_file j (enter_table k t s) = (if j = k then Some t else map_proc_file j s)"
    by (metis option.exhaust)
next
  fix s k
  assume a: "file_hash_ok s"
  show u: "file_hash_ok (unmap_proc_file k s)" by (rule unmap_proc_file_map(1) [OF a])
  fix j
  have "map_proc_file j (unmap_proc_file k s) = Some v \<longleftrightarrow> (if j = k then None else map_proc_file j s) = Some v" for v
    using map_proc_file_iff [OF u, of j v] map_proc_file_iff [OF a, of j v] unmap_proc_file_map(2) [OF a, of k] by auto
  then show "map_proc_file j (unmap_proc_file k s) = (if j = k then None else map_proc_file j s)"
    by (metis option.exhaust)
qed

section \<open>Tables of open files\<close>

text \<open>
  The tables \<open>T\<close> are allocated, have the right length, and no open file is in two places of them.
\<close>

definition tables_ok :: "tptr set \<Rightarrow> vfs \<Rightarrow> bool" where
  "tables_ok T s \<longleftrightarrow> 0 < brk_ptr s \<and>
     (\<forall>t \<in> T. t < brk_ptr s \<and> length (filp (tables s t)) = NR_FILES \<and> (\<forall>p \<in> set (filp (tables s t)). p < brk_ptr s)) \<and>
     (\<forall>t \<in> T. \<forall>u \<in> T. \<forall>i < NR_FILES. \<forall>j < NR_FILES.
        filp (tables s t) ! i = filp (tables s u) ! j \<longrightarrow> filp (tables s t) ! i \<noteq> 0 \<longrightarrow> t = u \<and> i = j)"

definition vfs_ok :: "vfs \<Rightarrow> bool" where
  "vfs_ok s \<longleftrightarrow> file_hash_ok s \<and> tables_ok (mapped s) s"

text \<open>The tables \<open>X\<close> and the open files in them stay as they are.\<close>

definition keeps :: "tptr set \<Rightarrow> vfs \<Rightarrow> vfs \<Rightarrow> bool" where
  "keeps X s s' \<longleftrightarrow> (\<forall>t \<in> X. tables s' t = tables s t \<and> (\<forall>p \<in> set (filp (tables s t)). p \<noteq> 0 \<longrightarrow> files s' p = files s p))"

text \<open>A step that works on tables among \<open>T\<close> outside \<open>X\<close> and leaves the map from processes to tables alone.\<close>

definition inner :: "tptr set \<Rightarrow> tptr set \<Rightarrow> vfs \<Rightarrow> vfs \<Rightarrow> bool" where
  "inner T X s s' \<longleftrightarrow> (tables_ok T s \<longrightarrow> tables_ok T s' \<and> keeps X s s') \<and> file_map s' = file_map s \<and>
     (\<forall>u. pf_pid (tables s' u) = pf_pid (tables s u)) \<and> brk_ptr s \<le> brk_ptr s'"

lemma keeps_refl [simp]: "keeps X s s"
  by (simp add: keeps_def)

lemma keeps_trans: "keeps X s s1 \<Longrightarrow> keeps X s1 s2 \<Longrightarrow> keeps X s s2"
  by (simp add: keeps_def)

lemma inner_refl [simp, intro]: "inner T X s s"
  by (simp add: inner_def)

lemma inner_trans: "inner T X s s1 \<Longrightarrow> inner T X s1 s2 \<Longrightarrow> inner T X s s2"
  unfolding inner_def using keeps_trans le_trans by (metis (no_types))

lemma inner_map: "inner T X s s' \<Longrightarrow> mapped s' = mapped s \<and> file_hash_ok s' = file_hash_ok s"
  by (simp add: inner_def mapped_def file_hash_ok_def)

lemma inner_map_proc_file: "inner T X s s' \<Longrightarrow> map_proc_file pid s' = map_proc_file pid s"
  by (simp add: inner_def map_proc_file_def)

lemma upd_dentry_sel [simp]:
  "tables (upd_dentry d f s) = tables s" "files (upd_dentry d f s) = files s" "file_map (upd_dentry d f s) = file_map s"
  "brk_ptr (upd_dentry d f s) = brk_ptr s" "root_entry (upd_dentry d f s) = root_entry s"
  "v_stdin (upd_dentry d f s) = v_stdin s" "v_stdout (upd_dentry d f s) = v_stdout s" "v_stderr (upd_dentry d f s) = v_stderr s"
  by (simp_all add: upd_dentry_def)

lemma inner_dentry [simp, intro]: "inner T X s (upd_dentry d f s)"
  by (simp add: inner_def tables_ok_def keeps_def)

lemma inner_malloc [simp, intro]: "inner T X s (snd (malloc s))"
  by (force simp: inner_def tables_ok_def keeps_def malloc_def)

lemma inner_free [simp, intro]: "inner T X s (free_filp p s)"
  by (simp add: free_filp_def)

lemma tables_okD:
  assumes "tables_ok T s" "t \<in> T"
  shows "t < brk_ptr s" "length (filp (tables s t)) = NR_FILES" "p \<in> set (filp (tables s t)) \<Longrightarrow> p < brk_ptr s" "0 < brk_ptr s"
  using assms by (auto simp: tables_ok_def)

lemma tables_ok_sub: "tables_ok T s \<Longrightarrow> U \<subseteq> T \<Longrightarrow> tables_ok U s"
  unfolding tables_ok_def by blast

text \<open>The entries of one table are not in another.\<close>

lemma tables_ok_disjoint:
  assumes "tables_ok T s" "t \<in> T" "u \<in> T" "t \<noteq> u" "p \<in> set (filp (tables s t))" "p \<noteq> 0"
  shows "p \<notin> set (filp (tables s u))"
proof
  assume "p \<in> set (filp (tables s u))"
  then obtain i j where "i < NR_FILES" "filp (tables s t) ! i = p" "j < NR_FILES" "filp (tables s u) ! j = p"
    using assms tables_okD(2) by (metis in_set_conv_nth)
  then show False using assms unfolding tables_ok_def by metis
qed

lemma inner_make_filp:
  assumes "X \<subseteq> T" shows "inner T X s (snd (make_filp m d s))"
proof -
  let ?s = "s\<lparr>brk_ptr := brk_ptr s + 1, files := (files s)(brk_ptr s := \<lparr>fl_mode = m, f_dentry = d, f_pos = 0\<rparr>)\<rparr>"
  have e: "snd (make_filp m d s) = upd_dentry d (\<lambda>d. d\<lparr>f_count := f_count d + 1\<rparr>) ?s"
    by (simp add: make_filp_def malloc_def upd_file_def upd_dentry_def Let_def)
  have "inner T X s ?s"
    using assms unfolding inner_def keeps_def tables_ok_def by (force simp: less_Suc_eq)
  then show ?thesis unfolding e by (rule inner_trans) simp
qed

lemma make_filp_fst [simp]: "fst (make_filp m d s) = brk_ptr s"
  by (simp add: make_filp_def malloc_def Let_def)

lemma make_filp_sel [simp]:
  "tables (snd (make_filp m d s)) = tables s" "brk_ptr (snd (make_filp m d s)) = Suc (brk_ptr s)"
  "file_map (snd (make_filp m d s)) = file_map s"
  "files (snd (make_filp m d s)) = (files s)(brk_ptr s := \<lparr>fl_mode = m, f_dentry = d, f_pos = 0\<rparr>)"
  by (simp_all add: make_filp_def malloc_def Let_def upd_file_def)

lemma inner_set_filp:
  assumes "tables_ok T s \<Longrightarrow> p = 0 \<or> p < brk_ptr s \<and> (\<forall>t \<in> T. p \<notin> set (filp (tables s t)))"
    "t \<in> T" "X \<subseteq> T" "t \<notin> X"
  shows "inner T X s (set_filp t fd p s)"
proof -
  let ?s = "set_filp t fd p s"
  have f: "tables ?s u = (if u = t then (tables s t)\<lparr>filp := (filp (tables s t))[fd := p]\<rparr> else tables s u)" for u
    by (simp add: set_filp_def upd_table_def)
  have o: "files ?s = files s" "brk_ptr ?s = brk_ptr s" "file_map ?s = file_map s" by (simp_all add: set_filp_def upd_table_def)
  have "tables_ok T ?s \<and> keeps X s ?s" if ok: "tables_ok T s"
  proof
    show "keeps X s ?s" using assms(4) by (auto simp: keeps_def f o)
    have p: "p = 0 \<or> p < brk_ptr s \<and> (\<forall>t \<in> T. p \<notin> set (filp (tables s t)))" using assms(1) ok by blast
    have nth: "filp (tables ?s u) ! i = (if u = t \<and> i = fd then p else filp (tables s u) ! i)"
      if "u \<in> T" "i < NR_FILES" for u i
      using that tables_okD(2) [OF ok that(1)] by (auto simp: f nth_list_update)
    have mem: "filp (tables s u) ! i \<in> set (filp (tables s u))" if "u \<in> T" "i < NR_FILES" for u i
      using that tables_okD(2) [OF ok that(1)] by simp
    have own: "\<forall>t \<in> T. \<forall>u \<in> T. \<forall>i < NR_FILES. \<forall>j < NR_FILES.
        filp (tables s t) ! i = filp (tables s u) ! j \<longrightarrow> filp (tables s t) ! i \<noteq> 0 \<longrightarrow> t = u \<and> i = j"
      using ok by (simp add: tables_ok_def)
    have own': "u = v \<and> i = j" if "u \<in> T" "v \<in> T" "i < NR_FILES" "j < NR_FILES"
        "filp (tables ?s u) ! i = filp (tables ?s v) ! j" "filp (tables ?s u) ! i \<noteq> 0" for u v i j
      using that own p mem nth by (smt (verit))
    have "u < brk_ptr ?s \<and> length (filp (tables ?s u)) = NR_FILES \<and> (\<forall>q \<in> set (filp (tables ?s u)). q < brk_ptr ?s)"
      if "u \<in> T" for u
      using tables_okD [OF ok that] p set_update_subset_insert [of "filp (tables s u)" fd p] by (auto simp: f o)
    with own' show "tables_ok T ?s" using ok unfolding tables_ok_def o by blast
  qed
  then show ?thesis by (auto simp: inner_def f o)
qed

text \<open>Opening a file in a slot of a table outside \<open>X\<close>.\<close>

lemma set_filp_sel [simp]:
  "files (set_filp t fd p s) = files s" "brk_ptr (set_filp t fd p s) = brk_ptr s" "file_map (set_filp t fd p s) = file_map s"
  "dentries (set_filp t fd p s) = dentries s" "pf_pid (tables (set_filp t fd p s) u) = pf_pid (tables s u)"
  "cwd (tables (set_filp t fd p s) u) = cwd (tables s u)"
  by (simp_all add: set_filp_def upd_table_def)

lemma inner_open_slot:
  assumes "t \<in> T" "X \<subseteq> T" "t \<notin> X"
  shows "inner T X s (set_filp t fd (fst (make_filp m d s)) (snd (make_filp m d s)))"
proof (cases "tables_ok T s")
  case True
  have "\<forall>t \<in> T. brk_ptr s \<notin> set (filp (tables s t))" using tables_okD(3) [OF True] by blast
  then have "inner T X (snd (make_filp m d s)) (set_filp t fd (fst (make_filp m d s)) (snd (make_filp m d s)))"
    by (intro inner_set_filp [OF _ assms]) simp
  then show ?thesis using inner_make_filp [OF assms(2)] inner_trans by blast
qed (simp add: inner_def)

lemma inner_close_slot: "t \<in> T \<Longrightarrow> X \<subseteq> T \<Longrightarrow> t \<notin> X \<Longrightarrow> inner T X s (set_filp t fd 0 s)"
  by (rule inner_set_filp) simp_all

lemma inner_std_files:
  assumes "t \<in> T" "X \<subseteq> T" "t \<notin> X" shows "inner T X s (std_files t s)"
  unfolding std_files_def Let_def case_prod_beta
  using inner_open_slot [OF assms] by (blast intro: inner_trans)

lemma inner_fold:
  assumes "\<And>x s. inner T X s (f x s)" shows "inner T X s (fold f xs s)"
  by (induction xs arbitrary: s) (auto intro: inner_trans [OF assms])

lemma inner_exec_fd: "t \<in> T \<Longrightarrow> X \<subseteq> T \<Longrightarrow> t \<notin> X \<Longrightarrow> inner T X s (exec_fd t fd s)"
  unfolding exec_fd_def Let_def by (auto intro: inner_close_slot inner_trans [OF inner_free inner_close_slot])

lemma inner_free_fd_at: "inner T X s (free_fd_at t fd s)"
  by (simp add: free_fd_at_def Let_def)

lemma inner_upd_file:
  assumes "tables_ok T s \<Longrightarrow> p \<notin> (\<Union>t \<in> X. set (filp (tables s t)))" shows "inner T X s (upd_file p f s)"
proof -
  have "keeps X s (upd_file p f s)" if "tables_ok T s"
    using assms [OF that] by (auto simp: keeps_def upd_file_def)
  then show ?thesis by (simp add: inner_def tables_ok_def upd_file_def)
qed

text \<open>The file of a process is not among the files of others.\<close>

lemma inner_own_file:
  assumes "t \<in> T" "X \<subseteq> T" "t \<notin> X" "p \<in> set (filp (tables s t))" "p \<noteq> 0"
  shows "inner T X s (upd_file p f s)"
proof (rule inner_upd_file)
  assume "tables_ok T s"
  then show "p \<notin> (\<Union>t \<in> X. set (filp (tables s t)))" using tables_ok_disjoint [OF _ assms(1) _ _ assms(4,5)] assms(2,3) by blast
qed

lemma inner_fork_fd:
  assumes "t \<in> T" "X \<subseteq> T" "t \<notin> X" shows "inner T X s (fork_fd pt t fd s)"
proof (cases "filp (tables s pt) ! fd = 0 \<or> \<not> tables_ok T s")
  case True
  then show ?thesis
    by (auto simp: fork_fd_def Let_def inner_def malloc_def upd_file_def)
next
  case False
  let ?p = "brk_ptr s"
  let ?s1 = "snd (malloc s)"
  let ?s2 = "upd_file ?p (\<lambda>_. files s (filp (tables s pt) ! fd)) ?s1"
  let ?s3 = "upd_dentry (f_dentry (files ?s2 ?p)) (\<lambda>d. d\<lparr>f_count := f_count d + 1\<rparr>) ?s2"
  have e: "fork_fd pt t fd s = set_filp t fd ?p ?s3"
    using False by (simp add: fork_fd_def malloc_def upd_file_def Let_def)
  have new: "\<forall>u \<in> T. ?p \<notin> set (filp (tables s u))" using tables_okD(3) [of T s] False by blast
  have tb: "tables ?s1 = tables s" "brk_ptr ?s1 = Suc ?p" by (simp_all add: malloc_def)
  have "inner T X ?s1 ?s2" by (rule inner_upd_file) (use new assms(2) tb in auto)
  then have "inner T X s ?s3" by (blast intro: inner_trans inner_malloc inner_dentry)
  moreover have "inner T X ?s3 (set_filp t fd ?p ?s3)"
    by (rule inner_set_filp [OF _ assms]) (use new in \<open>auto simp: upd_file_def malloc_def\<close>)
  ultimately show ?thesis unfolding e by (rule inner_trans)
qed

section \<open>Steps of a process\<close>

definition others :: "int \<Rightarrow> vfs \<Rightarrow> tptr set" where
  "others pid s = {t \<in> mapped s. pf_pid (tables s t) \<noteq> pid}"

definition step :: "int \<Rightarrow> vfs \<Rightarrow> vfs \<Rightarrow> bool" where
  "step pid s s' \<longleftrightarrow> (vfs_ok s \<longrightarrow> vfs_ok s' \<and> keeps (others pid s) s s' \<and> others pid s \<subseteq> mapped s')"

lemma step_refl [simp, intro]: "step pid s s"
  by (auto simp: step_def others_def)

lemma step_trans: "step pid s s1 \<Longrightarrow> step pid s1 s2 \<Longrightarrow> step pid s s2"
proof -
  assume a: "step pid s s1" "step pid s1 s2"
  have "vfs_ok s2 \<and> keeps (others pid s) s s2 \<and> others pid s \<subseteq> mapped s2" if "vfs_ok s"
  proof -
    have s1: "vfs_ok s1" "keeps (others pid s) s s1" "others pid s \<subseteq> mapped s1" using a(1) that by (auto simp: step_def)
    have sub: "others pid s \<subseteq> others pid s1"
    proof
      fix t assume t: "t \<in> others pid s"
      then have "tables s1 t = tables s t" using s1(2) by (simp add: keeps_def)
      then show "t \<in> others pid s1" using t s1(3) by (auto simp: others_def)
    qed
    have s2: "vfs_ok s2" "keeps (others pid s1) s1 s2" "others pid s1 \<subseteq> mapped s2" using a(2) s1(1) by (auto simp: step_def)
    have "keeps (others pid s) s1 s2" using s2(2) sub by (auto simp: keeps_def)
    then show ?thesis using s1(2) s2 sub keeps_trans by blast
  qed
  then show ?thesis by (simp add: step_def)
qed

lemma inner_step: "inner (mapped s) (others pid s) s s' \<Longrightarrow> step pid s s'"
  using inner_map [of "mapped s" "others pid s" s s'] by (auto simp: step_def inner_def vfs_ok_def others_def)

lemma map_not_other: "map_proc_file pid s = Some t \<Longrightarrow> t \<in> mapped s \<and> t \<notin> others pid s \<and> others pid s \<subseteq> mapped s"
  using map_proc_file_Some [of pid s t] by (auto simp: others_def)

text \<open>A new table, filled and put into the map.\<close>

definition new_table :: "proc_file \<Rightarrow> vfs \<Rightarrow> vfs" where
  "new_table f s = upd_table (brk_ptr s) (\<lambda>_. f) (snd (malloc s))"

lemma new_table_ok:
  assumes ok: "vfs_ok s" and f: "filp f = replicate NR_FILES 0"
  defines "t \<equiv> brk_ptr s"
  shows "t \<notin> mapped s" "tables_ok (insert t (mapped s)) (new_table f s)" "keeps (mapped s) s (new_table f s)"
    "mapped (new_table f s) = mapped s" "file_hash_ok (new_table f s)"
    "map_proc_file j (new_table f s) = map_proc_file j s" "tables (new_table f s) t = f"
proof -
  have tok: "tables_ok (mapped s) s" using ok by (simp add: vfs_ok_def)
  show new: "t \<notin> mapped s" using tables_okD(1) [OF tok] by (auto simp: t_def)
  have m: "mapped (snd (malloc s)) = mapped s" "file_hash_ok (snd (malloc s)) = file_hash_ok s"
      "map_proc_file j (snd (malloc s)) = map_proc_file j s" for j
    using inner_map [OF inner_malloc] inner_map_proc_file [OF inner_malloc] by auto
  have n: "t \<notin> mapped (snd (malloc s))" using new m(1) by simp
  show "file_hash_ok (new_table f s)" "map_proc_file j (new_table f s) = map_proc_file j s"
    using file_map_cong [OF n] m ok by (simp_all add: new_table_def vfs_ok_def t_def)
  show "mapped (new_table f s) = mapped s" by (simp add: new_table_def mapped_def upd_table_def malloc_def)
  show "tables (new_table f s) t = f" by (simp add: new_table_def upd_table_def t_def)
  have tb: "tables (new_table f s) u = (if u = t then f else tables s u)" "files (new_table f s) = files s"
      "brk_ptr (new_table f s) = Suc t" for u
    by (simp_all add: new_table_def upd_table_def malloc_def t_def)
  show "keeps (mapped s) s (new_table f s)" using new by (auto simp: keeps_def tb)
  have own: "u = v \<and> i = j" if "u \<in> insert t (mapped s)" "v \<in> insert t (mapped s)" "i < NR_FILES" "j < NR_FILES"
      "filp (tables (new_table f s) u) ! i = filp (tables (new_table f s) v) ! j" "filp (tables (new_table f s) u) ! i \<noteq> 0" for u v i j
    using that new tok f unfolding tables_ok_def by (auto simp: tb split: if_splits)
  have "u < Suc t \<and> length (filp (tables (new_table f s) u)) = NR_FILES \<and> (\<forall>p \<in> set (filp (tables (new_table f s) u)). p < Suc t)"
    if "u \<in> insert t (mapped s)" for u
    using that tables_okD [OF tok, of u] f by (auto simp: tb t_def less_Suc_eq)
  then show "tables_ok (insert t (mapped s)) (new_table f s)"
    using own unfolding tables_ok_def tb(3) by blast
qed

lemma attach:
  assumes ok: "vfs_ok s" and f: "filp f = replicate NR_FILES 0" and t: "t = brk_ptr s"
    and i: "inner (insert t (mapped s)) (mapped s) (new_table f s) s2"
  shows "step pid s (snd (append_proc_file t s2))"
    "map_proc_file (pf_pid f) s = None \<Longrightarrow> map_proc_file (pf_pid f) (snd (append_proc_file t s2)) = Some t"
    "keeps (mapped s) s (snd (append_proc_file t s2))" "mapped s \<subseteq> mapped (snd (append_proc_file t s2))"
proof -
  note n = new_table_ok [OF ok f]
  have s2: "tables_ok (insert t (mapped s)) s2" "keeps (mapped s) (new_table f s) s2" "mapped s2 = mapped s" "file_hash_ok s2"
      "map_proc_file j s2 = map_proc_file j s" "pf_pid (tables s2 t) = pf_pid f" for j
    using i n inner_map [OF i] inner_map_proc_file [OF i] t by (auto simp: inner_def)
  have k: "keeps (mapped s) s s2" using n(3) s2(2) keeps_trans by blast
  have k': "keeps (others pid s) s s2" using k by (auto simp: keeps_def others_def)
  have sub: "others pid s \<subseteq> mapped s" by (auto simp: others_def)
  have "vfs_ok (snd (append_proc_file t s2)) \<and> keeps (others pid s) s (snd (append_proc_file t s2)) \<and>
      others pid s \<subseteq> mapped (snd (append_proc_file t s2)) \<and>
      (map_proc_file (pf_pid f) s = None \<longrightarrow> map_proc_file (pf_pid f) (snd (append_proc_file t s2)) = Some t) \<and>
      keeps (mapped s) s (snd (append_proc_file t s2)) \<and> mapped s \<subseteq> mapped (snd (append_proc_file t s2))"
  proof (cases "map_proc_file (pf_pid f) s")
    case None
    note a = append_proc_file_new [of s2 t, unfolded s2(5,6), OF s2(4) None]
    have "tables_ok (mapped (snd (append_proc_file t s2))) (snd (append_proc_file t s2))"
      using s2(1,3) a(3,4,6) unfolding tables_ok_def by simp
    moreover have "map_proc_file (pf_pid f) (snd (append_proc_file t s2)) = Some t"
      using map_proc_file_iff [OF a(2)] a(3,4) s2(6) by simp
    ultimately show ?thesis using a k k' sub s2(3) by (auto simp: vfs_ok_def keeps_def)
  next
    case (Some u)
    then have "append_proc_file t s2 = (-1, s2)" using append_proc_file_old [of s2 t] s2(5,6) by simp
    then show ?thesis using s2 k k' sub Some tables_ok_sub [OF s2(1)] by (auto simp: vfs_ok_def)
  qed
  then show "step pid s (snd (append_proc_file t s2))"
    "map_proc_file (pf_pid f) s = None \<Longrightarrow> map_proc_file (pf_pid f) (snd (append_proc_file t s2)) = Some t"
    "keeps (mapped s) s (snd (append_proc_file t s2))" "mapped s \<subseteq> mapped (snd (append_proc_file t s2))"
    by (simp_all add: step_def)
qed

lemma init_proc_file_inner:
  assumes "vfs_ok s"
  shows "\<exists>f. filp f = replicate NR_FILES 0 \<and> pf_pid f = pid \<and> fst (init_proc_file pid s) = brk_ptr s \<and>
    inner (insert (brk_ptr s) (mapped s)) (mapped s) (new_table f s) (snd (init_proc_file pid s))"
proof -
  let ?f = "\<lparr>pf_pid = pid, filp = replicate NR_FILES 0, cwd = root_entry s\<rparr>"
  have "init_proc_file pid s = (brk_ptr s, std_files (brk_ptr s)
      (upd_dentry (root_entry s) (\<lambda>d. d\<lparr>f_count := f_count d + 1\<rparr>) (new_table ?f s)))"
    by (simp add: init_proc_file_def new_table_def malloc_def upd_table_def Let_def)
  moreover have "brk_ptr s \<notin> mapped s" using new_table_ok(1) [OF assms, of ?f] by simp
  ultimately show ?thesis
    using inner_std_files [of "brk_ptr s" "insert (brk_ptr s) (mapped s)" "mapped s"]
    by (intro exI [of _ ?f]) (auto intro: inner_trans [OF inner_dentry])
qed

lemma get_table_step:
  assumes "vfs_ok s"
  shows "step pid s (snd (get_table pid s))" "map_proc_file pid (snd (get_table pid s)) = Some (fst (get_table pid s))"
    "vfs_ok (snd (get_table pid s))"
proof -
  show st: "step pid s (snd (get_table pid s))"
    and "map_proc_file pid (snd (get_table pid s)) = Some (fst (get_table pid s))"
  proof (atomize (full), cases "map_proc_file pid s")
    case None
    obtain f where f: "filp f = replicate NR_FILES 0" "pf_pid f = pid" "fst (init_proc_file pid s) = brk_ptr s"
        "inner (insert (brk_ptr s) (mapped s)) (mapped s) (new_table f s) (snd (init_proc_file pid s))"
      using init_proc_file_inner [OF assms, of pid] by blast
    show "step pid s (snd (get_table pid s)) \<and> map_proc_file pid (snd (get_table pid s)) = Some (fst (get_table pid s))"
      using attach(1) [OF assms f(1) refl f(4), of pid] attach(2) [OF assms f(1) refl f(4)] None f(2,3)
      by (simp add: get_table_def case_prod_beta Let_def)
  qed (simp add: get_table_def)
  then show "vfs_ok (snd (get_table pid s))" using assms by (simp add: step_def)
qed

text \<open>Each request, behind the table of its process.\<close>

lemma inner_own_step:
  assumes "map_proc_file pid s = Some t" "\<And>T X. t \<in> T \<Longrightarrow> X \<subseteq> T \<Longrightarrow> t \<notin> X \<Longrightarrow> inner T X s s'"
  shows "step pid s s'"
  using map_not_other [OF assms(1)] by (intro inner_step assms(2)) auto

lemma getfilp_cases:
  assumes "vfs_ok s"
  shows "step pid s (snd (getfilp pid fd s))"
    "fst (getfilp pid fd s) \<noteq> 0 \<Longrightarrow> step pid (snd (getfilp pid fd s)) (upd_file (fst (getfilp pid fd s)) f (snd (getfilp pid fd s)))"
proof -
  note g = get_table_step [OF assms, of pid]
  show "step pid s (snd (getfilp pid fd s))" using g(1) by (simp add: getfilp_def case_prod_beta Let_def)
  assume n: "fst (getfilp pid fd s) \<noteq> 0"
  let ?t = "fst (get_table pid s)" and ?s = "snd (get_table pid s)"
  have l: "length (filp (tables ?s ?t)) = NR_FILES"
    using g(3) map_proc_file_Some [OF g(2)] tables_okD(2) by (auto simp: vfs_ok_def)
  have m: "fst (getfilp pid fd s) \<in> set (filp (tables ?s ?t))" "snd (getfilp pid fd s) = ?s"
    using n l by (auto simp: getfilp_def case_prod_beta Let_def split: if_splits intro!: nth_mem)
  show "step pid (snd (getfilp pid fd s)) (upd_file (fst (getfilp pid fd s)) f (snd (getfilp pid fd s)))"
    unfolding m(2) by (rule inner_own_step [OF g(2)], rule inner_own_file) (use m n in auto)
qed

lemma vfs_read_step: "vfs_ok s \<Longrightarrow> step pid s (fst (snd (vfs_read srv pid fd buf sz s w)))"
  using getfilp_cases [of s pid fd]
  by (auto simp: vfs_read_def case_prod_beta Let_def split: option.splits intro: step_trans)

lemma vfs_write_step: "vfs_ok s \<Longrightarrow> step pid s (fst (snd (vfs_write srv pid fd buf sz s w)))"
  using getfilp_cases [of s pid fd]
  by (auto simp: vfs_write_def case_prod_beta Let_def split: option.splits intro: step_trans)

lemma vfs_getdents_step: "vfs_ok s \<Longrightarrow> step pid s (fst (snd (vfs_getdents srv pid fd buf sz s w)))"
  using getfilp_cases [of s pid fd]
  by (auto simp: vfs_getdents_def case_prod_beta Let_def split: option.splits intro: step_trans)

lemma vfs_lseek_step: "vfs_ok s \<Longrightarrow> step pid s (snd (vfs_lseek pid fd offset whence s))"
  using getfilp_cases [of s pid fd]
  by (auto simp: vfs_lseek_def case_prod_beta Let_def split: option.splits intro: step_trans)

lemma inner_dentryI: "inner T X s s' \<Longrightarrow> inner T X s (upd_dentry d f s')"
  by (rule inner_trans [OF _ inner_dentry])

lemma inner_lookup_in_fs: "vfs_lookup_in_fs srv par name s w = Some (d, s', w') \<Longrightarrow> inner T X s s'"
  using inner_malloc [of T X s]
  by (auto simp: vfs_lookup_in_fs_def case_prod_beta Let_def split: option.splits if_splits intro!: inner_dentryI)

lemma walk_cases:
  assumes "walk srv sptr cur s w = Some r" "sptr \<noteq> []"
  obtains cur' s' w' where "inner T X s s'" "walk srv (skip_slash (drop (length (takeWhile (\<lambda>c. c \<noteq> CHR ''/'') sptr)) sptr)) cur' s' w' = Some r"
  | s' w' where "inner T X s s'" "r = (0, s', w')"
proof -
  define name where "name = takeWhile (\<lambda>c. c \<noteq> CHR ''/'') sptr"
  have g: "getfilename sptr = Some name"
    using assms by (cases "length name < 256") (auto simp: walk.simps [of srv sptr] getfilename_def name_def Let_def)
  let ?sp = "skip_slash (drop (length name) sptr)"
  have e: "walk srv sptr cur s w =
     (if name = ''..'' then if cur = 0 then None else walk srv ?sp (f_parent (dentries s cur)) s w
      else if name = ''.'' then walk srv ?sp cur s w
      else if cur = 0 then None
      else case List.find (\<lambda>pos. f_name (dentries s pos) = name) (f_children (dentries s cur)) of
             Some next \<Rightarrow> walk srv ?sp next (upd_dentry next (\<lambda>d. d\<lparr>f_count := f_count d + 1\<rparr>) s) w
           | None \<Rightarrow> (case vfs_lookup_in_fs srv cur name s w of
                  None \<Rightarrow> None
                | Some (next, s, w) \<Rightarrow> if next = 0 then Some (0, s, w) else walk srv ?sp next s w))"
    using assms(2) g by (subst walk.simps) (simp add: Let_def)
  have "(\<exists>cur' s' w'. inner T X s s' \<and> walk srv ?sp cur' s' w' = Some r) \<or> (\<exists>s' w'. inner T X s s' \<and> r = (0, s', w'))"
    using assms(1) inner_refl [of T X s] inner_dentry [of T X s] inner_lookup_in_fs [of srv cur name s w _ _ _ T X]
    unfolding e by (clarsimp split: if_splits option.splits; blast)
  then show thesis using that unfolding name_def by blast
qed

lemma inner_walk: "walk srv sptr cur s w = Some (d, s', w') \<Longrightarrow> inner T X s s'"
proof (induction "length sptr" arbitrary: sptr cur s w rule: less_induct)
  case less
  show ?case
  proof (cases "sptr = []")
    case False
    have g: "getfilename sptr = Some (takeWhile (\<lambda>c. c \<noteq> CHR ''/'') sptr)"
      using less.prems False by (cases "length (takeWhile (\<lambda>c. c \<noteq> CHR ''/'') sptr) < 256") (auto simp: walk.simps [of srv sptr] getfilename_def Let_def)
    show ?thesis
      using less.prems False
      by (rule walk_cases) (auto intro: inner_trans less.hyps [OF skip_slash_shorter [OF g False]])
  qed (use less.prems in \<open>simp add: walk.simps\<close>)
qed

lemma inner_lookup: "vfs_lookup srv c path s w = Some (d, s', w') \<Longrightarrow> inner T X s s'"
  by (auto simp: vfs_lookup_def split: list.splits if_splits intro: inner_walk)

lemma lookup_step: "vfs_lookup srv c path s w = Some (d, s', w') \<Longrightarrow> step pid s s'"
  by (intro inner_step inner_lookup)

lemma lookup_map: "vfs_lookup srv c path s w = Some (d, s', w') \<Longrightarrow> map_proc_file pid s' = map_proc_file pid s"
  by (rule inner_map_proc_file [OF inner_lookup])

text \<open>A file that a process opens behind the lookup.\<close>

lemma open_slot_step:
  assumes "map_proc_file pid s = Some t" and p_def: "p = fst (make_filp m d s)"
  shows "step pid s (set_filp t fd p (if b then upd_file p f (snd (make_filp m d s)) else snd (make_filp m d s)))"
    "step pid s (if b then upd_file p f (snd (make_filp m d s)) else snd (make_filp m d s))"
proof -
  let ?s1 = "snd (make_filp m d s)"
  let ?s2 = "if b then upd_file p f ?s1 else ?s1"
  have i: "inner T X s ?s2 \<and> inner T X s (set_filp t fd p ?s2)" if T: "t \<in> T" "X \<subseteq> T" "t \<notin> X" for T X
  proof (cases "tables_ok T s")
    case True
    have n: "\<forall>t \<in> T. brk_ptr s \<notin> set (filp (tables s t))" using tables_okD(3) [OF True] by blast
    have i1: "inner T X s ?s1" using inner_make_filp [OF T(2)] .
    have n1: "p \<notin> (\<Union>t \<in> X. set (filp (tables ?s1 t)))" using n T(2) by (auto simp: p_def)
    have i2: "inner T X s ?s2" using i1 inner_trans [OF i1 inner_upd_file] n1 by auto
    have "\<forall>t \<in> T. p \<notin> set (filp (tables ?s2 t))" "p < brk_ptr ?s2" using n by (auto simp: p_def upd_file_def)
    then have "inner T X ?s2 (set_filp t fd p ?s2)" by (intro inner_set_filp T) blast
    then show ?thesis using i2 inner_trans by blast
  next
    case False
    then show ?thesis by (simp add: inner_def p_def set_filp_def upd_table_def upd_file_def)
  qed
  show "step pid s (set_filp t fd p ?s2)" "step pid s ?s2"
    using inner_own_step [OF assms(1)] i by blast+
qed

text \<open>The state of \<open>vfs_open\<close> with the new file, before it has a descriptor.\<close>

definition opened :: "cint \<Rightarrow> dptr \<Rightarrow> vfs \<Rightarrow> vfs" where
  "opened oflag d s = (let s' = snd (make_filp (f_mode (dentries s d)) d s)
     in if oflag AND O_APPEND \<noteq> 0 then upd_file (brk_ptr s) (\<lambda>f. f\<lparr>f_pos := f_size (dentries s' d)\<rparr>) s' else s')"

lemma vfs_open_eq:
  assumes "get_table pid s = (t, s1)" "vfs_lookup srv (cwd (tables s1 t)) path s1 w = Some (d, s2, w')"
  shows "vfs_open srv pid path oflag s w = (if d = 0 then Some (-1, s2, w') else
    case free_fd (filp (tables (opened oflag d s2) t)) of
      Some fd \<Rightarrow> Some (int fd, set_filp t fd (brk_ptr s2) (opened oflag d s2), w')
    | None \<Rightarrow> Some (-1, opened oflag d s2, w'))"
  by (simp only: vfs_open_def assms case_prod_beta Let_def opened_def bind.simps fst_conv snd_conv make_filp_fst)

lemma vfs_open_step:
  assumes ok: "vfs_ok s" and r: "vfs_open srv pid path oflag s w = Some (r, s', w')"
  shows "step pid s s'"
proof -
  obtain t s1 where t: "get_table pid s = (t, s1)" by force
  note g = get_table_step [OF ok, of pid, unfolded t fst_conv snd_conv]
  obtain d s2 wl where l: "vfs_lookup srv (cwd (tables s1 t)) path s1 w = Some (d, s2, wl)"
    using r by (auto simp: vfs_open_def t bind_eq_Some_conv)
  have s2: "step pid s s2" "map_proc_file pid s2 = Some t"
    using g lookup_step [OF l] lookup_map [OF l] step_trans by auto
  have "s' = s2 \<or> s' = opened oflag d s2 \<or> (\<exists>fd. s' = set_filp t fd (brk_ptr s2) (opened oflag d s2))"
    using r unfolding vfs_open_eq [OF t l] by (auto split: if_splits option.splits)
  moreover have "step pid s (opened oflag d s2)" "step pid s (set_filp t fd (brk_ptr s2) (opened oflag d s2))" for fd
    using step_trans [OF s2(1)] open_slot_step [OF s2(2) refl] unfolding opened_def Let_def make_filp_fst by blast+
  ultimately show ?thesis using s2(1) by blast
qed

lemma vfs_close_step:
  assumes r: "vfs_close pid fd s = Some (r, s')"
  shows "step pid s s'"
proof -
  obtain t where t: "map_proc_file pid s = Some t"
    using r by (auto simp: vfs_close_def bind_eq_Some_conv)
  have "s' = s \<or> (\<exists>p i. s' = set_filp t i 0 (free_filp p s))"
    using r by (auto simp: vfs_close_def t Let_def split: if_splits)
  moreover have "step pid s (set_filp t i 0 (free_filp p s))" for p i
    by (rule inner_own_step [OF t], rule inner_trans [OF inner_free], rule inner_close_slot)
  ultimately show ?thesis by auto
qed

lemma inner_chdir:
  assumes "t \<in> T" "t \<notin> X" shows "inner T X s (upd_table t (\<lambda>f. f\<lparr>cwd := c\<rparr>) s)"
proof -
  let ?s = "upd_table t (\<lambda>f. f\<lparr>cwd := c\<rparr>) s"
  have "filp (tables ?s u) = filp (tables s u)" "pf_pid (tables ?s u) = pf_pid (tables s u)" "brk_ptr ?s = brk_ptr s"
      "file_map ?s = file_map s" for u
    by (simp_all add: upd_table_def)
  moreover have "keeps X s ?s" using assms(2) by (auto simp: keeps_def upd_table_def)
  ultimately show ?thesis by (simp add: inner_def tables_ok_def)
qed

lemma vfs_chdir_step:
  assumes r: "vfs_chdir srv pid path s w = Some (r, s', w')"
  shows "step pid s s'"
proof (cases "map_proc_file pid s")
  case (Some t)
  then obtain d s1 w1 where l: "vfs_lookup srv (cwd (tables s t)) path s w = Some (d, s1, w1)"
    using r by (auto simp: vfs_chdir_def bind_eq_Some_conv)
  have s': "s' = s1 \<or> (\<exists>f. s' = upd_table t (\<lambda>f. f\<lparr>cwd := d\<rparr>) (upd_dentry (cwd (tables s1 t)) f s1))"
    using r l Some by (auto simp: vfs_chdir_def Let_def split: if_splits)
  have m: "map_proc_file pid s1 = Some t" using lookup_map [OF l] Some by simp
  have "step pid s1 s'"
    using s' by (auto intro!: inner_own_step [OF m] inner_trans [OF inner_dentry inner_chdir])
  then show ?thesis using lookup_step [OF l] step_trans by blast
qed (use r in \<open>simp add: vfs_chdir_def\<close>)

lemma vfs_stat_step: "vfs_stat srv pid path buf s w = Some (r, s', w') \<Longrightarrow> step pid s s'"
  by (auto simp: vfs_stat_def case_prod_beta Let_def bind_eq_Some_conv split: option.splits if_splits dest: lookup_step)

lemma vfs_mkdir_step: "step pid s (fst (snd (vfs_mkdir srv pid name mode s w)))"
  by (simp add: vfs_mkdir_def case_prod_beta Let_def split: option.splits)

lemma vfs_forkfs_step:
  assumes ok: "vfs_ok s" shows "step ppid s (snd (vfs_forkfs ppid pid s))"
proof -
  let ?pt = "fst (get_table ppid s)" and ?s = "snd (get_table ppid s)"
  note g = get_table_step [OF ok, of ppid]
  let ?f = "\<lparr>pf_pid = pid, filp = replicate NR_FILES 0, cwd = cwd (tables ?s ?pt)\<rparr>"
  let ?t = "brk_ptr ?s"
  let ?s1 = "new_table ?f ?s"
  let ?s2 = "fold (fork_fd ?pt ?t) [0..<NR_FILES] (upd_dentry (cwd (tables ?s1 ?t)) (\<lambda>d. d\<lparr>f_count := f_count d + 1\<rparr>) ?s1)"
  have e: "snd (vfs_forkfs ppid pid s) = snd (append_proc_file ?t ?s2)"
    by (simp add: vfs_forkfs_def new_table_def malloc_def upd_table_def case_prod_beta Let_def)
  have n: "?t \<notin> mapped ?s" by (rule new_table_ok(1) [OF g(3), of ?f]) simp
  have "inner (insert ?t (mapped ?s)) (mapped ?s) ?s1 ?s2"
    by (rule inner_trans [OF inner_dentry], rule inner_fold, rule inner_fork_fd) (use n in auto)
  then have "step ppid ?s (snd (append_proc_file ?t ?s2))" by (intro attach(1) [OF g(3) _ refl]) simp_all
  then show ?thesis unfolding e using g(1) step_trans by blast
qed

lemma vfs_execfs_step:
  assumes ok: "vfs_ok s" shows "step pid s (snd (vfs_execfs pid s))"
proof (cases "map_proc_file pid s")
  case None
  then have "snd (vfs_execfs pid s) = snd (get_table pid s)"
    by (simp add: vfs_execfs_def get_table_def case_prod_beta Let_def)
  then show ?thesis using get_table_step(1) [OF ok] by simp
next
  case (Some t)
  have "step pid s (std_files t (fold (exec_fd t) [0..<NR_FILES] s))"
    by (rule inner_own_step [OF Some], rule inner_trans [OF inner_fold inner_std_files], rule inner_exec_fd)
  then show ?thesis using Some by (simp add: vfs_execfs_def)
qed

lemma unmap_sel [simp]:
  "tables (unmap_proc_file pid s) = tables s" "files (unmap_proc_file pid s) = files s" "brk_ptr (unmap_proc_file pid s) = brk_ptr s"
  by (simp_all add: unmap_proc_file_def Let_def split: option.splits)

lemma unmap_step:
  assumes "vfs_ok s" shows "step pid s (unmap_proc_file pid s)"
proof -
  have h: "file_hash_ok s" "tables_ok (mapped s) s" using assms by (simp_all add: vfs_ok_def)
  note u = unmap_proc_file_map [OF h(1), of pid]
  have "tables_ok (mapped (unmap_proc_file pid s)) s" by (rule tables_ok_sub [OF h(2)]) (auto simp: u(2))
  then have "vfs_ok (unmap_proc_file pid s)" using u(1) by (simp add: vfs_ok_def tables_ok_def)
  then show ?thesis by (simp add: step_def others_def keeps_def u(2))
qed

lemma vfs_freefs_step:
  assumes ok: "vfs_ok s" shows "step pid s (snd (vfs_freefs pid s))"
proof (cases "map_proc_file pid s")
  case (Some t)
  define s1 where "s1 = fold (free_fd_at t) [0..<NR_FILES] s"
  have st: "step pid s s1" unfolding s1_def by (intro inner_step inner_fold inner_free_fd_at)
  then have "step pid s1 (unmap_proc_file pid s1)" using ok unmap_step by (simp add: step_def)
  moreover have "snd (vfs_freefs pid s) = unmap_proc_file pid s1"
    by (simp only: vfs_freefs_def Some s1_def option.case snd_conv)
  ultimately show ?thesis using st step_trans by metis
qed (simp add: vfs_freefs_def)

text \<open>Every request.\<close>

definition serves :: "int \<Rightarrow> vfs \<Rightarrow> (int \<times> vfs \<times> 'w) option \<Rightarrow> bool" where
  "serves pid s x \<longleftrightarrow> (\<forall>r s' w'. x = Some (r, s', w') \<longrightarrow> step pid s s')"

lemma serves_if: "serves pid s x \<Longrightarrow> serves pid s y \<Longrightarrow> serves pid s (if b then x else y)"
  by simp

lemma serves_Some: "step pid s (fst (snd x)) \<Longrightarrow> serves pid s (Some x)"
  by (auto simp: serves_def)

lemma serves_local: "step pid s (snd x) \<Longrightarrow> serves pid s (case x of (r, s') \<Rightarrow> Some (r, s', w))"
  by (auto simp: serves_def case_prod_beta)

lemma vfs_dispatch_step:
  assumes ok: "vfs_ok s" shows "serves (msrc m) s (vfs_dispatch srv str m s w)"
proof -
  have "serves pid s (vfs_open srv pid path oflag s w)" "serves pid s (vfs_chdir srv pid path s w)"
      "serves pid s (vfs_stat srv pid path buf s w)" "serves pid s (map_option (\<lambda>(r, s). (r, s, w)) (vfs_close pid fd s))"
    for pid path oflag buf fd
    using vfs_open_step [OF ok] vfs_chdir_step vfs_stat_step vfs_close_step by (fastforce simp: serves_def)+
  then show ?thesis
    unfolding vfs_dispatch_def Let_def case_prod_beta [of _ "get_read m"] case_prod_beta [of _ "snd (get_read m)"]
      case_prod_beta [of _ "get_open m"] case_prod_beta [of _ "snd (get_open m)"] case_prod_beta [of _ "get_lseek m"]
      case_prod_beta [of _ "snd (get_lseek m)"] case_prod_beta [of _ "get_stat m"] case_prod_beta [of _ "get_getdents m"]
      case_prod_beta [of _ "snd (get_getdents m)"] case_prod_beta [of _ "get_mkdir m"]
    by (intro serves_if serves_local serves_Some vfs_read_step [OF ok] vfs_write_step [OF ok] vfs_getdents_step [OF ok]
        vfs_lseek_step [OF ok] vfs_mkdir_step vfs_forkfs_step [OF ok] vfs_execfs_step [OF ok] vfs_freefs_step [OF ok]) simp_all
qed

lemma vfs_serve_step:
  assumes "vfs_ok s" "vfs_serve srv str m cb s w = Some (r, cb', s', w')"
  shows "step (msrc m) s s'"
  using vfs_dispatch_step [OF assms(1), of m srv str w] assms(2)
  by (auto simp: vfs_serve_def serves_def case_prod_beta split: if_splits)

end
