(* ===== verification/VfsProps.thy ===== *)
theory VfsProps
  imports VfsSafe
begin

text \<open>
  What the file server promises to processes: no request of a process touches the table, the
  directory or the open files of another, on every state the server can reach; an \<open>open\<close> takes the
  lowest free descriptor and its \<open>close\<close> gives it back; a child of \<open>fork\<close> has its own copies of its
  parent's files; \<open>getcwd\<close> writes the path.
\<close>

section \<open>Reachable states\<close>

text \<open>Between two requests the other servers may change their own state in any way.\<close>

inductive vfs_reach :: "'w servers \<Rightarrow> (u64 \<Rightarrow> string) \<Rightarrow> vfs \<Rightarrow> 'w \<Rightarrow> bool" for srv str where
  start: "0 < brk_ptr s0 \<Longrightarrow> vfs_start srv part s0 wi = Some (s, w) \<Longrightarrow> vfs_reach srv str s w"
| serve: "vfs_reach srv str s w \<Longrightarrow> vfs_serve srv str m cb s w = Some (r, cb', s', w') \<Longrightarrow> vfs_reach srv str s' w''"

definition no_tables :: "vfs \<Rightarrow> bool" where
  "no_tables s \<longleftrightarrow> file_map s = (\<lambda>_. []) \<and> 0 < brk_ptr s"

lemma no_tables_ok: "no_tables s \<Longrightarrow> vfs_ok s"
  by (auto simp: no_tables_def vfs_ok_def file_hash_ok_def buckets_ok_def mapped_def tables_ok_def)

lemma no_tables_upd [simp]:
  "no_tables (upd_dentry d f s) = no_tables s" "no_tables s \<Longrightarrow> no_tables (snd (malloc s))"
  "no_tables (s\<lparr>v_stdin := x\<rparr>) = no_tables s" "no_tables (s\<lparr>v_stdout := x\<rparr>) = no_tables s"
  "no_tables (s\<lparr>v_stderr := x\<rparr>) = no_tables s" "no_tables (s\<lparr>mounts := l\<rparr>) = no_tables s" "no_tables (s\<lparr>root_entry := x\<rparr>) = no_tables s"
  by (simp_all add: no_tables_def malloc_def)

lemma no_tables_mount_dev_file: "no_tables s \<Longrightarrow> no_tables (mount_dev_file d x s)"
  by (simp add: mount_dev_file_def case_prod_beta Let_def)

lemma no_tables_mount_dev: "no_tables s \<Longrightarrow> no_tables (snd (mount_dev s))"
proof -
  have "no_tables (fold (mount_dev_file d) xs s)" if "no_tables s" for d xs and s :: vfs
    using that by (induction xs arbitrary: s) (auto simp: no_tables_mount_dev_file)
  then show "no_tables s \<Longrightarrow> no_tables (snd (mount_dev s))"
    by (simp add: mount_dev_def case_prod_beta Let_def)
qed

lemma vfs_start_no_tables:
  assumes "0 < brk_ptr s" "vfs_start srv part s w = Some (s', w')"
  shows "no_tables s'"
proof -
  let ?s = "s\<lparr>file_map := (\<lambda>_. []), mounts := []\<rparr>"
  let ?m = "mount_root srv IPC_EXT2 part ?s w"
  have n: "no_tables ?s" using assms(1) by (simp add: no_tables_def)
  have "no_tables (fst (snd ?m))"
    using n by (auto simp: mount_root_def case_prod_beta Let_def split: option.splits)
  then show ?thesis
    using assms(2) no_tables_mount_dev by (auto simp: vfs_start_def case_prod_beta Let_def split: if_splits)
qed

lemma vfs_serve_ok: "vfs_ok s \<Longrightarrow> vfs_serve srv str m cb s w = Some (r, cb', s', w') \<Longrightarrow> vfs_ok s'"
  using vfs_serve_step [of s srv str m cb w r cb' s' w'] by (simp add: step_def)

lemma vfs_reach_ok: "vfs_reach srv str s w \<Longrightarrow> vfs_ok s"
  by (induction rule: vfs_reach.induct) (auto dest: vfs_start_no_tables no_tables_ok vfs_serve_ok)


section \<open>Descriptors\<close>

lemma free_fd_Some:
  assumes "free_fd fs = Some fd"
  shows "fd < NR_FILES" "fs ! fd = 0" "\<And>i. i < fd \<Longrightarrow> fs ! i \<noteq> 0"
  using assms unfolding free_fd_def find_Some_iff by auto

lemma lookup_table:
  assumes ok: "vfs_ok s" and t: "map_proc_file pid s = Some t" and l: "vfs_lookup srv c path s w = Some (d, s1, w')"
  shows "tables s1 t = tables s t"
proof -
  have "inner (mapped s) (mapped s) s s1" by (rule inner_lookup [OF l])
  then show ?thesis
    using ok map_proc_file_Some [OF t] by (auto simp: inner_def vfs_ok_def keeps_def)
qed

text \<open>
  C22. A successful \<open>open\<close> returns the lowest descriptor that was free and leaves the other descriptors
  alone; the new file stands at position 0, or at the end of the file under \<open>O_APPEND\<close>; and closing
  the descriptor gives back the table as it was before the \<open>open\<close>.
\<close>

theorem vfs_open_close:
  assumes ok: "vfs_ok s" and t: "map_proc_file pid s = Some t"
    and o: "vfs_open srv pid path oflag s w = Some (r, s', w')" and r: "r \<noteq> -1"
  shows "\<exists>fd < NR_FILES. r = int fd \<and> filp (tables s t) ! fd = 0 \<and> (\<forall>i < fd. filp (tables s t) ! i \<noteq> 0) \<and>
    (let p = filp (tables s' t) ! fd in p \<noteq> 0 \<and> filp (tables s' t) = (filp (tables s t))[fd := p] \<and>
      f_pos (files s' p) = (if oflag AND O_APPEND \<noteq> 0 then f_size (dentries s' (f_dentry (files s' p))) else 0)) \<and>
    (\<exists>s''. vfs_close pid (of_nat fd) s' = Some (0, s'') \<and> tables s'' t = tables s t)"
proof -
  have g: "get_table pid s = (t, s)" using t by (simp add: get_table_def)
  obtain d s1 wl where l: "vfs_lookup srv (cwd (tables s t)) path s w = Some (d, s1, wl)"
    using o by (auto simp: vfs_open_def g bind_eq_Some_conv)
  have t1: "tables s1 t = tables s t" using lookup_table [OF ok t l] .
  define s2 where "s2 = opened oflag d s1"
  have t2: "tables s2 = tables s1" "file_map s2 = file_map s1"
    by (simp_all add: s2_def opened_def Let_def upd_file_def make_filp_def malloc_def)
  have f2: "f_dentry (files s2 (brk_ptr s1)) = d"
      "f_pos (files s2 (brk_ptr s1)) = (if oflag AND O_APPEND \<noteq> 0 then f_size (dentries s2 d) else 0)"
    by (simp_all add: s2_def opened_def Let_def make_filp_def malloc_def upd_file_def upd_dentry_def)
  obtain fd where fd: "free_fd (filp (tables s t)) = Some fd" "r = int fd" "s' = set_filp t fd (brk_ptr s1) s2"
    using o r t1 t2 unfolding vfs_open_eq [OF g l] s2_def [symmetric] by (auto split: if_splits option.splits)
  have "inner (mapped s) (mapped s) s s1" by (rule inner_lookup [OF l])
  then have b: "brk_ptr s1 \<noteq> 0" using ok unfolding inner_def vfs_ok_def tables_ok_def by linarith
  have len: "length (filp (tables s t)) = NR_FILES"
    using ok map_proc_file_Some [OF t] tables_okD(2) by (auto simp: vfs_ok_def)
  note ff = free_fd_Some [OF fd(1)]
  have p: "filp (tables s' t) ! fd = brk_ptr s1" "filp (tables s' t) = (filp (tables s t))[fd := brk_ptr s1]"
      "files s' = files s2" "dentries s' = dentries s2"
    using fd(3) ff(1) len t1 t2 by (simp_all add: set_filp_def upd_table_def)
  have "file_map s' = file_map s1" "\<And>u. pf_pid (tables s' u) = pf_pid (tables s1 u)"
    using t2 by (simp_all add: fd(3) set_filp_def upd_table_def)
  then have m: "map_proc_file pid s' = Some t" using lookup_map [OF l] t by (simp add: map_proc_file_def)
  have i: "sint (of_nat fd :: cint) = int fd"
    using ff(1) by (simp add: NR_FILES_def signed_of_nat signed_take_bit_int_eq_self)
  let ?s = "set_filp t fd 0 (free_filp (brk_ptr s1) s')"
  have "vfs_close pid (of_nat fd) s' = Some (0, ?s)"
    using ff(1) b p(1) by (simp add: vfs_close_def m i NR_FILES_def)
  moreover have "tables ?s t = tables s t"
    using len ff(1,2) t1 t2 by (simp add: fd(3) set_filp_def upd_table_def free_filp_def list_update_same_conv)
  ultimately show ?thesis using ff fd(2) p b f2 by (intro exI [of _ fd]) (auto simp: Let_def)
qed

section \<open>Children\<close>

text \<open>After the first \<open>n\<close> descriptors: they are copied, the others are still free.\<close>

definition copied_to :: "vfs \<Rightarrow> tptr \<Rightarrow> tptr \<Rightarrow> nat \<Rightarrow> vfs \<Rightarrow> bool" where
  "copied_to s0 pt t n s \<longleftrightarrow> tables s pt = tables s0 pt \<and> brk_ptr s0 \<le> brk_ptr s \<and> length (filp (tables s t)) = NR_FILES \<and>
     cwd (tables s t) = cwd (tables s0 pt) \<and> (\<forall>p < brk_ptr s0. files s p = files s0 p) \<and>
     (\<forall>i < NR_FILES. if i < n \<and> filp (tables s0 pt) ! i \<noteq> 0
        then brk_ptr s0 \<le> filp (tables s t) ! i \<and> filp (tables s t) ! i < brk_ptr s \<and>
          files s (filp (tables s t) ! i) = files s0 (filp (tables s0 pt) ! i)
        else filp (tables s t) ! i = 0)"

lemma fork_fd_copies:
  assumes c: "copied_to s0 pt t n s" and n: "n < NR_FILES" "pt \<noteq> t" and b: "filp (tables s0 pt) ! n < brk_ptr s0"
  shows "copied_to s0 pt t (Suc n) (fork_fd pt t n s)"
proof (cases "filp (tables s0 pt) ! n = 0")
  case True
  then have "fork_fd pt t n s = s" using c by (simp add: fork_fd_def copied_to_def)
  then show ?thesis using c True by (auto simp: copied_to_def less_Suc_eq split: if_splits)
next
  case False
  let ?s = "fork_fd pt t n s"
  have pt: "tables s pt = tables s0 pt" using c by (simp add: copied_to_def)
  have e: "tables ?s t = (tables s t)\<lparr>filp := (filp (tables s t))[n := brk_ptr s]\<rparr>" "tables ?s pt = tables s pt"
      "files ?s = (files s)(brk_ptr s := files s (filp (tables s0 pt) ! n))" "brk_ptr ?s = Suc (brk_ptr s)"
    using False n(2) pt by (simp_all add: fork_fd_def malloc_def upd_file_def upd_dentry_def set_filp_def upd_table_def Let_def)
  have f: "files s (filp (tables s0 pt) ! n) = files s0 (filp (tables s0 pt) ! n)" using c b by (simp add: copied_to_def)
  have i: "if i < Suc n \<and> filp (tables s0 pt) ! i \<noteq> 0
      then brk_ptr s0 \<le> filp (tables ?s t) ! i \<and> filp (tables ?s t) ! i < brk_ptr ?s \<and>
        files ?s (filp (tables ?s t) ! i) = files s0 (filp (tables s0 pt) ! i)
      else filp (tables ?s t) ! i = 0" if "i < NR_FILES" for i
    using c that n(1) False f by (cases "i = n") (auto simp: copied_to_def e less_Suc_eq split: if_splits)
  have "tables ?s pt = tables s0 pt" "brk_ptr s0 \<le> brk_ptr ?s" "length (filp (tables ?s t)) = NR_FILES"
      "cwd (tables ?s t) = cwd (tables s0 pt)" "\<forall>p < brk_ptr s0. files ?s p = files s0 p"
    using c by (auto simp: copied_to_def e)
  then show ?thesis using i unfolding copied_to_def by blast
qed

lemma fork_all_copies:
  assumes "copied_to s0 pt t 0 s" "pt \<noteq> t" "\<And>n. n < NR_FILES \<Longrightarrow> filp (tables s0 pt) ! n < brk_ptr s0" "n \<le> NR_FILES"
  shows "copied_to s0 pt t n (fold (fork_fd pt t) [0..<n] s)"
  using assms(4) by (induction n) (simp_all add: assms(1) fork_fd_copies assms(2,3))

text \<open>
  C23. The table the file server makes for a new child has its parent's working directory and, at each
  descriptor its parent has open, a file of its own with the same mode, entry and position; the other
  descriptors are free.
\<close>

theorem vfs_forkfs_copies:
  assumes ok: "vfs_ok s" and pt: "map_proc_file ppid s = Some pt" and new: "map_proc_file pid s = None"
    and s': "vfs_forkfs ppid pid s = (r, s')"
  shows "\<exists>t. map_proc_file pid s' = Some t \<and> cwd (tables s' t) = cwd (tables s pt) \<and>
    (\<forall>fd < NR_FILES. let p = filp (tables s pt) ! fd; c = filp (tables s' t) ! fd
      in if p = 0 then c = 0 else c \<noteq> 0 \<and> c \<noteq> p \<and> files s' c = files s p \<and> files s' p = files s p)"
proof -
  let ?f = "\<lparr>pf_pid = pid, filp = replicate NR_FILES 0, cwd = cwd (tables s pt)\<rparr>"
  let ?t = "brk_ptr s"
  define s1 where "s1 = upd_dentry (cwd (tables s pt)) (\<lambda>d. d\<lparr>f_count := f_count d + 1\<rparr>) (new_table ?f s)"
  define s2 where "s2 = fold (fork_fd pt ?t) [0..<NR_FILES] s1"
  note n = new_table_ok [OF ok, of ?f, simplified]
  have e: "s' = snd (append_proc_file ?t s2)"
    using s' pt by (simp add: vfs_forkfs_def get_table_def new_table_def malloc_def upd_table_def Let_def s1_def s2_def)
  have i: "inner (insert ?t (mapped s)) (mapped s) (new_table ?f s) s2"
    unfolding s1_def s2_def
    by (rule inner_trans [OF inner_dentry], rule inner_fold, rule inner_fork_fd) (use n(1) in auto)
  have m: "map_proc_file pid s' = Some ?t"
    using attach(2) [OF ok _ refl i] new unfolding e by simp
  have ptm: "pt \<in> mapped s" using map_proc_file_Some [OF pt] by simp
  have b: "filp (tables s pt) ! k < brk_ptr s" if "k < NR_FILES" for k
    using ok that ptm tables_okD(2,3) [of "mapped s" s pt] by (simp add: vfs_ok_def)
  have pne: "pt \<noteq> ?t" using ptm n(1) by auto
  have "copied_to s pt ?t 0 s1"
    using pne by (simp add: copied_to_def s1_def new_table_def upd_table_def malloc_def)
  then have c: "copied_to s pt ?t NR_FILES s2"
    unfolding s2_def using pne b by (intro fork_all_copies) simp_all
  have cw: "cwd (tables s2 ?t) = cwd (tables s pt)" using c by (simp add: copied_to_def)
  have s2: "tables s' = tables s2" "files s' = files s2"
    by (simp_all add: e append_proc_file_def Let_def split: option.splits)
  have "let p = filp (tables s pt) ! fd; c = filp (tables s' ?t) ! fd
      in if p = 0 then c = 0 else c \<noteq> 0 \<and> c \<noteq> p \<and> files s' c = files s p \<and> files s' p = files s p" if "fd < NR_FILES" for fd
    using c b [OF that] that unfolding s2 copied_to_def Let_def by (auto split: if_splits)
  then show ?thesis using m cw s2 by auto
qed

section \<open>Working directories\<close>

inductive at_path :: "vfs \<Rightarrow> dptr \<Rightarrow> string list \<Rightarrow> bool" for s where
  root: "at_path s (root_entry s) []"
| child: "at_path s (f_parent (dentries s d)) ns \<Longrightarrow> d \<noteq> root_entry s \<Longrightarrow> d \<noteq> 0 \<Longrightarrow> at_path s d (ns @ [f_name (dentries s d)])"

definition path_text :: "vfs \<Rightarrow> string list \<Rightarrow> string" where
  "path_text s ns = f_name (dentries s (root_entry s)) @ concat (map (\<lambda>n. n @ ''/'') ns)"

lemma put_chars_append:
  assumes "n = int (length p)"
  shows "put_chars (q @ [c]) n (put_chars (p @ [c']) 0 b) = put_chars (p @ q @ [c]) 0 b"
  using assms by (auto simp: put_chars_def fun_eq_iff nth_append nat_diff_distrib nat_less_iff)

lemma getcwdstr_path:
  assumes "at_path s d ns" "int (length (path_text s ns)) < sz"
  shows "getcwdstr s d sz buf = Some (int (length (path_text s ns)), put_chars (path_text s ns @ [CHR 0x00]) 0 buf)"
  using assms
proof (induction rule: at_path.induct)
  case root
  then show ?case by (subst getcwdstr.simps) (simp add: path_text_def Let_def)
next
  case (child d ns)
  let ?p = "path_text s ns" and ?n = "f_name (dentries s d)"
  have t: "path_text s (ns @ [?n]) = ?p @ ?n @ ''/''" by (simp add: path_text_def)
  then have l: "int (length ?p) < sz" "\<not> sz < int (length ?n) + 2" using child.prems by auto
  show ?case
    using child.hyps child.IH [OF l(1)] l(2) put_chars_append [OF refl, of "?n @ ''/''" _ ?p]
    unfolding t by (subst getcwdstr.simps) (simp add: Let_def)
qed


section \<open>An example\<close>

definition example_servers :: "unit servers" where
  "example_servers = \<lparr>
     srv_lookup = (\<lambda>pid ino name w. (if name = ''etc'' then Some (0, 12, 1024, 0x1ff) else Some (-1, 0, 0, 0), w)),
     srv_read = (\<lambda>pid ino fsize pos buf sz w. (Some (uint sz), w)), srv_write = (\<lambda>pid ino fsize pos buf sz w. (Some (uint sz), w)),
     srv_stat = (\<lambda>pid ino buf w. (Some 0, w)), srv_getdents = (\<lambda>pid ino n pos buf w. (Some 0, w)),
     srv_mkdir = (\<lambda>pid ino name mode w. (Some 0, w)), srv_mount = (\<lambda>pid part w. (Some (2, 1024, 0x1ff), w))\<rparr>"

definition example_entry :: "dptr \<Rightarrow> string \<Rightarrow> dptr list \<Rightarrow> dentry" where
  "example_entry par name children = \<lparr>f_fs_pid = IPC_EXT2, f_flags = DE_NORMAL, f_ino = 2, f_count = 1, f_size = 1024, f_mode = 0x1ff,
     f_name = name, f_parent = par, f_children = children\<rparr>"

text \<open>Process 8 works in \<open>/usr\<close>, entry 2 below the root, entry 1, and has a file at position 7 open at descriptor 0.\<close>

definition example_vfs :: vfs where
  "example_vfs = \<lparr>dentries = (\<lambda>d. if d = 2 then example_entry 1 ''usr'' [] else example_entry 1 ''/'' [2]),
     files = (\<lambda>_. \<lparr>fl_mode = 0, f_dentry = 2, f_pos = 7\<rparr>),
     tables = (\<lambda>_. \<lparr>pf_pid = 8, filp = 4 # replicate 63 0, cwd = 2\<rparr>),
     file_map = (\<lambda>i. if i = 8 then [3] else []), brk_ptr = 5, root_entry = 1, v_stdin = 1, v_stdout = 1, v_stderr = 1, mounts = []\<rparr>"

lemma example_vfs_map [simp]:
  "map_proc_file 8 example_vfs = Some 3" "map_proc_file 9 example_vfs = None"
  by (simp_all add: map_proc_file_def example_vfs_def file_bucket_def FILE_MAP_SIZE_def bucket_find_def)

lemma example_vfs_ok: "vfs_ok example_vfs"
proof -
  have "mapped example_vfs = {3}" by (auto simp: mapped_def example_vfs_def split: if_splits)
  moreover have "file_hash_ok example_vfs"
    by (auto simp: file_hash_ok_def buckets_ok_def example_vfs_def file_bucket_def FILE_MAP_SIZE_def)
  moreover have "tables_ok {3} example_vfs"
    by (auto simp: tables_ok_def example_vfs_def NR_FILES_def nth_Cons split: nat.splits)
  ultimately show ?thesis by (simp add: vfs_ok_def)
qed

lemma example_vfs_sel [simp]:
  "tables example_vfs t = \<lparr>pf_pid = 8, filp = 4 # replicate 63 0, cwd = 2\<rparr>" "root_entry example_vfs = 1"
  by (simp_all add: example_vfs_def)

theorem vfs_open_close_witness:
  "\<exists>s' w'. vfs_open example_servers 8 ''/'' O_APPEND example_vfs () = Some (1, s', w') \<and>
     (\<exists>s''. vfs_close 8 1 s' = Some (0, s'') \<and> tables s'' 3 = tables example_vfs 3)"
proof -
  have g: "get_table 8 example_vfs = (3, example_vfs)" by (simp add: get_table_def)
  have l: "vfs_lookup example_servers (cwd (tables example_vfs 3)) ''/'' example_vfs () = Some (1, example_vfs, ())"
    by (simp add: vfs_lookup_def walk.simps)
  have "free_fd (4 # replicate 63 0) = Some 1"
    by (simp add: free_fd_def find_Some_iff NR_FILES_def) (intro exI [of _ 1], simp)
  moreover have "tables (opened O_APPEND 1 example_vfs) 3 = tables example_vfs 3"
    by (simp add: opened_def upd_file_def Let_def)
  ultimately obtain s' w' where o: "vfs_open example_servers 8 ''/'' O_APPEND example_vfs () = Some (1, s', w')"
    by (simp add: vfs_open_eq [OF g l])
  show ?thesis using vfs_open_close [OF example_vfs_ok example_vfs_map(1) o] o by auto
qed

theorem vfs_forkfs_copies_witness:
  "\<exists>t. map_proc_file 9 (snd (vfs_forkfs 8 9 example_vfs)) = Some t \<and>
     f_pos (files (snd (vfs_forkfs 8 9 example_vfs)) (filp (tables (snd (vfs_forkfs 8 9 example_vfs)) t) ! 0)) = 7"
proof -
  have "f_pos (files example_vfs 4) = 7" by (simp add: example_vfs_def)
  then show ?thesis
    using vfs_forkfs_copies [OF example_vfs_ok example_vfs_map surjective_pairing] by (force simp: NR_FILES_def Let_def)
qed


text \<open>Two processes that call \<open>exec\<close> after the start.\<close>

definition exec_request :: "int \<Rightarrow> message" where
  "exec_request pid = zero_message\<lparr>msrc := pid, mtype := MSG_EXECFS\<rparr>"

lemma serve_exec: "vfs_serve srv str (exec_request pid) cb s w = Some (0, cb, snd (vfs_execfs pid s), w)"
  by (simp add: vfs_serve_def vfs_dispatch_def exec_request_def vfs_execfs_def case_prod_beta Let_def msg_numbers split: option.splits)

lemma execfs_mapped: "vfs_ok s \<Longrightarrow> map_proc_file pid s = None \<Longrightarrow> \<exists>t. map_proc_file pid (snd (vfs_execfs pid s)) = Some t"
  using get_table_step(2) [of s pid] by (auto simp: vfs_execfs_def get_table_def case_prod_beta Let_def)


end
