(* ===== verification/Spec2Isabelle.thy ===== *)
theory Spec2Isabelle
  imports MemInit PageMap CacheLife RoundRobin Printk Vga Keyboard HeapTrace VfsProps
begin

text \<open>Verification library of the Feng OS kernel and servers.\<close>

end
